(* ===== verification/Prelude.thy ===== *)
theory Prelude
  imports Main "HOL-Library.Word" "HOL-Library.Monad_Syntax"
begin

text \<open>
  Shared vocabulary of the development: the C integer types of \<^verbatim>\<open>include/types.h\<close>, the
  error numbers of \<^verbatim>\<open>include/errno.h\<close>, the page constants of \<^verbatim>\<open>include/mm/pmm.h\<close>, and the
  generic facts on machine words and lists that the component theories use.

  Conventions.  An unsigned C integer of width \<open>n\<close> is an \<open>n word\<close>, so addition and
  multiplication wrap exactly as they do in C.  A C \<^verbatim>\<open>int\<close> return code is an \<open>int\<close>.
  A C pointer is a \<open>u32\<close> address and \<open>NULL\<close> is \<open>0\<close>.  A function that can reach
  \<^verbatim>\<open>panic\<close> or run for ever returns an \<open>option\<close> whose \<open>None\<close> is that outcome.
\<close>

unbundle bit_operations_syntax

section \<open>Types and constants\<close>

type_synonym u8 = "8 word"
type_synonym u16 = "16 word"
type_synonym u32 = "32 word"
type_synonym u64 = "64 word"
type_synonym addr = u32

abbreviation (input) NULL :: addr where "NULL \<equiv> 0"

abbreviation (input) EPERM :: int where "EPERM \<equiv> 1"
abbreviation (input) ENOENT :: int where "ENOENT \<equiv> 2"
abbreviation (input) EBADF :: int where "EBADF \<equiv> 9"
abbreviation (input) EAGAIN :: int where "EAGAIN \<equiv> 11"
abbreviation (input) ENOMEM :: int where "ENOMEM \<equiv> 12"
abbreviation (input) EACCES :: int where "EACCES \<equiv> 13"
abbreviation (input) EFAULT :: int where "EFAULT \<equiv> 14"
abbreviation (input) EBUSY :: int where "EBUSY \<equiv> 16"
abbreviation (input) EEXIST :: int where "EEXIST \<equiv> 17"
abbreviation (input) EINVAL :: int where "EINVAL \<equiv> 22"
abbreviation (input) EFBIG :: int where "EFBIG \<equiv> 27"
abbreviation (input) ENOSPC :: int where "ENOSPC \<equiv> 28"
abbreviation (input) EPIPE :: int where "EPIPE \<equiv> 32"
abbreviation (input) ERANGE :: int where "ERANGE \<equiv> 34"
abbreviation (input) EDEADLK :: int where "EDEADLK \<equiv> 35"

definition PAGE_SIZE :: u32 where "PAGE_SIZE = 4096"

definition PAGE_MASK :: u32 where "PAGE_MASK = 0xFFFFF000"

definition PAGE_ALIGN_UP :: "u32 \<Rightarrow> u32" where
  "PAGE_ALIGN_UP a = (a + PAGE_SIZE - 1) AND PAGE_MASK"

definition PAGE_ALIGN_DOWN :: "u32 \<Rightarrow> u32" where
  "PAGE_ALIGN_DOWN a = a AND PAGE_MASK"

section \<open>Machine words\<close>

text \<open>
  \<open>word_nat\<close> collects the rules that move a word expression to natural numbers, where linear
  arithmetic decides it.
\<close>

named_theorems word_nat "transfer of word operations to natural numbers"

lemmas [word_nat] = word_less_nat_alt word_le_nat_alt unat_div unat_mod

lemma unat_inj: "(x = y) = (unat x = unat (y :: 'a :: len word))"
  by (auto intro: unsigned_word_eqI)

lemma unat_Suc_less: "x < (y :: 'a :: len word) \<Longrightarrow> unat (x + 1) = Suc (unat x)"
  by unat_arith

lemma unat_add_bounded:
  "unat x + unat y < 2 ^ LENGTH('a) \<Longrightarrow> unat (x + y) = unat x + unat (y :: 'a :: len word)"
  by (simp add: unat_word_ariths)

lemma unat_mult_bounded:
  "unat x * unat y < 2 ^ LENGTH('a) \<Longrightarrow> unat (x * y) = unat x * unat (y :: 'a :: len word)"
  by (simp add: unat_word_ariths)

lemma unat_diff_le: "y \<le> x \<Longrightarrow> unat (x - y) = unat x - unat (y :: 'a :: len word)"
  by (rule unat_sub)

lemma unat32_bound: "unat (x :: u32) < 4294967296"
  using unsigned_less [of x] by simp

lemma and_push_bit_1 [simp]: "((w :: 'a :: len word) AND 2 ^ n \<noteq> 0) = bit w n"
  by (simp add: bit_iff_and_push_bit_not_eq_0)

lemma PAGE_SIZE_unat [simp]: "unat PAGE_SIZE = 4096"
  by (simp add: PAGE_SIZE_def)

lemma and_not_mask_eq: "(a :: 'a :: len word) AND NOT (mask n) = push_bit n (drop_bit n a)"
  by (rule bit_word_eqI) (auto simp: bit_simps)

text \<open>Masking with \<open>PAGE_MASK\<close> rounds down to a multiple of the page size.\<close>

lemma and_PAGE_MASK: "(a :: u32) AND PAGE_MASK = (a div 4096) * 4096"
proof -
  have m: "PAGE_MASK = NOT (mask 12)"
    by (simp add: PAGE_MASK_def mask_eq_exp_minus_1)
  show ?thesis
    unfolding m by (simp add: and_not_mask_eq drop_bit_eq_div push_bit_eq_mult)
qed

lemma unat_and_PAGE_MASK: "unat ((a :: u32) AND PAGE_MASK) = unat a div 4096 * 4096"
proof -
  have "unat (a div 4096) * unat (4096 :: u32) < 2 ^ 32"
    using unat32_bound [of a] by (simp add: unat_div)
  then show ?thesis
    by (simp add: and_PAGE_MASK unat_mult_bounded unat_div)
qed

lemma unat_PAGE_ALIGN_UP:
  "unat a \<le> 4294963200 \<Longrightarrow> unat (PAGE_ALIGN_UP a) = (unat a + 4095) div 4096 * 4096"
proof -
  assume a: "unat a \<le> 4294963200"
  have e: "a + PAGE_SIZE - 1 = a + 4095"
    by (simp add: PAGE_SIZE_def)
  have "unat (a + 4095) = unat a + 4095"
    using a by (subst unat_add_bounded) auto
  then show ?thesis
    by (simp add: PAGE_ALIGN_UP_def e unat_and_PAGE_MASK)
qed

section \<open>Natural numbers\<close>

lemma div_eq_bounds: "0 < n \<Longrightarrow> x div n = k \<longleftrightarrow> n * k \<le> x \<and> x < n * k + (n :: nat)"
  using times_div_less_eq_dividend [of n x] dividend_less_times_div [of n x] div_nat_eqI [of n k x]
  by auto

lemma find_append: "find P (xs @ ys) = (case find P xs of None \<Rightarrow> find P ys | Some x \<Rightarrow> Some x)"
  by (induction xs) auto

end
