(* ===== verification/Pmm.thy ===== *)
theory Pmm
  imports Prelude
begin

text \<open>
  The physical memory manager, \<^verbatim>\<open>kernel/mm/pmm.c\<close>: a bitmap of page frames and its counters.

  The state record holds the C file's static variables.  The bitmap is the array of 32-bit words
  at \<^verbatim>\<open>pmm_bitmap\<close>, a function from the word index to its contents, since the C code indexes it
  without a bound; \<open>pmm_writes_confined\<close> below shows which words are ever written.  Console output
  is not modelled.
\<close>

section \<open>State\<close>

record pmm_stats =
  total_frames :: u32
  used_frames :: u32
  free_frames :: u32
  reserved_frames :: u32
  kernel_frames :: u32

record pmm =
  pmm_bitmap :: "nat \<Rightarrow> u32"
  pmm_bitmap_addr :: addr
  pmm_bitmap_size :: u32
  stats :: pmm_stats
  memory_size :: u32
  kernel_start_phys :: u32
  kernel_end_phys :: u32

section \<open>Operations\<close>

definition pmm_set_bit :: "pmm \<Rightarrow> u32 \<Rightarrow> pmm" where
  "pmm_set_bit p frame =
     (let index = frame div 32; bit = frame mod 32 in
      p\<lparr>pmm_bitmap := (pmm_bitmap p)(unat index :=
           pmm_bitmap p (unat index) OR push_bit (unat bit) 1)\<rparr>)"

definition pmm_clear_bit :: "pmm \<Rightarrow> u32 \<Rightarrow> pmm" where
  "pmm_clear_bit p frame =
     (let index = frame div 32; bit = frame mod 32 in
      p\<lparr>pmm_bitmap := (pmm_bitmap p)(unat index :=
           pmm_bitmap p (unat index) AND NOT (push_bit (unat bit) 1))\<rparr>)"

definition pmm_test_bit :: "pmm \<Rightarrow> u32 \<Rightarrow> bool" where
  "pmm_test_bit p frame =
     (let index = frame div 32; bit = frame mod 32 in
      pmm_bitmap p (unat index) AND push_bit (unat bit) 1 \<noteq> 0)"

text \<open>The two counter updates every caller pairs with a bit change.\<close>

definition take_frames :: "u32 \<Rightarrow> pmm \<Rightarrow> pmm" where
  "take_frames n p = p\<lparr>stats := (stats p)\<lparr>used_frames := used_frames (stats p) + n,
                                         free_frames := free_frames (stats p) - n\<rparr>\<rparr>"

definition give_frame :: "pmm \<Rightarrow> pmm" where
  "give_frame p = p\<lparr>stats := (stats p)\<lparr>used_frames := used_frames (stats p) - 1,
                                       free_frames := free_frames (stats p) + 1\<rparr>\<rparr>"

text \<open>
  The release loop of \<^verbatim>\<open>pmm_init\<close>.  Its 32-bit loop variable steps by a page, so it wraps and the
  loop does not end when the end address lies in the last page of the address space: the result
  is an option.
\<close>

definition pmm_release_one :: "u32 \<Rightarrow> pmm \<Rightarrow> pmm" where
  "pmm_release_one adr p =
     (let frame = adr div PAGE_SIZE in
      if frame < total_frames (stats p) then give_frame (pmm_clear_bit p frame) else p)"

partial_function (option) pmm_release_loop :: "u32 \<Rightarrow> u32 \<Rightarrow> pmm \<Rightarrow> pmm option" where
  "pmm_release_loop adr available_end p =
     (if adr < available_end
      then pmm_release_loop (adr + PAGE_SIZE) available_end (pmm_release_one adr p)
      else Some p)"

text \<open>The state \<^verbatim>\<open>pmm_init\<close> sets up before the loop: every frame marked used.\<close>

definition pmm_boot :: "u32 \<Rightarrow> u32 \<Rightarrow> u32 \<Rightarrow> pmm \<Rightarrow> pmm" where
  "pmm_boot mem_size kernel_start kernel_end p =
     (let total = mem_size div PAGE_SIZE;
          bsize = PAGE_ALIGN_UP ((total + 7) div 8);
          kframes = (kernel_end - kernel_start) div PAGE_SIZE;
          kframes' = (if (kernel_end - kernel_start) mod PAGE_SIZE \<noteq> 0 then kframes + 1 else kframes)
      in p\<lparr>memory_size := mem_size,
           kernel_start_phys := kernel_start,
           kernel_end_phys := kernel_end,
           pmm_bitmap_size := bsize,
           pmm_bitmap_addr := kernel_end,
           pmm_bitmap := (\<lambda>i. if i < unat bsize div 4 then 0xFFFFFFFF else pmm_bitmap p i),
           stats := \<lparr>total_frames = total, used_frames = total, free_frames = 0,
                     reserved_frames = 0x100000 div PAGE_SIZE, kernel_frames = kframes'\<rparr>\<rparr>)"

text \<open>
  The bitmap lies at \<open>kernel_end\<close>.  Here it is a map of its own: its words do not overlap other memory, and
  an access to them does not fault.  The kernel relies on the tables of \<^verbatim>\<open>entry.asm\<close> for that, which map 4 MB.
\<close>

definition pmm_init :: "u32 \<Rightarrow> u32 \<Rightarrow> u32 \<Rightarrow> pmm \<Rightarrow> pmm option" where
  "pmm_init mem_size kernel_start kernel_end p =
     (let p = pmm_boot mem_size kernel_start kernel_end p;
          available_start = PAGE_ALIGN_UP (pmm_bitmap_addr p + pmm_bitmap_size p)
      in pmm_release_loop available_start mem_size p)"

text \<open>The scan of \<^verbatim>\<open>pmm_alloc_frame\<close> for the first clear bit from \<open>i\<close> on.\<close>

function pmm_scan :: "pmm \<Rightarrow> u32 \<Rightarrow> u32 option" where
  "pmm_scan p i =
     (if i < total_frames (stats p)
      then (if \<not> pmm_test_bit p i then Some i else pmm_scan p (i + 1))
      else None)"
  by pat_completeness auto
termination
proof (relation "measure (\<lambda>(p, i). unat (total_frames (stats p)) - unat i)")
  fix p :: pmm and i :: u32
  assume "i < total_frames (stats p)"
  moreover from this have "unat (i + 1) = unat i + 1"
    by unat_arith
  ultimately show "((p, i + 1), p, i) \<in> measure (\<lambda>(p, i). unat (total_frames (stats p)) - unat i)"
    by (simp add: word_less_nat_alt)
qed simp

declare pmm_scan.simps [simp del]

definition pmm_alloc_frame :: "pmm \<Rightarrow> pmm \<times> u32" where
  "pmm_alloc_frame p =
     (case pmm_scan p 0 of
        Some i \<Rightarrow> (take_frames 1 (pmm_set_bit p i), i * PAGE_SIZE)
      | None \<Rightarrow> (p, 0))"

text \<open>
  The scan of \<^verbatim>\<open>pmm_alloc_frames\<close>: \<open>found\<close> clear bits in a row so far, the first of them at
  \<open>start\<close>.
\<close>

function pmm_scan_run :: "pmm \<Rightarrow> u32 \<Rightarrow> u32 \<Rightarrow> u32 \<Rightarrow> u32 \<Rightarrow> u32 option" where
  "pmm_scan_run p count i found start =
     (if i < total_frames (stats p)
      then (if \<not> pmm_test_bit p i
            then (let start' = (if found = 0 then i else start); found' = found + 1 in
                  if found' = count then Some start'
                  else pmm_scan_run p count (i + 1) found' start')
            else pmm_scan_run p count (i + 1) 0 start)
      else None)"
  by pat_completeness auto
termination
proof (relation "measure (\<lambda>(p, count, i, found, start). unat (total_frames (stats p)) - unat i)",
    goal_cases)
  case (2 p count i found start x xa)
  from 2(1) have "unat (i + 1) = unat i + 1" by unat_arith
  with 2(1) show ?case by (simp add: word_less_nat_alt)
next
  case (3 p count i found start)
  from 3(1) have "unat (i + 1) = unat i + 1" by unat_arith
  with 3(1) show ?case by (simp add: word_less_nat_alt)
qed simp

declare pmm_scan_run.simps [simp del]

text \<open>The inner loop that marks \<open>count\<close> frames from \<open>start\<close> on, one bit at a time.\<close>

fun pmm_set_run :: "nat \<Rightarrow> u32 \<Rightarrow> pmm \<Rightarrow> pmm" where
  "pmm_set_run 0 frame p = p"
| "pmm_set_run (Suc n) frame p = pmm_set_run n (frame + 1) (pmm_set_bit p frame)"

definition pmm_alloc_frames :: "u32 \<Rightarrow> pmm \<Rightarrow> pmm \<times> u32" where
  "pmm_alloc_frames count p =
     (if count = 0 then (p, 0)
      else if count = 1 then pmm_alloc_frame p
      else (case pmm_scan_run p count 0 0 0 of
              Some start_frame \<Rightarrow>
                (take_frames count (pmm_set_run (unat count) start_frame p), start_frame * PAGE_SIZE)
            | None \<Rightarrow> (p, 0)))"

definition pmm_free_frame :: "u32 \<Rightarrow> pmm \<Rightarrow> pmm" where
  "pmm_free_frame frame_addr p =
     (if frame_addr = 0 then p
      else let frame = frame_addr div PAGE_SIZE in
        if frame \<ge> total_frames (stats p) then p
        else if \<not> pmm_test_bit p frame then p
        else give_frame (pmm_clear_bit p frame))"

fun pmm_free_frames :: "nat \<Rightarrow> u32 \<Rightarrow> pmm \<Rightarrow> pmm" where
  "pmm_free_frames 0 frame_addr p = p"
| "pmm_free_frames (Suc n) frame_addr p =
     pmm_free_frames n (frame_addr + PAGE_SIZE) (pmm_free_frame frame_addr p)"

definition pmm_mark_frame_used :: "u32 \<Rightarrow> pmm \<Rightarrow> pmm" where
  "pmm_mark_frame_used frame_addr p =
     (let frame = frame_addr div PAGE_SIZE in
      if frame \<ge> total_frames (stats p) then p
      else if \<not> pmm_test_bit p frame then take_frames 1 (pmm_set_bit p frame)
      else p)"

definition pmm_mark_frame_free :: "u32 \<Rightarrow> pmm \<Rightarrow> pmm" where
  "pmm_mark_frame_free frame_addr p = pmm_free_frame frame_addr p"

definition pmm_is_frame_used :: "pmm \<Rightarrow> u32 \<Rightarrow> bool" where
  "pmm_is_frame_used p frame_addr =
     (let frame = frame_addr div PAGE_SIZE in
      if frame \<ge> total_frames (stats p) then True else pmm_test_bit p frame)"

definition pmm_get_total_memory :: "pmm \<Rightarrow> u32" where
  "pmm_get_total_memory p = memory_size p"

definition pmm_get_free_memory :: "pmm \<Rightarrow> u32" where
  "pmm_get_free_memory p = free_frames (stats p) * PAGE_SIZE"


section \<open>Abstraction and invariant\<close>

definition frame_used :: "pmm \<Rightarrow> nat \<Rightarrow> bool" where
  "frame_used p f = bit (pmm_bitmap p (f div 32)) (f mod 32)"

definition used_set :: "pmm \<Rightarrow> nat set" where
  "used_set p = {f. f < unat (total_frames (stats p)) \<and> frame_used p f}"

definition pmm_inv :: "pmm \<Rightarrow> bool" where
  "pmm_inv p \<longleftrightarrow>
     unat (total_frames (stats p)) \<le> 2 ^ 20 \<and>
     unat (total_frames (stats p)) \<le> 32 * (unat (pmm_bitmap_size p) div 4) \<and>
     unat (used_frames (stats p)) = card (used_set p) \<and>
     unat (free_frames (stats p)) = unat (total_frames (stats p)) - card (used_set p)"

lemma pmm_test_bit_iff [simp]: "pmm_test_bit p f = frame_used p (unat f)"
  by (simp add: pmm_test_bit_def frame_used_def Let_def unat_div unat_mod)

lemma frame_used_set_bit [simp]:
  "frame_used (pmm_set_bit p f) g = (g = unat f \<or> frame_used p g)"
  by (auto simp: pmm_set_bit_def frame_used_def Let_def unat_div unat_mod bit_simps)
    (metis div_mult_mod_eq)

lemma frame_used_clear_bit [simp]:
  "frame_used (pmm_clear_bit p f) g = (g \<noteq> unat f \<and> frame_used p g)"
  by (auto simp: pmm_clear_bit_def frame_used_def Let_def unat_div unat_mod bit_simps)
    (metis div_mult_mod_eq)

lemma stats_bit_ops [simp]:
  "stats (pmm_set_bit p f) = stats p"
  "stats (pmm_clear_bit p f) = stats p"
  "pmm_bitmap_size (pmm_set_bit p f) = pmm_bitmap_size p"
  "pmm_bitmap_size (pmm_clear_bit p f) = pmm_bitmap_size p"
  by (simp_all add: pmm_set_bit_def pmm_clear_bit_def Let_def)

lemma counter_ops [simp]:
  "frame_used (take_frames n p) = frame_used p"
  "frame_used (give_frame p) = frame_used p"
  "total_frames (stats (take_frames n p)) = total_frames (stats p)"
  "total_frames (stats (give_frame p)) = total_frames (stats p)"
  "used_frames (stats (take_frames n p)) = used_frames (stats p) + n"
  "free_frames (stats (take_frames n p)) = free_frames (stats p) - n"
  "used_frames (stats (give_frame p)) = used_frames (stats p) - 1"
  "free_frames (stats (give_frame p)) = free_frames (stats p) + 1"
  "pmm_bitmap_size (take_frames n p) = pmm_bitmap_size p"
  "pmm_bitmap_size (give_frame p) = pmm_bitmap_size p"
  by (auto simp: take_frames_def give_frame_def frame_used_def fun_eq_iff)

lemma used_set_counter_ops [simp]:
  "used_set (take_frames n p) = used_set p"
  "used_set (give_frame p) = used_set p"
  by (simp_all add: used_set_def)

lemma finite_used_set [simp, intro]: "finite (used_set p)"
  by (simp add: used_set_def)

lemma card_used_set_le: "card (used_set p) \<le> unat (total_frames (stats p))"
proof -
  have "card (used_set p) \<le> card {..<unat (total_frames (stats p))}"
    by (rule card_mono) (auto simp: used_set_def)
  then show ?thesis by simp
qed

lemma used_set_set_bit:
  "unat f < unat (total_frames (stats p)) \<Longrightarrow>
   used_set (pmm_set_bit p f) = insert (unat f) (used_set p)"
  by (auto simp: used_set_def)

lemma used_set_clear_bit: "used_set (pmm_clear_bit p f) = used_set p - {unat f}"
  by (auto simp: used_set_def)

section \<open>Taking and giving back frames\<close>

text \<open>
  Marking a set of \<open>n\<close> free frames and moving \<open>n\<close> from the free to the used counter keeps the
  invariant; so does the converse for one frame.  All operations are instances.
\<close>

lemma pmm_inv_take:
  assumes inv: "pmm_inv p"
    and used: "used_set q = used_set p \<union> F" "F \<inter> used_set p = {}" "card F = unat n"
    and eqs: "total_frames (stats q) = total_frames (stats p)" "pmm_bitmap_size q = pmm_bitmap_size p"
      "used_frames (stats q) = used_frames (stats p) + n"
      "free_frames (stats q) = free_frames (stats p) - n"
    and fin: "finite F"
  shows "pmm_inv q"
proof -
  have c: "card (used_set q) = card (used_set p) + unat n"
    using used fin by (simp add: card_Un_disjoint Int_commute)
  have le: "card (used_set q) \<le> unat (total_frames (stats p))"
    using card_used_set_le [of q] eqs(1) by simp
  have t: "unat (total_frames (stats p)) \<le> 2 ^ 20"
    using inv by (simp add: pmm_inv_def)
  have u: "unat (used_frames (stats p) + n) = card (used_set q)"
    using inv c le t by (subst unat_add_bounded) (auto simp: pmm_inv_def)
  have f: "unat (free_frames (stats p) - n) = unat (total_frames (stats p)) - card (used_set q)"
    using inv c le by (subst unat_diff_le) (auto simp: pmm_inv_def word_le_nat_alt)
  show ?thesis
    using inv u f by (simp add: pmm_inv_def eqs)
qed

lemma pmm_inv_give:
  assumes inv: "pmm_inv p" and f: "f \<in> used_set p"
    and used: "used_set q = used_set p - {f}"
    and eqs: "total_frames (stats q) = total_frames (stats p)" "pmm_bitmap_size q = pmm_bitmap_size p"
      "used_frames (stats q) = used_frames (stats p) - 1"
      "free_frames (stats q) = free_frames (stats p) + 1"
  shows "pmm_inv q"
proof -
  have c: "card (used_set p) = Suc (card (used_set q))"
    using f by (simp add: used card_Suc_Diff1 del: card_Diff_insert)
  have le: "card (used_set p) \<le> unat (total_frames (stats p))"
    by (rule card_used_set_le)
  have t: "unat (total_frames (stats p)) \<le> 2 ^ 20"
    using inv by (simp add: pmm_inv_def)
  have u: "unat (used_frames (stats p) - 1) = card (used_set q)"
    using inv c by (subst unat_diff_le) (auto simp: pmm_inv_def word_le_nat_alt)
  have f: "unat (free_frames (stats p) + 1) = unat (total_frames (stats p)) - card (used_set q)"
    using inv c le t by (subst unat_add_bounded) (auto simp: pmm_inv_def)
  show ?thesis
    using inv u f by (simp add: pmm_inv_def eqs)
qed

section \<open>The scans\<close>

lemma pmm_scan_Some:
  "pmm_scan p i = Some f \<Longrightarrow>
   unat i \<le> unat f \<and> unat f < unat (total_frames (stats p)) \<and> \<not> frame_used p (unat f) \<and>
   (\<forall>g. unat i \<le> g \<and> g < unat f \<longrightarrow> frame_used p g)"
proof (induction p i rule: pmm_scan.induct)
  case (1 p i)
  show ?case
  proof (cases "i < total_frames (stats p) \<and> frame_used p (unat i)")
    case True
    then have s: "unat (i + 1) = Suc (unat i)"
      by (auto intro: unat_Suc_less)
    from True 1(2) have "pmm_scan p (i + 1) = Some f"
      by (simp add: pmm_scan.simps [of p i])
    with 1(1) True s have *: "Suc (unat i) \<le> unat f" "unat f < unat (total_frames (stats p))"
      "\<not> frame_used p (unat f)"
      and **: "\<And>g. Suc (unat i) \<le> g \<Longrightarrow> g < unat f \<Longrightarrow> frame_used p g"
      by auto
    have "frame_used p g" if "unat i \<le> g" "g < unat f" for g
      using True that ** [of g] by (cases "g = unat i") auto
    with * show ?thesis by auto
  next
    case False
    with 1(2) show ?thesis
      by (auto simp: pmm_scan.simps [of p i] word_less_nat_alt split: if_splits)
  qed
qed

lemma pmm_scan_None:
  "pmm_scan p i = None \<Longrightarrow> unat i \<le> g \<Longrightarrow> g < unat (total_frames (stats p)) \<Longrightarrow> frame_used p g"
proof (induction p i rule: pmm_scan.induct)
  case (1 p i)
  then have i: "i < total_frames (stats p)" by (simp add: word_less_nat_alt)
  with 1(2) have u: "frame_used p (unat i)" "pmm_scan p (i + 1) = None"
    by (auto simp: pmm_scan.simps [of p i] split: if_splits)
  show ?case
  proof (cases "g = unat i")
    case False
    with 1 i u show ?thesis by (simp add: unat_Suc_less [OF i])
  qed (use u in simp)
qed


definition free_run :: "pmm \<Rightarrow> nat \<Rightarrow> nat \<Rightarrow> bool" where
  "free_run p s n \<longleftrightarrow>
     s + n \<le> unat (total_frames (stats p)) \<and> (\<forall>g\<in>{s..<s + n}. \<not> frame_used p g)"

text \<open>
  The state of the run scan at frame \<open>i\<close>: the last \<open>found\<close> frames before \<open>i\<close> are free and start
  at \<open>start\<close>, and no run is complete yet.
\<close>

definition scan_inv :: "pmm \<Rightarrow> u32 \<Rightarrow> u32 \<Rightarrow> u32 \<Rightarrow> u32 \<Rightarrow> bool" where
  "scan_inv p count i found start \<longleftrightarrow>
     unat found < unat count \<and> unat found \<le> unat i \<and>
     (\<forall>g\<in>{unat i - unat found..<unat i}. \<not> frame_used p g) \<and>
     (found \<noteq> 0 \<longrightarrow> unat start = unat i - unat found)"

lemma scan_inv_used:
  "scan_inv p count i found start \<Longrightarrow> i < total_frames (stats p) \<Longrightarrow>
   scan_inv p count (i + 1) 0 start"
  by (auto simp: scan_inv_def)

lemma scan_inv_free:
  assumes "scan_inv p count i found start" "i < total_frames (stats p)" "\<not> frame_used p (unat i)"
    "found + 1 \<noteq> count"
  shows "scan_inv p count (i + 1) (found + 1) (if found = 0 then i else start)"
    and "unat (i + 1) - unat (found + 1) = unat i - unat found"
proof -
  have f: "unat (found + 1) = Suc (unat found)"
    using assms(1) by (intro unat_Suc_less [of found count]) (simp add: scan_inv_def word_less_nat_alt)
  have i: "unat (i + 1) = Suc (unat i)"
    using assms(2) by (rule unat_Suc_less)
  have "unat (found + 1) \<noteq> unat count"
    using assms(4) by (simp add: unat_inj [symmetric])
  with assms f i show "scan_inv p count (i + 1) (found + 1) (if found = 0 then i else start)"
    by (auto simp: scan_inv_def less_Suc_eq)
  show "unat (i + 1) - unat (found + 1) = unat i - unat found"
    by (simp add: f i)
qed

lemma pmm_scan_run_Some:
  assumes "pmm_scan_run p count i found start = Some s" "scan_inv p count i found start"
  shows "free_run p (unat s) (unat count) \<and>
     (\<forall>t. unat i - unat found \<le> t \<and> t < unat s \<longrightarrow> \<not> free_run p t (unat count))"
  using assms
proof (induction p count i found start rule: pmm_scan_run.induct)
  case (1 p count i found start)
  note inv = "1.prems"(2)
  have i: "i < total_frames (stats p)"
    using "1.prems"(1) by (simp add: pmm_scan_run.simps [of p count i] split: if_splits)
  show ?case
  proof (cases "frame_used p (unat i)")
    case True
    have "pmm_scan_run p count (i + 1) 0 start = Some s"
      using "1.prems"(1) True i by (simp add: pmm_scan_run.simps [of p count i])
    with "1.IH"(2) i True scan_inv_used [OF inv i]
    have *: "free_run p (unat s) (unat count)"
      and **: "\<And>t. unat i + 1 \<le> t \<Longrightarrow> t < unat s \<Longrightarrow> \<not> free_run p t (unat count)"
      by (auto simp: unat_Suc_less [OF i])
    have "\<not> free_run p t (unat count)" if "unat i - unat found \<le> t" "t < unat s" for t
    proof (cases "unat i + 1 \<le> t")
      case False
      with that inv have "unat i \<in> {t..<t + unat count}"
        by (auto simp: scan_inv_def)
      with True show ?thesis by (auto simp: free_run_def)
    qed (use that ** in blast)
    with * show ?thesis by blast
  next
    case False
    show ?thesis
    proof (cases "found + 1 = count")
      case True
      with "1.prems"(1) False i have s: "s = (if found = 0 then i else start)"
        by (simp add: pmm_scan_run.simps [of p count i])
      have c: "unat count = Suc (unat found)"
        using True inv unat_Suc_less [of found count] by (simp add: scan_inv_def word_less_nat_alt)
      have si: "unat s = unat i - unat found"
        using s inv by (auto simp: scan_inv_def unat_eq_0)
      have "free_run p (unat s) (unat count)"
        using si inv False i c by (auto simp: free_run_def scan_inv_def word_less_nat_alt less_Suc_eq)
      with si show ?thesis by auto
    next
      case ne: False
      have r: "pmm_scan_run p count (i + 1) (found + 1) (if found = 0 then i else start) = Some s"
        using "1.prems"(1) False i ne by (simp add: pmm_scan_run.simps [of p count i] Let_def)
      show ?thesis
        using "1.IH"(1) [OF i _ refl refl ne r scan_inv_free(1) [OF inv i False ne]] False
          scan_inv_free(2) [OF inv i False ne]
        by simp
    qed
  qed
qed

lemma pmm_scan_run_None:
  assumes "pmm_scan_run p count i found start = None" "scan_inv p count i found start"
    and "unat i - unat found \<le> t"
  shows "\<not> free_run p t (unat count)"
  using assms
proof (induction p count i found start rule: pmm_scan_run.induct)
  case (1 p count i found start)
  note inv = "1.prems"(2) and t = "1.prems"(3)
  show ?case
  proof (cases "i < total_frames (stats p)")
    case False
    with inv t show ?thesis
      by (auto simp: free_run_def scan_inv_def word_less_nat_alt)
  next
    case i: True
    show ?thesis
    proof (cases "frame_used p (unat i)")
      case True
      have r: "pmm_scan_run p count (i + 1) 0 start = None"
        using "1.prems"(1) True i by (simp add: pmm_scan_run.simps [of p count i])
      show ?thesis
      proof (cases "unat i + 1 \<le> t")
        case True
        then show ?thesis
          using "1.IH"(2) [OF i _ r scan_inv_used [OF inv i]] \<open>frame_used p (unat i)\<close>
          by (simp add: unat_Suc_less [OF i])
      next
        case False
        with t inv have "unat i \<in> {t..<t + unat count}"
          by (auto simp: scan_inv_def)
        with True show ?thesis by (auto simp: free_run_def)
      qed
    next
      case False
      with "1.prems"(1) i have ne: "found + 1 \<noteq> count"
        by (auto simp: pmm_scan_run.simps [of p count i])
      have r: "pmm_scan_run p count (i + 1) (found + 1) (if found = 0 then i else start) = None"
        using "1.prems"(1) False i ne by (simp add: pmm_scan_run.simps [of p count i] Let_def)
      show ?thesis
        using "1.IH"(1) [OF i _ refl refl ne r scan_inv_free(1) [OF inv i False ne]] False
          scan_inv_free(2) [OF inv i False ne] t
        by simp
    qed
  qed
qed


section \<open>Allocation and release\<close>

lemma set_run_simps [simp]:
  "stats (pmm_set_run n f p) = stats p"
  "pmm_bitmap_size (pmm_set_run n f p) = pmm_bitmap_size p"
  by (induction n f p rule: pmm_set_run.induct) simp_all

lemma frame_used_set_run:
  "unat f + n \<le> 2 ^ 20 \<Longrightarrow>
   frame_used (pmm_set_run n f p) g = (g \<in> {unat f..<unat f + n} \<or> frame_used p g)"
proof (induction n f p rule: pmm_set_run.induct)
  case (2 n f p)
  then have "unat (f + 1) = Suc (unat f)"
    by (subst unat_add_bounded) auto
  with 2 show ?case by auto
qed simp

lemma used_set_set_run:
  assumes "unat f + n \<le> unat (total_frames (stats p))" "unat (total_frames (stats p)) \<le> 2 ^ 20"
  shows "used_set (pmm_set_run n f p) = used_set p \<union> {unat f..<unat f + n}"
  using assms by (auto simp: used_set_def frame_used_set_run)

lemma pmm_alloc_frame_run:
  "pmm_alloc_frame p =
     (case pmm_scan p 0 of
        Some s \<Rightarrow> (take_frames 1 (pmm_set_run (unat (1 :: u32)) s p), s * PAGE_SIZE)
      | None \<Rightarrow> (p, 0))"
  by (simp add: pmm_alloc_frame_def eval_nat_numeral split: option.split)

text \<open>Both scans find the least free run or prove that there is none.\<close>

lemma pmm_scan_0:
  "case pmm_scan p 0 of
     Some s \<Rightarrow> free_run p (unat s) 1 \<and> (\<forall>t < unat s. \<not> free_run p t 1)
   | None \<Rightarrow> (\<forall>t. \<not> free_run p t 1)"
proof (cases "pmm_scan p 0")
  case None
  then show ?thesis
    using pmm_scan_None [OF None] by (auto simp: free_run_def)
next
  case (Some s)
  then show ?thesis
    using pmm_scan_Some [OF Some] by (auto simp: free_run_def)
qed

lemma pmm_scan_run_0:
  assumes "count \<noteq> 0"
  shows "case pmm_scan_run p count 0 0 0 of
     Some s \<Rightarrow> free_run p (unat s) (unat count) \<and> (\<forall>t < unat s. \<not> free_run p t (unat count))
   | None \<Rightarrow> (\<forall>t. \<not> free_run p t (unat count))"
proof -
  have "scan_inv p count 0 0 0"
    using assms by (simp add: scan_inv_def unat_gt_0)
  then show ?thesis
    using pmm_scan_run_Some [of p count 0 0 0] pmm_scan_run_None [of p count 0 0 0]
    by (auto split: option.split)
qed

lemma alloc_result:
  assumes inv: "pmm_inv p" and run: "free_run p (unat s) (unat n)"
  shows "pmm_inv (take_frames n (pmm_set_run (unat n) s p))"
    and "used_set (take_frames n (pmm_set_run (unat n) s p)) =
         used_set p \<union> {unat s..<unat s + unat n}"
proof -
  have le: "unat s + unat n \<le> unat (total_frames (stats p))"
    and disj: "{unat s..<unat s + unat n} \<inter> used_set p = {}"
    using run by (auto simp: free_run_def used_set_def)
  have t: "unat (total_frames (stats p)) \<le> 2 ^ 20"
    using inv by (simp add: pmm_inv_def)
  show u: "used_set (take_frames n (pmm_set_run (unat n) s p)) =
      used_set p \<union> {unat s..<unat s + unat n}"
    using used_set_set_run [OF le t] by simp
  show "pmm_inv (take_frames n (pmm_set_run (unat n) s p))"
    by (rule pmm_inv_take [OF inv u disj]) simp_all
qed

lemma alloc_frames_cases [consumes 2]:
  assumes inv: "pmm_inv p" and "count \<noteq> 0"
  obtains (found) s where "free_run p (unat s) (unat count)"
      "\<And>t. t < unat s \<Longrightarrow> \<not> free_run p t (unat count)"
      "pmm_alloc_frames count p =
         (take_frames count (pmm_set_run (unat count) s p), s * PAGE_SIZE)"
    | (full) "\<And>t. \<not> free_run p t (unat count)" "pmm_alloc_frames count p = (p, 0)"
proof (cases "count = 1")
  case True
  then have e: "pmm_alloc_frames count p = pmm_alloc_frame p"
    by (simp add: pmm_alloc_frames_def)
  show thesis
    using pmm_scan_0 [of p] that e True
    by (cases "pmm_scan p 0") (auto simp: pmm_alloc_frame_run)
next
  case False
  with \<open>count \<noteq> 0\<close> show thesis
    using pmm_scan_run_0 [OF \<open>count \<noteq> 0\<close>, of p] that
    by (cases "pmm_scan_run p count 0 0 0") (auto simp: pmm_alloc_frames_def)
qed

lemma pmm_free_frame_used:
  assumes inv: "pmm_inv p" and "frame_addr \<noteq> 0" "unat frame_addr div 4096 \<in> used_set p"
  shows "used_set (pmm_free_frame frame_addr p) = used_set p - {unat frame_addr div 4096}"
    and "pmm_inv (pmm_free_frame frame_addr p)"
proof -
  let ?f = "frame_addr div PAGE_SIZE"
  have f: "unat ?f = unat frame_addr div 4096"
    by (simp add: unat_div)
  have e: "pmm_free_frame frame_addr p = give_frame (pmm_clear_bit p ?f)"
    using assms(2,3) f by (auto simp: pmm_free_frame_def Let_def used_set_def word_le_nat_alt)
  show u: "used_set (pmm_free_frame frame_addr p) = used_set p - {unat frame_addr div 4096}"
    by (simp add: e used_set_clear_bit f)
  show "pmm_inv (pmm_free_frame frame_addr p)"
    by (rule pmm_inv_give [OF inv assms(3) u]) (simp_all add: e)
qed

lemma pmm_free_frame_ignored:
  assumes "frame_addr = 0 \<or> unat frame_addr div 4096 \<notin> used_set p"
  shows "pmm_free_frame frame_addr p = p"
  using assms by (auto simp: pmm_free_frame_def Let_def used_set_def unat_div word_le_nat_alt)

lemma total_free_frame [simp]:
  "total_frames (stats (pmm_free_frame a p)) = total_frames (stats p)"
  by (simp add: pmm_free_frame_def Let_def)

section \<open>The frame allocator interface\<close>

text \<open>
  What the clients of the frame allocator (page tables, the kernel heap, page faults) rely on: a
  frame handed out was not in use, is page aligned and not frame 0, and nothing else changes.
\<close>

locale frame_allocator =
  fixes alloc :: "'s \<Rightarrow> 's \<times> u32"
    and free :: "u32 \<Rightarrow> 's \<Rightarrow> 's"
    and used :: "'s \<Rightarrow> nat set"
    and avail :: "'s \<Rightarrow> nat"
    and inv :: "'s \<Rightarrow> bool"
  assumes alloc_frame: "inv s \<Longrightarrow> alloc s = (s', a) \<Longrightarrow> a \<noteq> 0 \<Longrightarrow>
      unat a mod 4096 = 0 \<and> unat a div 4096 \<notin> used s \<and>
      used s' = insert (unat a div 4096) (used s) \<and> inv s'"
    and alloc_fails: "alloc s = (s', 0) \<Longrightarrow> inv s \<Longrightarrow> s' = s"
    and alloc_avail: "inv s \<Longrightarrow> alloc s = (s', a) \<Longrightarrow>
      (a = 0 \<longleftrightarrow> avail s = 0) \<and> avail s' = avail s - 1"
    and free_used: "inv s \<Longrightarrow> unat a mod 4096 = 0 \<Longrightarrow> used (free a s) = used s - (if a = 0 then {} else {unat a div 4096})"
    and free_inv: "inv s \<Longrightarrow> unat a mod 4096 = 0 \<Longrightarrow> inv (free a s)"
begin

lemma alloc_inv: "inv s \<Longrightarrow> alloc s = (s', a) \<Longrightarrow> inv s'"
  by (cases "a = 0") (use alloc_frame alloc_fails in blast)+

lemma alloc_used_mono: "inv s \<Longrightarrow> alloc s = (s', a) \<Longrightarrow> used s \<subseteq> used s'"
  by (cases "a = 0") (use alloc_frame alloc_fails in blast)+

lemma alloc_twice_distinct:
  "inv s \<Longrightarrow> alloc s = (s', a) \<Longrightarrow> alloc s' = (s'', b) \<Longrightarrow> a \<noteq> 0 \<Longrightarrow> b \<noteq> 0 \<Longrightarrow> a \<noteq> b"
  by (metis alloc_frame insertI1)

lemma alloc_free_used:
  assumes "inv s" "alloc s = (s', a)" "a \<noteq> 0"
  shows "used (free a s') = used s \<and> inv (free a s')"
  using alloc_frame [OF assms] free_used [of s' a] free_inv [of s' a] assms(3) by auto

end

definition zero_reserved :: "pmm \<Rightarrow> bool" where
  "zero_reserved p \<longleftrightarrow> pmm_inv p \<and> 0 \<in> used_set p"

lemma page_aligned_mult: "unat s < 2 ^ 20 \<Longrightarrow> unat (s * PAGE_SIZE) = unat s * 4096"
  by (subst unat_mult_bounded) auto

definition frames_left :: "pmm \<Rightarrow> nat" where
  "frames_left p = unat (total_frames (stats p)) - card (used_set p)"

lemma used_set_subset: "used_set p \<subseteq> {..<unat (total_frames (stats p))}"
  by (auto simp: used_set_def)

lemma frames_left_0: "frames_left p = 0 \<longleftrightarrow> used_set p = {..<unat (total_frames (stats p))}"
proof
  assume "frames_left p = 0"
  then have "card {..<unat (total_frames (stats p))} \<le> card (used_set p)"
    by (simp add: frames_left_def)
  then show "used_set p = {..<unat (total_frames (stats p))}"
    using used_set_subset [of p] by (intro card_seteq) simp_all
qed (simp add: frames_left_def)

interpretation pmm: frame_allocator pmm_alloc_frame pmm_free_frame used_set frames_left zero_reserved
proof (unfold_locales, goal_cases)
  case (1 p q a)
  have inv: "pmm_inv p" and z: "0 \<in> used_set p"
    using 1(1) by (auto simp: zero_reserved_def)
  have e: "pmm_alloc_frames 1 p = (q, a)"
    using 1(2) by (simp add: pmm_alloc_frames_def)
  show ?case
    using inv one_neq_zero
  proof (cases rule: alloc_frames_cases)
    case (found s)
    have lt: "unat s < 2 ^ 20" and nu: "unat s \<notin> used_set p"
      using found(1) inv by (auto simp: free_run_def pmm_inv_def used_set_def)
    have a: "unat a = unat s * 4096"
      using found(3) e page_aligned_mult [OF lt] by auto
    have q: "q = take_frames 1 (pmm_set_run (unat (1::u32)) s p)"
      using found(3) e by simp
    show ?thesis
      using alloc_result [OF inv found(1)] a nu z by (auto simp: q zero_reserved_def)
  next
    case full
    with e 1(3) show ?thesis by simp
  qed
next
  case (2 p q)
  have inv: "pmm_inv p" and z: "0 \<in> used_set p"
    using 2(2) by (auto simp: zero_reserved_def)
  have e: "pmm_alloc_frames 1 p = (q, 0)"
    using 2(1) by (simp add: pmm_alloc_frames_def)
  show ?case
    using inv one_neq_zero
  proof (cases rule: alloc_frames_cases)
    case (found s)
    have lt: "unat s < 2 ^ 20" and nu: "unat s \<notin> used_set p"
      using found(1) inv by (auto simp: free_run_def pmm_inv_def used_set_def)
    have "unat (0 :: u32) = unat s * 4096"
      using found(3) e page_aligned_mult [OF lt] by auto
    with nu z show ?thesis by simp
  qed (use e in simp_all)
next
  case (3 p q a)
  then have inv: "pmm_inv p" and z: "0 \<in> used_set p" by (auto simp: zero_reserved_def)
  have e: "pmm_alloc_frames 1 p = (q, a)"
    using 3(2) by (simp add: pmm_alloc_frames_def)
  show ?case
    using inv one_neq_zero
  proof (cases rule: alloc_frames_cases)
    case (found s)
    have lt: "unat s < 2 ^ 20" and s: "unat s \<notin> used_set p" "unat s < unat (total_frames (stats p))"
      using found(1) inv by (auto simp: free_run_def pmm_inv_def used_set_def)
    have a: "unat a = unat s * 4096"
      using found(3) e page_aligned_mult [OF lt] by auto
    have u: "used_set q = insert (unat s) (used_set p)"
      using alloc_result(2) [OF inv found(1)] found(3) e by auto
    have t: "total_frames (stats q) = total_frames (stats p)"
      using found(3) e by auto
    have "a \<noteq> 0" "frames_left p \<noteq> 0"
      using a s z by (auto simp: frames_left_0 unat_0_iff)
    then show ?thesis
      using s by (simp add: frames_left_def u t card_insert_if)
  next
    case full
    have "used_set p = {..<unat (total_frames (stats p))}"
      using full(1) by (force simp: used_set_def free_run_def)
    then show ?thesis
      using full(2) e by (simp add: frames_left_def)
  qed
next
  case (4 p a)
  then have inv: "pmm_inv p" and z: "0 \<in> used_set p" by (auto simp: zero_reserved_def)
  then show ?case
    using pmm_free_frame_used(1) [OF inv, of a] pmm_free_frame_ignored [of a p]
    by (cases "a = 0 \<or> unat a div 4096 \<notin> used_set p") auto
next
  case (5 p a)
  then have inv: "pmm_inv p" and z: "0 \<in> used_set p" by (auto simp: zero_reserved_def)
  have nz: "unat a div 4096 \<noteq> 0" if "a \<noteq> 0"
  proof
    assume "unat a div 4096 = 0"
    with 5(2) have "unat a = 0" by (metis div_mult_mod_eq mult_0 add_0)
    with that show False by (simp add: unat_0_iff)
  qed
  show ?case
    using pmm_free_frame_used [OF inv, of a] pmm_free_frame_ignored [of a p] inv z nz
    by (cases "a = 0 \<or> unat a div 4096 \<notin> used_set p") (auto simp: zero_reserved_def)
qed


section \<open>Initialisation\<close>

lemma pmm_release_step:
  assumes inv: "pmm_inv p" and tot: "unat (total_frames (stats p)) = unat mem div 4096"
    and adr: "unat adr = 4096 * k" "adr < mem"
    and used: "\<And>g. k \<le> g \<Longrightarrow> g < unat mem div 4096 \<Longrightarrow> frame_used p g"
  defines "q \<equiv> pmm_release_one adr p"
  shows "pmm_inv q \<and> used_set q = used_set p - {k} \<and>
    total_frames (stats q) = total_frames (stats p) \<and> pmm_bitmap_size q = pmm_bitmap_size p \<and>
    (\<forall>g. Suc k \<le> g \<and> g < unat mem div 4096 \<longrightarrow> frame_used q g)"
proof -
  have f: "unat (adr div PAGE_SIZE) = k"
    by (simp add: unat_div adr(1))
  show ?thesis
  proof (cases "k < unat mem div 4096")
    case True
    then have q: "q = give_frame (pmm_clear_bit p (adr div PAGE_SIZE))"
      by (simp add: q_def pmm_release_one_def word_less_nat_alt f tot)
    have k: "k \<in> used_set p"
      using True used by (simp add: used_set_def tot)
    have u: "used_set q = used_set p - {k}"
      by (simp add: q used_set_clear_bit f)
    have "pmm_inv q"
      by (rule pmm_inv_give [OF inv k u]) (simp_all add: q)
    with u used show ?thesis by (auto simp: q f)
  next
    case False
    then have "q = p" "k \<notin> used_set p"
      by (auto simp: q_def pmm_release_one_def word_less_nat_alt f tot used_set_def)
    with inv used show ?thesis by auto
  qed
qed

lemma pmm_release_loop_ends:
  assumes mem: "unat mem \<le> 4294963200"
    and "pmm_inv p" "unat (total_frames (stats p)) = unat mem div 4096" "unat adr = 4096 * k"
    and "\<And>g. k \<le> g \<Longrightarrow> g < unat mem div 4096 \<Longrightarrow> frame_used p g"
  shows "\<exists>q. pmm_release_loop adr mem p = Some q \<and> pmm_inv q \<and>
     used_set q = used_set p \<inter> {..<k} \<and>
     total_frames (stats q) = total_frames (stats p) \<and> pmm_bitmap_size q = pmm_bitmap_size p"
  using assms(2-)
proof (induction "unat mem - 4096 * k" arbitrary: k adr p rule: less_induct)
  case less
  show ?case
  proof (cases "adr < mem")
    case False
    then have "unat mem \<le> 4096 * k"
      using less.prems by (simp add: word_less_nat_alt)
    then have "used_set p \<inter> {..<k} = used_set p"
      using less.prems by (auto simp: used_set_def)
    with False less.prems show ?thesis
      by (subst pmm_release_loop.simps) simp
  next
    case True
    let ?q = "pmm_release_one adr p"
    have a: "unat (adr + PAGE_SIZE) = 4096 * Suc k"
      using True mem less.prems by (subst unat_add_bounded) (auto simp: word_less_nat_alt)
    have lt: "unat mem - 4096 * Suc k < unat mem - 4096 * k"
      using True less.prems by (simp add: word_less_nat_alt)
    have q: "pmm_inv ?q" "used_set ?q = used_set p - {k}"
      "total_frames (stats ?q) = total_frames (stats p)" "pmm_bitmap_size ?q = pmm_bitmap_size p"
      "\<And>g. Suc k \<le> g \<Longrightarrow> g < unat mem div 4096 \<Longrightarrow> frame_used ?q g"
      using pmm_release_step [OF less.prems(1,2,3) True less.prems(4)] by auto
    obtain r where "pmm_release_loop (adr + PAGE_SIZE) mem ?q = Some r" "pmm_inv r"
      "used_set r = used_set ?q \<inter> {..<Suc k}" "total_frames (stats r) = total_frames (stats p)"
      "pmm_bitmap_size r = pmm_bitmap_size p"
      using less.hyps [OF lt q(1) _ a q(5)] q(3,4) less.prems(2) by auto
    moreover have "used_set ?q \<inter> {..<Suc k} = used_set p \<inter> {..<k}"
      unfolding q(2) by auto
    ultimately show ?thesis
      using True by (subst pmm_release_loop.simps) simp
  qed
qed

lemma bit_all_ones:
  assumes "n < 32"
  shows "bit (0xFFFFFFFF :: u32) n"
proof -
  have "(0xFFFFFFFF :: u32) = mask 32"
    by (simp add: mask_eq_exp_minus_1)
  moreover have "bit (mask 32 :: u32) n"
    using assms by (simp only: bit_mask_iff) simp
  ultimately show ?thesis by metis
qed

text \<open>The frames below the first page after the bitmap, which \<^verbatim>\<open>pmm_init\<close> keeps back.\<close>

definition boot_frames :: "u32 \<Rightarrow> u32 \<Rightarrow> nat" where
  "boot_frames mem_size kernel_end =
     (unat kernel_end + unat (PAGE_ALIGN_UP ((mem_size div PAGE_SIZE + 7) div 8)) + 4095) div 4096"

lemma bitmap_size_facts:
  fixes mem_size :: u32
  defines "bsize \<equiv> PAGE_ALIGN_UP ((mem_size div PAGE_SIZE + 7) div 8)"
  shows "unat (mem_size div PAGE_SIZE) \<le> 32 * (unat bsize div 4)" "unat bsize \<le> 135168"
proof -
  have m: "unat (mem_size div PAGE_SIZE) = unat mem_size div 4096" "unat mem_size div 4096 < 1048576"
    using unat32_bound [of mem_size] by (auto simp: unat_div)
  have "unat (mem_size div PAGE_SIZE + 7) = unat mem_size div 4096 + 7"
    using m by (subst unat_add_bounded) auto
  then have s: "unat ((mem_size div PAGE_SIZE + 7) div 8) = (unat mem_size div 4096 + 7) div 8"
    by (simp add: unat_div)
  then have b: "unat bsize = ((unat mem_size div 4096 + 7) div 8 + 4095) div 4096 * 4096"
    unfolding bsize_def using m by (subst unat_PAGE_ALIGN_UP) auto
  let ?m = "unat mem_size div 4096" and ?c = "((unat mem_size div 4096 + 7) div 8 + 4095) div 4096"
  have "?m \<le> 8 * ((?m + 7) div 8)" "(?m + 7) div 8 \<le> 4096 * ?c" "?c \<le> 33"
    using m(2) by arith+
  moreover have "unat bsize div 4 = 1024 * ?c"
    unfolding b by simp
  ultimately show "unat (mem_size div PAGE_SIZE) \<le> 32 * (unat bsize div 4)" "unat bsize \<le> 135168"
    unfolding m(1) b by simp_all
qed

lemma pmm_init_ok:
  assumes mem: "unat mem_size \<le> 4294963200" and k: "unat kernel_end \<le> 4294000000"
  shows "\<exists>q. pmm_init mem_size kernel_start kernel_end p = Some q \<and> pmm_inv q \<and>
     unat (total_frames (stats q)) = unat mem_size div 4096 \<and>
     used_set q = {f. f < unat mem_size div 4096 \<and> f < boot_frames mem_size kernel_end}"
proof -
  let ?b = "PAGE_ALIGN_UP ((mem_size div PAGE_SIZE + 7) div 8)"
  have t: "unat (mem_size div PAGE_SIZE) = unat mem_size div 4096" "unat mem_size div 4096 < 1048576"
    using unat32_bound [of mem_size] by (auto simp: unat_div)
  have kb: "unat (kernel_end + ?b) = unat kernel_end + unat ?b"
    using k bitmap_size_facts(2) [of mem_size] by (subst unat_add_bounded) auto
  then have start: "unat (PAGE_ALIGN_UP (kernel_end + ?b)) = 4096 * boot_frames mem_size kernel_end"
    unfolding boot_frames_def using k bitmap_size_facts(2) [of mem_size]
    by (subst unat_PAGE_ALIGN_UP) (auto simp: kb)
  let ?p = "pmm_boot mem_size kernel_start kernel_end p"
  have used: "frame_used ?p g" if "g < unat mem_size div 4096" for g
  proof -
    have "g div 32 < unat ?b div 4"
      using that bitmap_size_facts(1) [of mem_size] t(1) by linarith
    then show ?thesis
      using bit_all_ones [of "g mod 32"]
      by (simp add: frame_used_def pmm_boot_def Let_def del: bit_numeral_iff)
  qed
  have tp: "total_frames (stats ?p) = mem_size div PAGE_SIZE"
      "pmm_bitmap_size ?p = ?b" "pmm_bitmap_addr ?p = kernel_end"
    by (simp_all add: pmm_boot_def Let_def)
  from used have us: "used_set ?p = {..<unat mem_size div 4096}"
    by (auto simp: used_set_def tp t)
  have inv: "pmm_inv ?p"
    using t us bitmap_size_facts(1) [of mem_size] by (simp add: pmm_inv_def pmm_boot_def Let_def)
  have "\<exists>q. pmm_release_loop (PAGE_ALIGN_UP (kernel_end + ?b)) mem_size ?p = Some q \<and> pmm_inv q \<and>
      used_set q = used_set ?p \<inter> {..<boot_frames mem_size kernel_end} \<and>
      total_frames (stats q) = total_frames (stats ?p) \<and> pmm_bitmap_size q = pmm_bitmap_size ?p"
    by (rule pmm_release_loop_ends [OF mem inv _ start]) (simp_all add: tp t used)
  then show ?thesis
    unfolding us by (auto simp: pmm_init_def Let_def tp t)
qed

section \<open>Which bitmap words are written\<close>

definition bitmap_confined :: "pmm \<Rightarrow> pmm \<Rightarrow> bool" where
  "bitmap_confined p q \<longleftrightarrow>
     pmm_bitmap_size q = pmm_bitmap_size p \<and>
     (\<forall>i \<ge> unat (pmm_bitmap_size p) div 4. pmm_bitmap q i = pmm_bitmap p i)"

lemma bitmap_confined_refl [simp]: "bitmap_confined p p"
  by (simp add: bitmap_confined_def)

lemma bitmap_confined_counters [simp]:
  "bitmap_confined p (take_frames n q) = bitmap_confined p q"
  "bitmap_confined p (give_frame q) = bitmap_confined p q"
  by (simp_all add: bitmap_confined_def take_frames_def give_frame_def)

lemma bitmap_confined_bit_ops:
  assumes "bitmap_confined p q" "unat f div 32 < unat (pmm_bitmap_size p) div 4"
  shows "bitmap_confined p (pmm_set_bit q f)" "bitmap_confined p (pmm_clear_bit q f)"
  using assms by (auto simp: bitmap_confined_def pmm_set_bit_def pmm_clear_bit_def Let_def unat_div)

lemma frame_in_bitmap:
  "pmm_inv p \<Longrightarrow> f < unat (total_frames (stats p)) \<Longrightarrow> f div 32 < unat (pmm_bitmap_size p) div 4"
  by (simp add: pmm_inv_def less_mult_imp_div_less)

lemma bitmap_confined_set_run:
  "bitmap_confined p q \<Longrightarrow> pmm_inv p \<Longrightarrow> unat f + n \<le> unat (total_frames (stats p)) \<Longrightarrow>
   bitmap_confined p (pmm_set_run n f q)"
proof (induction n f q rule: pmm_set_run.induct)
  case (2 n f q)
  then have "unat (f + 1) = Suc (unat f)"
    by (subst unat_add_bounded) (auto simp: pmm_inv_def)
  with 2 show ?case
    by (simp add: bitmap_confined_bit_ops(1) frame_in_bitmap)
qed simp

lemma bitmap_confined_alloc_frames:
  assumes "pmm_inv p"
  shows "bitmap_confined p (fst (pmm_alloc_frames count p))"
proof (cases "count = 0")
  case False
  show ?thesis
    using assms False
  proof (cases rule: alloc_frames_cases)
    case (found s)
    then show ?thesis
      using assms by (simp add: bitmap_confined_set_run free_run_def)
  qed simp
qed (simp add: pmm_alloc_frames_def)

lemma bitmap_confined_free_frame:
  "pmm_inv p \<Longrightarrow> bitmap_confined p (pmm_free_frame a p)"
  by (simp add: pmm_free_frame_def Let_def bitmap_confined_bit_ops frame_in_bitmap word_le_nat_alt)

section \<open>Properties\<close>

lemma used_set_code [code_unfold]:
  "used_set p = set (filter (frame_used p) [0..<unat (total_frames (stats p))])"
  by (auto simp: used_set_def)

text \<open>A machine with eight frames, of which 0, 1, 2 and 4 are in use.\<close>

definition demo_pmm :: pmm where
  "demo_pmm =
     \<lparr>pmm_bitmap = (\<lambda>i. if i = 0 then 0x17 else 0xFFFFFFFF), pmm_bitmap_addr = 0x2000,
      pmm_bitmap_size = 4096,
      stats = \<lparr>total_frames = 8, used_frames = 4, free_frames = 4, reserved_frames = 1,
               kernel_frames = 1\<rparr>,
      memory_size = 0x8000, kernel_start_phys = 0x1000, kernel_end_phys = 0x2000\<rparr>"

lemma demo_used: "used_set demo_pmm = {0, 1, 2, 4}"
proof -
  have "unat (total_frames (stats demo_pmm)) = 8"
    by (simp add: demo_pmm_def)
  moreover have "[0..<8] = [0, 1, 2, 3, 4, 5, 6, 7::nat]"
    by (simp add: upt_rec)
  ultimately show ?thesis
    by (simp add: used_set_code frame_used_def demo_pmm_def bit_numeral_rec)
qed

lemma demo_frames [simp]:
  "total_frames (stats demo_pmm) = 8"
  "frame_used demo_pmm 0" "frame_used demo_pmm (Suc 0)" "frame_used demo_pmm 2"
  "\<not> frame_used demo_pmm 3" "frame_used demo_pmm 4" "\<not> frame_used demo_pmm 5"
  by (simp_all add: frame_used_def demo_pmm_def bit_numeral_rec)

lemma demo_inv: "pmm_inv demo_pmm" "zero_reserved demo_pmm"
  by (simp_all add: pmm_inv_def zero_reserved_def demo_used) (simp_all add: demo_pmm_def)

text \<open>
  \<^bold>\<open>C34.\<close> Initialising the allocator terminates whenever the memory size leaves the last page of the
  32-bit address space out, and then the frames in use are exactly those below the first page after
  the bitmap (the low memory, the kernel and the bitmap itself); the counters agree with the bitmap.
\<close>

theorem pmm_init_correct:
  assumes "unat mem_size \<le> 4294963200" "unat kernel_end \<le> 4294000000"
  shows "\<exists>q. pmm_init mem_size kernel_start kernel_end p = Some q \<and> pmm_inv q \<and>
     unat (total_frames (stats q)) = unat mem_size div 4096 \<and>
     used_set q = {f. f < unat mem_size div 4096 \<and> f < boot_frames mem_size kernel_end}"
  using assms by (rule pmm_init_ok)

theorem pmm_init_correct_witness:
  "\<exists>q. pmm_init 0x2000000 0x100000 0x180000 demo_pmm = Some q \<and> pmm_inv q \<and>
     used_set q = {f. f < 8192 \<and> f < boot_frames 0x2000000 0x180000}"
  using pmm_init_correct [of "0x2000000" "0x180000" "0x100000" demo_pmm] by auto

text \<open>
  \<^bold>\<open>C9.\<close> Allocation of \<open>count\<close> contiguous frames is first fit and complete: when a free run of that
  length exists, the address of the lowest one is returned and exactly its frames become used; when
  none exists, 0 is returned and the state is unchanged.  The counters stay consistent either way.
\<close>

theorem pmm_alloc_frames_first_fit:
  assumes "pmm_inv p" "count \<noteq> 0"
  shows "let (q, a) = pmm_alloc_frames count p; n = unat count in
     pmm_inv q \<and>
     (if \<exists>s. free_run p s n
      then a = of_nat (LEAST s. free_run p s n) * PAGE_SIZE \<and>
           used_set q = used_set p \<union> {(LEAST s. free_run p s n)..<(LEAST s. free_run p s n) + n}
      else a = 0 \<and> q = p)"
  using assms
proof (cases rule: alloc_frames_cases)
  case (found s)
  then have "(LEAST s. free_run p s (unat count)) = unat s"
    by (metis LeastI Least_le le_neq_implies_less)
  with found alloc_result [OF assms(1) found(1)] show ?thesis
    by (auto simp: Let_def)
next
  case full
  with assms show ?thesis by simp
qed

theorem pmm_alloc_frames_first_fit_witness:
  "let (q, a) = pmm_alloc_frames 2 demo_pmm in
     pmm_inv q \<and> a = 0x5000 \<and> used_set q = {0, 1, 2, 4, 5, 6}"
proof -
  have run: "free_run demo_pmm s 2 \<longleftrightarrow> s = 5 \<or> s = 6" for s
  proof -
    have "free_run demo_pmm s 2 \<longleftrightarrow> s + 2 \<le> 8 \<and> {s..<s + 2} \<inter> used_set demo_pmm = {}"
      by (auto simp: free_run_def used_set_def demo_pmm_def)
    also have "\<dots> \<longleftrightarrow> s = 5 \<or> s = 6"
      unfolding demo_used by auto
    finally show ?thesis .
  qed
  have least: "(LEAST s. free_run demo_pmm s 2) = 5"
    by (rule Least_equality) (auto simp: run)
  have set: "{5..<7} = {5, 6::nat}"
    by auto
  obtain q a where e: "pmm_alloc_frames 2 demo_pmm = (q, a)" by force
  have "\<exists>s. free_run demo_pmm s 2"
    using run by blast
  then have "pmm_inv q \<and> a = of_nat 5 * PAGE_SIZE \<and> used_set q = {0, 1, 2, 4} \<union> {5..<7}"
    using pmm_alloc_frames_first_fit [OF demo_inv(1), of 2] by (simp add: e least demo_used)
  then show ?thesis
    by (simp add: e set PAGE_SIZE_def) blast
qed

text \<open>
  \<^bold>\<open>C35.\<close> Releasing a frame clears exactly that frame and keeps the counters consistent; releasing
  address 0, an address beyond the managed memory or a frame that is already free changes nothing.
\<close>

theorem pmm_free_frame_correct:
  assumes "pmm_inv p"
  shows "pmm_inv (pmm_free_frame a p) \<and>
     (if a \<noteq> 0 \<and> unat a div 4096 \<in> used_set p
      then used_set (pmm_free_frame a p) = used_set p - {unat a div 4096}
      else pmm_free_frame a p = p)"
  using assms pmm_free_frame_used [OF assms, of a] pmm_free_frame_ignored [of a p] by auto

theorem pmm_free_frame_correct_witness:
  "used_set (pmm_free_frame 0x4000 demo_pmm) = {0, 1, 2} \<and> pmm_free_frame 0x5000 demo_pmm = demo_pmm"
proof -
  have "{0, 1, 2, 4} - {4} = {0, 1, 2::nat}"
    by auto
  then show ?thesis
    using pmm_free_frame_correct [OF demo_inv(1), of "0x4000"]
      pmm_free_frame_correct [OF demo_inv(1), of "0x5000"]
    by (simp add: demo_used del: insert_Diff_single)
qed

text \<open>
  \<^bold>\<open>C10.\<close> A frame handed out by a successful allocation was free before, and giving it back restores
  the set of used frames; two allocations in a row never return the same frame.
\<close>

theorem pmm_alloc_free_roundtrip:
  assumes "zero_reserved p" "pmm_alloc_frame p = (q, a)" "a \<noteq> 0"
    "pmm_alloc_frame q = (r, b)" "b \<noteq> 0"
  shows "unat a div 4096 \<notin> used_set p \<and> used_set (pmm_free_frame a q) = used_set p \<and>
     zero_reserved (pmm_free_frame a q) \<and> a \<noteq> b"
  using pmm.alloc_frame [OF assms(1-3)] pmm.alloc_free_used [OF assms(1-3)]
    pmm.alloc_twice_distinct [OF assms(1,2,4,3,5)]
  by blast

theorem pmm_alloc_free_roundtrip_witness:
  "let (q, a) = pmm_alloc_frame demo_pmm; (r, b) = pmm_alloc_frame q in
     a = 0x3000 \<and> b = 0x5000 \<and> used_set (pmm_free_frame a q) = {0, 1, 2, 4} \<and> a \<noteq> b"
proof -
  obtain q a where q: "pmm_alloc_frame demo_pmm = (q, a)" by force
  obtain r b where r: "pmm_alloc_frame q = (r, b)" by force
  have ab: "a = 0x3000" "b = 0x5000"
    using q r by (auto simp: pmm_alloc_frame_def pmm_scan.simps PAGE_SIZE_def)
  show ?thesis
    using pmm_alloc_free_roundtrip [OF demo_inv(2) q _ r] by (simp add: q r ab demo_used)
qed

text \<open>
  Memory safety of the bitmap: no allocation and no release writes a word outside the
  \<open>pmm_bitmap_size\<close> bytes that \<^verbatim>\<open>pmm_init\<close> set aside for it.
\<close>

theorem pmm_writes_confined:
  assumes "pmm_inv p"
  shows "bitmap_confined p (fst (pmm_alloc_frames count p)) \<and>
    bitmap_confined p (pmm_free_frame a p) \<and> bitmap_confined p (pmm_mark_frame_used a p)"
  using assms bitmap_confined_alloc_frames bitmap_confined_free_frame
  by (simp add: pmm_mark_frame_used_def Let_def bitmap_confined_bit_ops frame_in_bitmap word_le_nat_alt)

theorem pmm_writes_confined_witness:
  "bitmap_confined demo_pmm (fst (pmm_alloc_frames 3 demo_pmm))"
  using pmm_writes_confined [OF demo_inv(1)] by blast

text \<open>
  The guard of \<^verbatim>\<open>pmm_free_frame\<close> against frame 0 tests the address, not the frame: an
  address inside the first page, such as 1, releases frame 0.  The next allocation then takes frame 0
  and returns address 0, which every caller reads as "out of memory": the frame is lost.
\<close>

theorem pmm_free_unaligned_zero:
  assumes "zero_reserved p"
  shows "let q = pmm_free_frame 1 p; (r, a) = pmm_alloc_frame q in
     0 \<notin> used_set q \<and> a = 0 \<and> used_set r = used_set p"
proof -
  have inv: "pmm_inv p" and z: "0 \<in> used_set p"
    using assms by (simp_all add: zero_reserved_def)
  let ?q = "pmm_free_frame 1 p"
  have q: "used_set ?q = used_set p - {0}" "pmm_inv ?q"
    using pmm_free_frame_used [OF inv, of 1] z by simp_all
  have "0 \<notin> used_set ?q" "0 < unat (total_frames (stats p))"
    using z by (simp_all add: q(1)) (simp add: used_set_def)
  then have run: "free_run ?q 0 1"
    by (simp add: free_run_def used_set_def)
  show ?thesis
    using q(2) one_neq_zero
  proof (cases rule: alloc_frames_cases)
    case (found s)
    with run have s: "unat s = 0"
      by (cases "unat s = 0") simp_all
    then have "s = 0" by (simp add: unat_0_iff)
    define r where "r = take_frames 1 (pmm_set_run (unat (1::u32)) s ?q)"
    have "pmm_alloc_frame ?q = (r, 0)"
      using found(3) \<open>s = 0\<close> by (simp add: pmm_alloc_frames_def r_def)
    moreover have "used_set r = used_set ?q \<union> {0..<1}"
      using alloc_result(2) [OF q(2) found(1)] by (simp only: r_def s unat_1 add_0)
    moreover have "used_set p - {0} \<union> {0..<1} = used_set p"
      using z by auto
    ultimately show ?thesis
      by (simp add: q(1) del: One_nat_def)
  next
    case full
    with run show ?thesis by simp
  qed
qed

theorem pmm_free_unaligned_zero_witness:
  "let q = pmm_free_frame 1 demo_pmm; (r, a) = pmm_alloc_frame q in
     0 \<notin> used_set q \<and> a = 0 \<and> used_set r = {0, 1, 2, 4}"
  using pmm_free_unaligned_zero [OF demo_inv(2)] by (simp add: demo_used)

end
