(* ===== verification/Vmm.thy ===== *)
theory Vmm
  imports Pmm
begin

text \<open>
  The virtual memory manager \<^verbatim>\<open>kernel/mm/vmm.c\<close> on a model of the machine it drives: physical
  memory as 32-bit words, the register \<open>cr3\<close>, and the two-level walk the processor performs.  The
  kernel reads and writes page tables through the recursive entry 1023 of the page directory, so
  every access of the model goes through that walk (\<open>rd32\<close>, \<open>wr32\<close>) and a missing translation is
  a page fault.  \<open>vm_inv\<close> says that the recursive entry is in place and that the page tables are
  pairwise distinct frames that the frame allocator will not hand out again; under it
  \<open>map_page_result\<close> describes \<^verbatim>\<open>vmm_map_page\<close> as an update of physical memory, and the properties say
  what the processor then translates.

  The page tables that the boot loader builds (\<^verbatim>\<open>boot/stage2/loader_complete.asm\<close>) are modelled as
  well, and \<^verbatim>\<open>vmm_init\<close> turns them into a state that satisfies \<open>vm_inv\<close>; the kernel itself never calls
  \<^verbatim>\<open>vmm_init\<close> (see theory \<open>Spec2Isabelle\<close>).  The translation
  lookaside buffer is not modelled: the code invalidates the page after each change of an entry.
\<close>

section \<open>Data\<close>

definition PAGE_PRESENT :: u32 where "PAGE_PRESENT = 0x001"
definition PAGE_WRITE :: u32 where "PAGE_WRITE = 0x002"
definition PAGE_USER :: u32 where "PAGE_USER = 0x004"

definition PAGE_FLAGS_KERNEL :: u32 where
  "PAGE_FLAGS_KERNEL = PAGE_PRESENT OR PAGE_WRITE"

definition KERNEL_PHYSICAL_BASE :: u32 where "KERNEL_PHYSICAL_BASE = 0x00100000"

definition PD_INDEX :: "u32 \<Rightarrow> u32" where "PD_INDEX virt = drop_bit 22 virt"
definition PT_INDEX :: "u32 \<Rightarrow> u32" where "PT_INDEX virt = drop_bit 12 virt AND 0x3FF"
definition PAGE_OFFSET :: "u32 \<Rightarrow> u32" where "PAGE_OFFSET virt = virt AND 0xFFF"

definition GET_PAGE_TABLE :: "u32 \<Rightarrow> u32" where
  "GET_PAGE_TABLE pd_idx = 0xFFC00000 + pd_idx * 0x1000"

definition GET_PAGE_DIRECTORY :: u32 where "GET_PAGE_DIRECTORY = 0xFFFFF000"

record page_directory =
  physical_addr :: u32
  pd_entries :: addr

text \<open>A pointer to a page directory: NULL, the static \<open>kernel_directory\<close>, or an allocated one.\<close>

datatype pd_ref = PD_NULL | PD_KERNEL | PD_HEAP addr

record vm =
  ram :: "u32 \<Rightarrow> u32"
  cr3 :: u32
  vm_pmm :: pmm
  kernel_directory :: page_directory
  current_directory :: pd_ref

definition pde_create :: "u32 \<Rightarrow> u32 \<Rightarrow> u32" where
  "pde_create pt_phys flags = (pt_phys AND 0xFFFFF000) OR (flags AND 0xFFF)"

definition pte_create :: "u32 \<Rightarrow> u32 \<Rightarrow> u32" where
  "pte_create page_phys flags = (page_phys AND 0xFFFFF000) OR (flags AND 0xFFF)"

definition pde_get_addr :: "u32 \<Rightarrow> u32" where "pde_get_addr pde = pde AND 0xFFFFF000"

definition pte_get_addr :: "u32 \<Rightarrow> u32" where "pte_get_addr pte = pte AND 0xFFFFF000"

definition pte_is_present :: "u32 \<Rightarrow> bool" where
  "pte_is_present pte \<longleftrightarrow> pte AND PAGE_PRESENT \<noteq> 0"

section \<open>The processor\<close>

text \<open>The translation the processor makes for a virtual address, \<open>None\<close> being a page fault.\<close>

definition mmu_walk :: "vm \<Rightarrow> u32 \<Rightarrow> u32 option" where
  "mmu_walk m v =
     (let pde = ram m ((cr3 m AND 0xFFFFF000) + 4 * PD_INDEX v) in
      if \<not> pte_is_present pde then None
      else let pte = ram m (pde_get_addr pde + 4 * PT_INDEX v) in
           if \<not> pte_is_present pte then None
           else Some (pte_get_addr pte + PAGE_OFFSET v))"

definition rd32 :: "vm \<Rightarrow> u32 \<Rightarrow> u32 option" where
  "rd32 m v = map_option (ram m) (mmu_walk m v)"

definition wr32 :: "vm \<Rightarrow> u32 \<Rightarrow> u32 \<Rightarrow> vm option" where
  "wr32 m v x = map_option (\<lambda>a. m\<lparr>ram := (ram m)(a := x)\<rparr>) (mmu_walk m v)"

text \<open>\<^verbatim>\<open>memset(p, 0, 4 * n)\<close> on words, each store translated on its own.\<close>

fun zero_words :: "nat \<Rightarrow> u32 \<Rightarrow> vm \<Rightarrow> vm option" where
  "zero_words 0 v m = Some m"
| "zero_words (Suc n) v m = do { m \<leftarrow> wr32 m v 0; zero_words n (v + 4) m }"

section \<open>Operations\<close>

text \<open>
  Initialisation: \<open>pd\<close> is dereferenced through the identity mapping that the boot loader left.
\<close>

definition vmm_init :: "u32 \<Rightarrow> vm \<Rightarrow> vm option" where
  "vmm_init kernel_end m =
     do {
       let pd_phys = cr3 m;
       let m = m\<lparr>kernel_directory := (kernel_directory m)\<lparr>physical_addr := pd_phys\<rparr>\<rparr>;
       rd32 m pd_phys;
       rd32 m (pd_phys + 4 * 768);
       m \<leftarrow> wr32 m (pd_phys + 4 * 1023) (pde_create pd_phys (PAGE_PRESENT OR PAGE_WRITE));
       let m = m\<lparr>cr3 := pd_phys\<rparr>;
       let m = m\<lparr>kernel_directory := (kernel_directory m)\<lparr>pd_entries := GET_PAGE_DIRECTORY\<rparr>,
                 current_directory := PD_KERNEL\<rparr>;
       let kernel_size = kernel_end - KERNEL_PHYSICAL_BASE;
       let mapped_size = 4 * 1024 * 1024;
       if kernel_size > mapped_size then None else Some m
     }"

definition vmm_map_page :: "u32 \<Rightarrow> u32 \<Rightarrow> u32 \<Rightarrow> vm \<Rightarrow> vm option" where
  "vmm_map_page virt phys flags m =
     do {
       let pd_index = PD_INDEX virt;
       let pt_index = PT_INDEX virt;
       pde \<leftarrow> rd32 m (GET_PAGE_DIRECTORY + 4 * pd_index);
       m \<leftarrow> (if \<not> pte_is_present pde then
               (case pmm_alloc_frame (vm_pmm m) of
                  (pm, pt_phys) \<Rightarrow>
                    if pt_phys = 0 then None
                    else do {
                      m \<leftarrow> wr32 (m\<lparr>vm_pmm := pm\<rparr>) (GET_PAGE_DIRECTORY + 4 * pd_index)
                             (pde_create pt_phys (PAGE_PRESENT OR PAGE_WRITE OR flags));
                      zero_words 1024 (GET_PAGE_TABLE pd_index) m
                    })
             else Some m);
       wr32 m (GET_PAGE_TABLE pd_index + 4 * pt_index) (pte_create phys (PAGE_PRESENT OR flags))
     }"

definition vmm_unmap_page :: "u32 \<Rightarrow> vm \<Rightarrow> vm option" where
  "vmm_unmap_page virt m =
     do {
       let pd_index = PD_INDEX virt;
       let pt_index = PT_INDEX virt;
       pde \<leftarrow> rd32 m (GET_PAGE_DIRECTORY + 4 * pd_index);
       if \<not> pte_is_present pde then Some m
       else do {
         pte \<leftarrow> rd32 m (GET_PAGE_TABLE pd_index + 4 * pt_index);
         if pte_is_present pte then wr32 m (GET_PAGE_TABLE pd_index + 4 * pt_index) 0
         else Some m
       }
     }"

text \<open>The loops over a region may wrap around the address space and then never end.\<close>

partial_function (option) map_region_loop ::
    "u32 \<Rightarrow> u32 \<Rightarrow> u32 \<Rightarrow> u32 \<Rightarrow> vm \<Rightarrow> vm option" where
  "map_region_loop virt phys virt_end flags m =
     (if virt < virt_end then
        Option.bind (vmm_map_page virt phys flags m)
          (map_region_loop (virt + PAGE_SIZE) (phys + PAGE_SIZE) virt_end flags)
      else Some m)"

definition vmm_map_region :: "u32 \<Rightarrow> u32 \<Rightarrow> u32 \<Rightarrow> u32 \<Rightarrow> vm \<Rightarrow> vm option" where
  "vmm_map_region virt_start phys_start bytes flags m =
     map_region_loop virt_start phys_start (virt_start + bytes) flags m"

partial_function (option) unmap_region_loop :: "u32 \<Rightarrow> u32 \<Rightarrow> vm \<Rightarrow> vm option" where
  "unmap_region_loop virt virt_end m =
     (if virt < virt_end then
        Option.bind (vmm_unmap_page virt m) (unmap_region_loop (virt + PAGE_SIZE) virt_end)
      else Some m)"

definition vmm_unmap_region :: "u32 \<Rightarrow> u32 \<Rightarrow> vm \<Rightarrow> vm option" where
  "vmm_unmap_region virt_start bytes m = unmap_region_loop virt_start (virt_start + bytes) m"

definition vmm_virt_to_phys :: "u32 \<Rightarrow> vm \<Rightarrow> u32 option" where
  "vmm_virt_to_phys virt m =
     do {
       let pd_index = PD_INDEX virt;
       let pt_index = PT_INDEX virt;
       let offset = PAGE_OFFSET virt;
       pde \<leftarrow> rd32 m (GET_PAGE_DIRECTORY + 4 * pd_index);
       if \<not> pte_is_present pde then Some 0
       else do {
         pte \<leftarrow> rd32 m (GET_PAGE_TABLE pd_index + 4 * pt_index);
         if \<not> pte_is_present pte then Some 0 else Some (pte_get_addr pte + offset)
       }
     }"

definition vmm_is_mapped :: "u32 \<Rightarrow> vm \<Rightarrow> bool option" where
  "vmm_is_mapped virt m = map_option (\<lambda>a. a \<noteq> 0) (vmm_virt_to_phys virt m)"

definition vmm_get_page_flags :: "u32 \<Rightarrow> vm \<Rightarrow> u32 option" where
  "vmm_get_page_flags virt m =
     do {
       let pd_index = PD_INDEX virt;
       let pt_index = PT_INDEX virt;
       pde \<leftarrow> rd32 m (GET_PAGE_DIRECTORY + 4 * pd_index);
       if \<not> pte_is_present pde then Some 0
       else do {
         pte \<leftarrow> rd32 m (GET_PAGE_TABLE pd_index + 4 * pt_index);
         Some (pte AND 0xFFF)
       }
     }"

definition vmm_set_page_flags :: "u32 \<Rightarrow> u32 \<Rightarrow> vm \<Rightarrow> vm option" where
  "vmm_set_page_flags virt flags m =
     do {
       let pd_index = PD_INDEX virt;
       let pt_index = PT_INDEX virt;
       pde \<leftarrow> rd32 m (GET_PAGE_DIRECTORY + 4 * pd_index);
       if \<not> pte_is_present pde then Some m
       else do {
         pte \<leftarrow> rd32 m (GET_PAGE_TABLE pd_index + 4 * pt_index);
         if pte_is_present pte then
           wr32 m (GET_PAGE_TABLE pd_index + 4 * pt_index) (pte_create (pte_get_addr pte) flags)
         else Some m
       }
     }"

section \<open>The page tables of the boot loader\<close>

definition PAGE_DIRECTORY_ADDR :: u32 where "PAGE_DIRECTORY_ADDR = 0x9000"
definition PAGE_TABLE_0_ADDR :: u32 where "PAGE_TABLE_0_ADDR = 0xA000"
definition PAGE_TABLE_768_ADDR :: u32 where "PAGE_TABLE_768_ADDR = 0xB000"

text \<open>
  The tables that stage 2 of the loader leaves.  \<^verbatim>\<open>vmm_init\<close> expects these, at their fixed addresses; in the
  kernel as it is nothing calls it.
\<close>

text \<open>\<^verbatim>\<open>rep stosd\<close> with \<open>eax\<close> zero, and the fill loops that add 4096 to \<open>eax\<close> after each store.\<close>

fun stosd_run :: "nat \<Rightarrow> u32 \<Rightarrow> u32 \<Rightarrow> u32 \<Rightarrow> (u32 \<Rightarrow> u32) \<Rightarrow> u32 \<Rightarrow> u32" where
  "stosd_run 0 edi eax step mem = mem"
| "stosd_run (Suc ecx) edi eax step mem =
     stosd_run ecx (edi + 4) (eax + step) step (mem(edi := eax))"

definition boot_pages :: "vm \<Rightarrow> vm" where
  "boot_pages m =
     (let mem = stosd_run 1024 PAGE_DIRECTORY_ADDR 0 0 (ram m);
          mem = stosd_run 1024 PAGE_TABLE_0_ADDR 0 0 mem;
          mem = stosd_run 1024 PAGE_TABLE_768_ADDR 0 0 mem;
          mem = stosd_run 1024 PAGE_TABLE_0_ADDR 3 0x1000 mem;
          mem = stosd_run 1024 PAGE_TABLE_768_ADDR 3 0x1000 mem;
          mem = mem(PAGE_DIRECTORY_ADDR := PAGE_TABLE_0_ADDR OR 3);
          mem = mem(PAGE_DIRECTORY_ADDR + 768 * 4 := PAGE_TABLE_768_ADDR OR 3)
      in m\<lparr>ram := mem, cr3 := PAGE_DIRECTORY_ADDR\<rparr>)"

text \<open>
  The kernel's own entry point \<^verbatim>\<open>kernel/arch/i386/entry.asm\<close> builds its tables in their place: one page
  table at 0xA000 serves both mappings of the first four megabytes.
\<close>

definition entry_pages :: "vm \<Rightarrow> vm" where
  "entry_pages m =
     (let mem = stosd_run 1024 0x9000 0 0 (ram m);
          mem = stosd_run 1024 0xA000 0 0 mem;
          mem = mem(0x9000 := 0xA003);
          mem = mem(0x9000 + 768 * 4 := 0xA003);
          mem = stosd_run 1024 0xA000 3 0x1000 mem
      in m\<lparr>ram := mem, cr3 := 0x9000\<rparr>)"

section \<open>Address arithmetic\<close>

lemma and_numeral_page_mask: "unat ((a :: u32) AND 0xFFFFF000) = unat a div 4096 * 4096"
  using unat_and_PAGE_MASK [of a] by (simp add: PAGE_MASK_def)

lemma unat_and_low: "unat ((a :: u32) AND 0xFFF) = unat a mod 4096"
proof -
  have m: "(0xFFF :: u32) = mask 12"
    by (simp add: mask_eq_exp_minus_1)
  have "unat (a AND 0xFFF) = take_bit 12 (unat a)"
    unfolding m by (simp add: take_bit_eq_mask [symmetric] unsigned_take_bit_eq)
  then show ?thesis
    by (simp add: take_bit_eq_mod)
qed

lemma unat_PD_INDEX: "unat (PD_INDEX v) = unat v div 4194304"
  by (simp add: PD_INDEX_def drop_bit_eq_div unat_div)

lemma unat_PT_INDEX: "unat (PT_INDEX v) = unat v div 4096 mod 1024"
proof -
  have m: "(0x3FF :: u32) = mask 10"
    by (simp add: mask_eq_exp_minus_1)
  have "unat (PT_INDEX v) = take_bit 10 (unat (v div 4096))"
    unfolding PT_INDEX_def m
    by (simp add: take_bit_eq_mask [symmetric] unsigned_take_bit_eq drop_bit_eq_div)
  then show ?thesis
    by (simp add: take_bit_eq_mod unat_div)
qed

lemma unat_PAGE_OFFSET: "unat (PAGE_OFFSET v) = unat v mod 4096"
  by (simp add: PAGE_OFFSET_def unat_and_low)

lemmas index_nat = unat_PD_INDEX unat_PT_INDEX unat_PAGE_OFFSET

lemma index_less [simp]: "PD_INDEX v < 1024" "PT_INDEX v < 1024"
  using unat32_bound [of v] by (simp_all add: word_less_nat_alt index_nat)

lemma same_page: "PD_INDEX v = PD_INDEX w \<and> PT_INDEX v = PT_INDEX w \<longleftrightarrow> unat v div 4096 = unat w div 4096"
proof -
  have "unat x div 4194304 = unat x div 4096 div 1024" for x :: u32
    by (simp add: div_mult2_eq [symmetric])
  then show ?thesis
    unfolding unat_inj index_nat by (metis div_mult_mod_eq)
qed

text \<open>Slot \<open>i\<close> of a table that starts at a page boundary.\<close>

definition page_base :: "u32 \<Rightarrow> bool" where
  "page_base b \<longleftrightarrow> b AND 0xFFFFF000 = b"

lemma page_base_nat: "page_base b \<longleftrightarrow> 4096 dvd unat b"
proof
  assume "page_base b"
  then have "unat b = unat b div 4096 * 4096"
    using and_numeral_page_mask [of b] by (simp add: page_base_def)
  then show "4096 dvd unat b"
    by (metis dvd_triv_right)
next
  assume "4096 dvd unat b"
  then show "page_base b"
    by (simp add: page_base_def unat_inj and_numeral_page_mask)
qed

lemma page_base_mask [simp]: "page_base (a AND 0xFFFFF000)"
  by (simp add: page_base_nat and_numeral_page_mask)

lemma page_base_get_addr [simp]: "page_base (pde_get_addr e)" "page_base (pte_get_addr e)"
  by (simp_all add: pde_get_addr_def pte_get_addr_def)

lemma unat_slot:
  assumes "page_base b" "i < 1024"
  shows "unat (b + 4 * i) = unat b + 4 * unat i"
proof -
  have i: "unat i < 1024"
    using assms(2) by (simp add: word_less_nat_alt)
  have "unat b \<le> 4294963200"
    using assms(1) unat32_bound [of b] by (auto simp: page_base_nat elim!: dvdE)
  moreover have "unat (4 * i) = 4 * unat i"
    using i by (subst unat_mult_bounded) auto
  ultimately show ?thesis
    using i by (subst unat_add_bounded) auto
qed

lemma slot_eq:
  assumes "page_base b" "page_base c" "i < 1024" "j < 1024"
  shows "b + 4 * i = c + 4 * j \<longleftrightarrow> b = c \<and> i = j"
proof
  assume e: "b + 4 * i = c + 4 * j"
  have ij: "unat i < 1024" "unat j < 1024"
    using assms(3,4) by (simp_all add: word_less_nat_alt)
  obtain k l where kl: "unat b = 4096 * k" "unat c = 4096 * l"
    using assms(1,2) by (auto simp: page_base_nat elim!: dvdE)
  have s: "4096 * k + 4 * unat i = 4096 * l + 4 * unat j"
    using e assms by (metis unat_slot kl)
  have "(4096 * k + 4 * unat i) div 4096 = k" "(4096 * l + 4 * unat j) div 4096 = l"
    using ij by (intro div_nat_eqI; simp)+
  with s have "k = l"
    by simp
  moreover from this s have "unat i = unat j"
    by simp
  ultimately show "b = c \<and> i = j"
    using kl by (simp add: unat_inj)
qed simp

lemma slot_page:
  assumes "page_base b" "i < 1024"
  shows "unat (b + 4 * i) div 4096 = unat b div 4096"
  using assms unat_slot [OF assms] by (auto simp: page_base_nat word_less_nat_alt elim!: dvdE)

lemma unat_page_table_slot:
  assumes "i < 1024" "j < 1024"
  shows "unat (GET_PAGE_TABLE i + 4 * j) = 4290772992 + 4096 * unat i + 4 * unat j"
proof -
  have i: "unat i < 1024"
    using assms(1) by (simp add: word_less_nat_alt)
  then have "unat (i * 0x1000) = 4096 * unat i"
    by (subst unat_mult_bounded) auto
  with i have "unat (GET_PAGE_TABLE i) = 4290772992 + 4096 * unat i"
    unfolding GET_PAGE_TABLE_def by (subst unat_add_bounded) auto
  moreover from this have "page_base (GET_PAGE_TABLE i)"
    by (simp add: page_base_nat)
  ultimately show ?thesis
    using unat_slot [OF _ assms(2)] by simp
qed

lemma page_table_slot:
  assumes "i < 1024" "j < 1024"
  shows "PD_INDEX (GET_PAGE_TABLE i + 4 * j) = 1023" "PT_INDEX (GET_PAGE_TABLE i + 4 * j) = i"
    "PAGE_OFFSET (GET_PAGE_TABLE i + 4 * j) = 4 * j"
proof -
  have ij: "unat i < 1024" "unat j < 1024"
    using assms by (simp_all add: word_less_nat_alt)
  have j4: "unat (4 * j) = 4 * unat j"
    using ij by (subst unat_mult_bounded) auto
  have d: "(4290772992 + 4096 * unat i + 4 * unat j) div 4096 = 1047552 + unat i"
    using ij by (intro div_nat_eqI) simp_all
  have m: "(4290772992 + 4096 * unat i + 4 * unat j) mod 4096 = 4 * unat j"
    unfolding minus_div_mult_eq_mod [symmetric] d by simp
  have e: "(4290772992 + 4096 * unat i + 4 * unat j) div 4194304 = 1023"
    using ij by (intro div_nat_eqI) simp_all
  show "PD_INDEX (GET_PAGE_TABLE i + 4 * j) = 1023"
    by (simp add: unat_inj unat_PD_INDEX unat_page_table_slot assms e)
  show "PAGE_OFFSET (GET_PAGE_TABLE i + 4 * j) = 4 * j"
    by (simp add: unat_inj unat_PAGE_OFFSET unat_page_table_slot assms m j4)
  have "(unat i + 1023 * 1024) mod 1024 = unat i"
    using ij by (simp only: mod_mult_self1 mod_less)
  then have "(1047552 + unat i) mod 1024 = unat i"
    by (simp add: add.commute)
  then show "PT_INDEX (GET_PAGE_TABLE i + 4 * j) = i"
    by (simp add: unat_inj unat_PT_INDEX unat_page_table_slot assms d)
qed

lemma GET_PAGE_DIRECTORY_table: "GET_PAGE_DIRECTORY = GET_PAGE_TABLE 1023"
  by (simp add: GET_PAGE_DIRECTORY_def GET_PAGE_TABLE_def)

text \<open>Page table entries: the address and the flags do not overlap.\<close>

lemma entry_addr [simp]:
  "pde_get_addr (pde_create p f) = p AND 0xFFFFF000" "pte_get_addr (pte_create p f) = p AND 0xFFFFF000"
proof -
  have "((p AND 0xFFFFF000) OR (f AND 0xFFF)) AND 0xFFFFF000 = p AND (0xFFFFF000 :: u32)"
    by (simp add: and.commute and.left_commute and.assoc bit.conj_disj_distrib2 bit.conj_disj_distrib)
  then show "pde_get_addr (pde_create p f) = p AND 0xFFFFF000"
    "pte_get_addr (pte_create p f) = p AND 0xFFFFF000"
    by (simp_all add: pde_get_addr_def pte_get_addr_def pde_create_def pte_create_def)
qed

lemma present_bit: "pte_is_present e \<longleftrightarrow> bit e 0"
  using and_push_bit_1 [of e 0] by (simp add: pte_is_present_def PAGE_PRESENT_def)

lemma entry_present [simp]:
  "pte_is_present (pde_create p f) \<longleftrightarrow> bit f 0" "pte_is_present (pte_create p f) \<longleftrightarrow> bit f 0"
  by (simp_all add: present_bit pde_create_def pte_create_def bit_simps)

section \<open>The recursive mapping\<close>

definition pd_entry :: "vm \<Rightarrow> u32 \<Rightarrow> u32" where
  "pd_entry m i = ram m (cr3 m + 4 * i)"

text \<open>The physical address of the page table entry of a virtual address.\<close>

definition pte_slot :: "vm \<Rightarrow> u32 \<Rightarrow> u32" where
  "pte_slot m v = pde_get_addr (pd_entry m (PD_INDEX v)) + 4 * PT_INDEX v"

definition recursive :: "vm \<Rightarrow> bool" where
  "recursive m \<longleftrightarrow> page_base (cr3 m) \<and> pte_is_present (pd_entry m 1023) \<and>
     pde_get_addr (pd_entry m 1023) = cr3 m"

lemma walk_eq:
  "page_base (cr3 m) \<Longrightarrow> mmu_walk m v =
     (if pte_is_present (pd_entry m (PD_INDEX v)) \<and> pte_is_present (ram m (pte_slot m v))
      then Some (pte_get_addr (ram m (pte_slot m v)) + PAGE_OFFSET v) else None)"
  by (simp add: mmu_walk_def pd_entry_def pte_slot_def page_base_def Let_def)

lemma walk_table:
  assumes "recursive m" "i < 1024" "j < 1024"
  shows "mmu_walk m (GET_PAGE_TABLE i + 4 * j) =
    (if pte_is_present (pd_entry m i) then Some (pde_get_addr (pd_entry m i) + 4 * j) else None)"
  using assms
  by (simp add: walk_eq pte_slot_def recursive_def page_table_slot)
     (simp add: pd_entry_def pte_get_addr_def pde_get_addr_def)

lemma walk_directory:
  assumes "recursive m" "i < 1024"
  shows "mmu_walk m (GET_PAGE_DIRECTORY + 4 * i) = Some (cr3 m + 4 * i)"
  using walk_table [OF assms(1) _ assms(2), of 1023] assms(1)
  by (simp add: GET_PAGE_DIRECTORY_table recursive_def)

lemma rd32_directory: "recursive m \<Longrightarrow> i < 1024 \<Longrightarrow> rd32 m (GET_PAGE_DIRECTORY + 4 * i) = Some (pd_entry m i)"
  by (simp add: rd32_def walk_directory pd_entry_def)

lemma rd32_table:
  "recursive m \<Longrightarrow> pte_is_present (pd_entry m (PD_INDEX v)) \<Longrightarrow>
   rd32 m (GET_PAGE_TABLE (PD_INDEX v) + 4 * PT_INDEX v) = Some (ram m (pte_slot m v))"
  by (simp add: rd32_def walk_table pte_slot_def)

lemma wr32_table:
  "recursive m \<Longrightarrow> pte_is_present (pd_entry m (PD_INDEX v)) \<Longrightarrow>
   wr32 m (GET_PAGE_TABLE (PD_INDEX v) + 4 * PT_INDEX v) x = Some (m\<lparr>ram := (ram m)(pte_slot m v := x)\<rparr>)"
  by (simp add: wr32_def walk_table pte_slot_def)

lemma pd_entry_upd:
  "page_base (cr3 m) \<Longrightarrow> page_base b \<Longrightarrow> i < 1024 \<Longrightarrow> j < 1024 \<Longrightarrow>
   pd_entry (m\<lparr>ram := (ram m)(b + 4 * j := x)\<rparr>) i =
   (if b = cr3 m \<and> j = i then x else pd_entry m i)"
  using slot_eq [of "cr3 m" b i j] by (auto simp: pd_entry_def)

text \<open>Clearing part of a page table that is not the page directory itself.\<close>

lemma of_nat_slot_less: "k < 1024 \<Longrightarrow> (of_nat k :: u32) < 1024"
  by (simp add: word_less_nat_alt unat_of_nat)

definition slots :: "u32 \<Rightarrow> nat \<Rightarrow> nat \<Rightarrow> u32 set" where
  "slots b j n = (\<lambda>k. b + 4 * of_nat k) ` {j..<j + n}"

lemma slots_Suc: "slots b j (Suc n) = insert (b + 4 * of_nat j) (slots b (Suc j) n)"
proof -
  have "{j..<j + Suc n} = insert j {Suc j..<Suc j + n}"
    by auto
  then show ?thesis
    by (simp add: slots_def)
qed

lemma zero_words_at:
  assumes "i < 1024" "pde_get_addr (pd_entry m i) = b" "b \<noteq> cr3 m"
    "recursive m" "pte_is_present (pd_entry m i)" "j + n \<le> 1024"
  shows "zero_words n (GET_PAGE_TABLE i + 4 * of_nat j) m =
    Some (m\<lparr>ram := (\<lambda>a. if a \<in> slots b j n then 0 else ram m a)\<rparr>)"
  using assms(2-)
proof (induction n arbitrary: j m)
  case (Suc n)
  have j: "(of_nat j :: u32) < 1024"
    using Suc.prems(5) by (intro of_nat_slot_less) simp
  have pb: "page_base b" "page_base (cr3 m)"
    using Suc.prems by (auto simp: recursive_def)
  define m' where "m' = m\<lparr>ram := (ram m)(b + 4 * of_nat j := 0)\<rparr>"
  have w: "wr32 m (GET_PAGE_TABLE i + 4 * of_nat j) 0 = Some m'"
    using Suc.prems assms(1) j by (simp add: wr32_def walk_table m'_def)
  have pd: "pd_entry m' k = pd_entry m k" if "k < 1024" for k
    unfolding m'_def using pd_entry_upd [OF pb(2,1) that j] Suc.prems(2) by simp
  have c: "cr3 m' = cr3 m"
    by (simp add: m'_def)
  have next_j: "GET_PAGE_TABLE i + 4 * of_nat j + 4 = GET_PAGE_TABLE i + 4 * of_nat (Suc j)"
    by (simp add: algebra_simps)
  have z: "zero_words n (GET_PAGE_TABLE i + 4 * of_nat (Suc j)) m' =
    Some (m'\<lparr>ram := (\<lambda>a. if a \<in> slots b (Suc j) n then 0 else ram m' a)\<rparr>)"
    by (rule Suc.IH) (use Suc.prems assms(1) in \<open>simp_all add: pd c recursive_def\<close>)
  have "(\<lambda>a. if a \<in> slots b (Suc j) n then 0 else ram m' a) =
    (\<lambda>a. if a \<in> slots b j (Suc n) then 0 else ram m a)"
    by (auto simp: m'_def slots_Suc fun_eq_iff)
  with z show ?case
    by (simp add: w next_j) (simp add: m'_def)
qed (simp add: slots_def)

definition cleared :: "u32 \<Rightarrow> (u32 \<Rightarrow> u32) \<Rightarrow> u32 \<Rightarrow> u32" where
  "cleared b mem a = (if a \<in> slots b 0 1024 then 0 else mem a)"

lemma slots_page: "a \<in> slots b 0 1024 \<longleftrightarrow> (\<exists>k<1024. a = b + 4 * k)"
proof
  assume "a \<in> slots b 0 1024"
  then obtain k where "k < 1024" "a = b + 4 * of_nat k"
    by (auto simp: slots_def)
  then show "\<exists>k<1024. a = b + 4 * k"
    using of_nat_slot_less by blast
next
  assume "\<exists>k<1024. a = b + 4 * k"
  then obtain k where "k < 1024" "a = b + 4 * k" by blast
  then have "unat k < 1024" "a = b + 4 * of_nat (unat k)"
    by (simp_all add: word_less_nat_alt)
  then show "a \<in> slots b 0 1024"
    unfolding slots_def by (intro image_eqI [of _ _ "unat k"]) auto
qed

lemma cleared_slot:
  assumes "page_base b" "page_base c" "k < 1024"
  shows "cleared b mem (c + 4 * k) = (if c = b then 0 else mem (c + 4 * k))"
  using slot_eq [OF assms(2,1,3)] assms(3) by (auto simp: cleared_def slots_page)

lemma zero_words_page:
  assumes "i < 1024" "pde_get_addr (pd_entry m i) = b" "b \<noteq> cr3 m"
    "recursive m" "pte_is_present (pd_entry m i)"
  shows "zero_words 1024 (GET_PAGE_TABLE i) m = Some (m\<lparr>ram := cleared b (ram m)\<rparr>)"
  using zero_words_at [OF assms, of 0 1024] by (simp add: cleared_def [abs_def])

section \<open>The invariant\<close>

definition present_tables :: "vm \<Rightarrow> u32 set" where
  "present_tables m = {i. i < 1024 \<and> pte_is_present (pd_entry m i)}"

definition vm_inv :: "vm \<Rightarrow> bool" where
  "vm_inv m \<longleftrightarrow> recursive m \<and> zero_reserved (vm_pmm m) \<and>
     (\<forall>i\<in>present_tables m. unat (pde_get_addr (pd_entry m i)) div 4096 \<in> used_set (vm_pmm m)) \<and>
     inj_on (\<lambda>i. pde_get_addr (pd_entry m i)) (present_tables m)"

lemma vm_invD:
  assumes "vm_inv m"
  shows "recursive m" "zero_reserved (vm_pmm m)" "page_base (cr3 m)"
    "pte_is_present (pd_entry m 1023)" "pde_get_addr (pd_entry m 1023) = cr3 m"
    "1023 \<in> present_tables m"
  using assms by (auto simp: vm_inv_def recursive_def present_tables_def)

lemma vm_inv_used: "vm_inv m \<Longrightarrow> i \<in> present_tables m \<Longrightarrow>
    unat (pde_get_addr (pd_entry m i)) div 4096 \<in> used_set (vm_pmm m)"
  by (simp add: vm_inv_def)

lemma vm_inv_inj: "vm_inv m \<Longrightarrow> i \<in> present_tables m \<Longrightarrow> j \<in> present_tables m \<Longrightarrow>
    pde_get_addr (pd_entry m i) = pde_get_addr (pd_entry m j) \<longleftrightarrow> i = j"
  by (auto simp: vm_inv_def inj_on_def)

lemma table_not_directory: "vm_inv m \<Longrightarrow> i \<in> present_tables m \<Longrightarrow> i \<noteq> 1023 \<Longrightarrow>
    pde_get_addr (pd_entry m i) \<noteq> cr3 m"
  using vm_inv_inj [of m i 1023] by (simp add: vm_invD)

lemma fresh_not_table:
  "vm_inv m \<Longrightarrow> unat t div 4096 \<notin> used_set (vm_pmm m) \<Longrightarrow> i \<in> present_tables m \<Longrightarrow>
   pde_get_addr (pd_entry m i) \<noteq> t"
  using vm_inv_used by blast

lemma fresh_not_directory:
  "vm_inv m \<Longrightarrow> unat t div 4096 \<notin> used_set (vm_pmm m) \<Longrightarrow> cr3 m \<noteq> t"
  using fresh_not_table [of m t 1023] by (simp add: vm_invD)

lemma present_tables_index:
  "pte_is_present (pd_entry m (PD_INDEX v)) \<Longrightarrow> PD_INDEX v \<in> present_tables m"
  by (simp add: present_tables_def)

text \<open>Physical memory after the two kinds of mapping.\<close>

definition set_pte :: "u32 \<Rightarrow> u32 \<Rightarrow> vm \<Rightarrow> vm" where
  "set_pte v e m = m\<lparr>ram := (ram m)(pte_slot m v := e)\<rparr>"

definition add_table :: "u32 \<Rightarrow> u32 \<Rightarrow> u32 \<Rightarrow> pmm \<Rightarrow> vm \<Rightarrow> vm" where
  "add_table i t e pm m =
     m\<lparr>vm_pmm := pm, ram := cleared t ((ram m)(cr3 m + 4 * i := e))\<rparr>"

lemma upd_fields [simp]:
  "cr3 (set_pte v e m) = cr3 m" "vm_pmm (set_pte v e m) = vm_pmm m"
  "cr3 (add_table i t e pm m) = cr3 m" "vm_pmm (add_table i t e pm m) = pm"
  by (simp_all add: set_pte_def add_table_def)

lemma pd_entry_set_pte [simp]:
  assumes "vm_inv m" "pte_is_present (pd_entry m (PD_INDEX v))" "PD_INDEX v \<noteq> 1023" "i < 1024"
  shows "pd_entry (set_pte v e m) i = pd_entry m i"
  using pd_entry_upd [OF vm_invD(3) [OF assms(1)] _ assms(4), of "pde_get_addr (pd_entry m (PD_INDEX v))"
      "PT_INDEX v" e] table_not_directory [OF assms(1) present_tables_index assms(3)] assms(2)
  by (simp add: set_pte_def pte_slot_def)

lemma pd_entry_add_table:
  assumes "page_base (cr3 m)" "page_base t" "cr3 m \<noteq> t" "i < 1024" "j < 1024"
  shows "pd_entry (add_table i t e pm m) j = (if j = i then e else pd_entry m j)"
  using cleared_slot [OF assms(2,1,5)] slot_eq [OF assms(1,1,4,5)] assms(3)
  by (auto simp: pd_entry_def add_table_def)

lemma ram_add_table:
  assumes "page_base b" "page_base (cr3 m)" "page_base t" "b \<noteq> cr3 m" "i < 1024" "j < 1024"
  shows "ram (add_table i t e pm m) (b + 4 * j) = (if b = t then 0 else ram m (b + 4 * j))"
  using cleared_slot [OF assms(3,1,6)] slot_eq [OF assms(1,2,6,5)] assms(4)
  by (auto simp: add_table_def)

lemma recursive_add_table:
  assumes "vm_inv m" "unat t div 4096 \<notin> used_set (vm_pmm m)" "page_base t" "i < 1023"
  shows "recursive (add_table i t e pm m)"
proof -
  have "i < 1024" "i \<noteq> 1023"
    using assms(4) by (auto simp: word_less_nat_alt)
  then show ?thesis
    using vm_invD [OF assms(1)] fresh_not_directory [OF assms(1,2)] assms(3)
    by (simp add: recursive_def pd_entry_add_table)
qed

lemma vm_inv_set_pte:
  assumes "vm_inv m" "pte_is_present (pd_entry m (PD_INDEX v))" "PD_INDEX v \<noteq> 1023"
  shows "vm_inv (set_pte v e m)"
proof -
  have "present_tables (set_pte v e m) = present_tables m"
    using assms by (auto simp: present_tables_def)
  moreover have "\<forall>i\<in>present_tables m. pd_entry (set_pte v e m) i = pd_entry m i"
    using assms by (auto simp: present_tables_def)
  moreover have "recursive (set_pte v e m)"
    using assms vm_invD(1) [OF assms(1)] by (simp add: recursive_def)
  ultimately show ?thesis
    using assms(1) by (simp add: vm_inv_def inj_on_def)
qed

lemma vm_inv_add_table:
  assumes inv: "vm_inv m" and i: "i < 1023" and no: "\<not> pte_is_present (pd_entry m i)"
    and a: "pmm_alloc_frame (vm_pmm m) = (pm, t)" "t \<noteq> 0"
    and e: "pte_is_present e" "pde_get_addr e = t"
  shows "vm_inv (add_table i t e pm m)"
proof -
  let ?m = "add_table i t e pm m"
  have i': "i < 1024" "i \<noteq> 1023"
    using i by (auto simp: word_less_nat_alt)
  note fr = pmm.alloc_frame [OF vm_invD(2) [OF inv] a]
  have t: "page_base t" "cr3 m \<noteq> t"
    using fr fresh_not_directory [OF inv] by (auto simp: page_base_nat)
  note pd = pd_entry_add_table [OF vm_invD(3) [OF inv] t i'(1)]
  have pt: "present_tables ?m = insert i (present_tables m)"
    using i' e(1) no by (auto simp: present_tables_def pd)
  have old: "pd_entry ?m j = pd_entry m j" if "j \<in> present_tables m" for j
    using that no i'(1) by (auto simp: present_tables_def pd)
  have new: "pd_entry ?m i = e"
    by (simp add: pd i')
  have "inj_on (\<lambda>j. pde_get_addr (pd_entry ?m j)) (present_tables m)"
    using inv by (simp add: vm_inv_def old inj_on_def)
  moreover have "t \<notin> (\<lambda>j. pde_get_addr (pd_entry ?m j)) ` present_tables m"
    using fresh_not_table [OF inv] fr by (auto simp: old)
  ultimately have "inj_on (\<lambda>j. pde_get_addr (pd_entry ?m j)) (insert i (present_tables m))"
    using e(2) new no by (simp add: inj_on_insert) (auto simp: image_def)
  then show ?thesis
    using inv fr recursive_add_table [OF inv _ t(1) i] pt old new e(2)
    by (auto simp: vm_inv_def)
qed

text \<open>A new empty page table changes no translation; setting an entry changes one page.\<close>

lemma walk_add_table:
  assumes inv: "vm_inv m" and i: "i < 1023" and no: "\<not> pte_is_present (pd_entry m i)"
    and t: "unat t div 4096 \<notin> used_set (vm_pmm m)" "page_base t" and e: "pde_get_addr e = t"
    and w: "PD_INDEX w \<noteq> 1023"
  shows "mmu_walk (add_table i t e pm m) w = mmu_walk m w"
proof -
  let ?m = "add_table i t e pm m"
  have i': "i < 1024"
    using i by (auto simp: word_less_nat_alt)
  have c: "cr3 m \<noteq> t" "page_base (cr3 m)"
    using fresh_not_directory [OF inv t(1)] vm_invD [OF inv] by auto
  note pd = pd_entry_add_table [OF c(2) t(2) c(1) i']
  show ?thesis
  proof (cases "PD_INDEX w = i")
    case True
    then have "ram ?m (pte_slot ?m w) = 0"
      using ram_add_table [of t m t i "PT_INDEX w"] c t(2) i' e by (simp add: pte_slot_def pd)
    then have "\<not> pte_is_present (ram ?m (pte_slot ?m w))"
      by (simp add: present_bit)
    then show ?thesis
      using True no c(2) by (simp add: walk_eq)
  next
    case False
    show ?thesis
    proof (cases "pte_is_present (pd_entry m (PD_INDEX w))")
      case True
      then have d: "pde_get_addr (pd_entry m (PD_INDEX w)) \<noteq> cr3 m"
        "pde_get_addr (pd_entry m (PD_INDEX w)) \<noteq> t"
        using table_not_directory [OF inv present_tables_index w]
          fresh_not_table [OF inv t(1) present_tables_index] by auto
      have "pte_slot ?m w = pte_slot m w"
        using False by (simp add: pte_slot_def pd)
      moreover have "ram ?m (pte_slot m w) = ram m (pte_slot m w)"
        using ram_add_table [OF page_base_get_addr(1) c(2) t(2) d(1) i' index_less(2)] d(2)
        by (simp add: pte_slot_def)
      ultimately show ?thesis
        using False c(2) by (simp add: walk_eq pd)
    qed (use False c(2) in \<open>simp add: walk_eq pd\<close>)
  qed
qed

lemma walk_set_pte:
  assumes inv: "vm_inv m" and v: "pte_is_present (pd_entry m (PD_INDEX v))" "PD_INDEX v \<noteq> 1023"
  shows "mmu_walk (set_pte v e m) w =
    (if unat w div 4096 = unat v div 4096
     then (if pte_is_present e then Some (pte_get_addr e + PAGE_OFFSET w) else None)
     else mmu_walk m w)"
proof -
  let ?m = "set_pte v e m"
  have pd: "pd_entry ?m (PD_INDEX w) = pd_entry m (PD_INDEX w)"
    using inv v by simp
  then have sl: "pte_slot ?m w = pte_slot m w"
    by (simp add: pte_slot_def)
  show ?thesis
  proof (cases "pte_is_present (pd_entry m (PD_INDEX w))")
    case True
    have "pte_slot m w = pte_slot m v \<longleftrightarrow> unat w div 4096 = unat v div 4096"
      using vm_inv_inj [OF inv present_tables_index [OF True] present_tables_index [OF v(1)]]
      by (simp add: pte_slot_def slot_eq same_page [symmetric])
    then show ?thesis
      using True v vm_invD(3) [OF inv] pd sl same_page [of w v]
      by (auto simp: walk_eq) (auto simp: set_pte_def)
  next
    case False
    then have "unat w div 4096 \<noteq> unat v div 4096"
      using v(1) same_page [of w v] by auto
    with False show ?thesis
      using vm_invD(3) [OF inv] pd by (simp add: walk_eq)
  qed
qed

section \<open>Mapping and unmapping a page\<close>

abbreviation kernel_pde :: "u32 \<Rightarrow> u32 \<Rightarrow> u32" where
  "kernel_pde t flags \<equiv> pde_create t (PAGE_PRESENT OR PAGE_WRITE OR flags)"

lemma present_flags [simp]: "bit (PAGE_PRESENT OR f) 0"
  by (simp add: PAGE_PRESENT_def bit_simps)

lemma PD_INDEX_below: "PD_INDEX v \<noteq> 1023 \<Longrightarrow> PD_INDEX v < 1023"
proof -
  assume "PD_INDEX v \<noteq> 1023"
  then have "unat (PD_INDEX v) \<noteq> 1023"
    by (simp add: unat_inj)
  moreover have "unat (PD_INDEX v) < 1024"
    using index_less(1) [of v] by (simp add: word_less_nat_alt)
  ultimately show ?thesis
    by (simp add: word_less_nat_alt)
qed

lemma map_page_cases [consumes 2]:
  assumes inv: "vm_inv m" and v: "PD_INDEX v \<noteq> 1023"
  obtains (hit) "pte_is_present (pd_entry m (PD_INDEX v))"
      "vmm_map_page v p f m = Some (set_pte v (pte_create p (PAGE_PRESENT OR f)) m)"
    | (fresh) pm t where "\<not> pte_is_present (pd_entry m (PD_INDEX v))"
      "pmm_alloc_frame (vm_pmm m) = (pm, t)" "t \<noteq> 0"
      "vmm_map_page v p f m =
         Some (set_pte v (pte_create p (PAGE_PRESENT OR f))
                 (add_table (PD_INDEX v) t (kernel_pde t f) pm m))"
    | (panic) "\<not> pte_is_present (pd_entry m (PD_INDEX v))" "frames_left (vm_pmm m) = 0"
      "vmm_map_page v p f m = None"
proof (cases "pte_is_present (pd_entry m (PD_INDEX v))")
  case True
  then show thesis
    using vm_invD(1) [OF inv]
    by (intro hit) (simp_all add: vmm_map_page_def rd32_directory wr32_table set_pte_def)
next
  case False
  obtain pm t where a: "pmm_alloc_frame (vm_pmm m) = (pm, t)" by force
  show thesis
  proof (cases "t = 0")
    case True
    then show thesis
      using False vm_invD [OF inv] a pmm.alloc_avail [OF vm_invD(2) [OF inv] a]
      by (intro panic) (simp_all add: vmm_map_page_def rd32_directory)
  next
    case t: False
    let ?e = "kernel_pde t f"
    note fr = pmm.alloc_frame [OF vm_invD(2) [OF inv] a t]
    have pb: "page_base t" "cr3 m \<noteq> t"
      using fr fresh_not_directory [OF inv] by (auto simp: page_base_nat)
    define m1 where "m1 = m\<lparr>vm_pmm := pm\<rparr>"
    define m2 where "m2 = m1\<lparr>ram := (ram m)(cr3 m + 4 * PD_INDEX v := ?e)\<rparr>"
    have pd1: "pd_entry m1 i = pd_entry m i" for i
      by (simp add: m1_def pd_entry_def)
    have c: "cr3 m1 = cr3 m" "cr3 m2 = cr3 m" "ram m1 = ram m"
      by (simp_all add: m1_def m2_def)
    have r1: "recursive m1"
      using vm_invD(1) [OF inv] by (simp add: recursive_def pd1 c)
    have w: "wr32 m1 (GET_PAGE_DIRECTORY + 4 * PD_INDEX v) ?e = Some m2"
      using r1 by (simp add: wr32_def walk_directory m2_def c)
    have pd2: "pd_entry m2 i = (if i = PD_INDEX v then ?e else pd_entry m i)" if "i < 1024" for i
      using pd_entry_upd [of m1 "cr3 m" i "PD_INDEX v" ?e] that vm_invD(3) [OF inv]
      by (auto simp: m2_def pd1 c)
    have r2: "recursive m2"
      using vm_invD(1) [OF inv] v by (simp add: recursive_def pd2 c)
    have "pde_get_addr (pd_entry m2 (PD_INDEX v)) = t"
      using pb(1) by (simp add: pd2 page_base_def)
    then have "zero_words 1024 (GET_PAGE_TABLE (PD_INDEX v)) m2 = Some (m2\<lparr>ram := cleared t (ram m2)\<rparr>)"
      using pb r2 by (intro zero_words_page) (simp_all add: pd2 c)
    moreover have "m2\<lparr>ram := cleared t (ram m2)\<rparr> = add_table (PD_INDEX v) t ?e pm m"
      by (simp add: m2_def m1_def add_table_def)
    ultimately have z: "zero_words 1024 (GET_PAGE_TABLE (PD_INDEX v)) m2 = Some (add_table (PD_INDEX v) t ?e pm m)"
      by simp
    have r3: "recursive (add_table (PD_INDEX v) t ?e pm m)"
      using recursive_add_table [OF inv _ pb(1) PD_INDEX_below [OF v]] fr by blast
    have "pte_is_present (pd_entry (add_table (PD_INDEX v) t ?e pm m) (PD_INDEX v))"
      using pb vm_invD(3) [OF inv] by (simp add: pd_entry_add_table)
    from wr32_table [OF r3 this] have
      "vmm_map_page v p f m =
         Some (set_pte v (pte_create p (PAGE_PRESENT OR f)) (add_table (PD_INDEX v) t ?e pm m))"
      using False vm_invD(1) [OF inv] a t w z
      by (simp add: vmm_map_page_def rd32_directory set_pte_def Let_def flip: m1_def)
    with False a t show thesis by (rule fresh)
  qed
qed

lemma map_page_fresh_facts:
  assumes inv: "vm_inv m" and v: "PD_INDEX v \<noteq> 1023" and no: "\<not> pte_is_present (pd_entry m (PD_INDEX v))"
    and a: "pmm_alloc_frame (vm_pmm m) = (pm, t)" "t \<noteq> 0"
  shows "vm_inv (add_table (PD_INDEX v) t (kernel_pde t f) pm m)"
    "i < 1024 \<Longrightarrow> pd_entry (add_table (PD_INDEX v) t (kernel_pde t f) pm m) i =
       (if i = PD_INDEX v then kernel_pde t f else pd_entry m i)"
    "PD_INDEX w \<noteq> 1023 \<Longrightarrow>
       mmu_walk (add_table (PD_INDEX v) t (kernel_pde t f) pm m) w = mmu_walk m w"
proof -
  note fr = pmm.alloc_frame [OF vm_invD(2) [OF inv] a]
  have pb: "page_base t"
    using fr by (auto simp: page_base_nat)
  then have t: "t AND 0xFFFFF000 = t"
    by (simp add: page_base_def)
  show "vm_inv (add_table (PD_INDEX v) t (kernel_pde t f) pm m)"
    using vm_inv_add_table [OF inv PD_INDEX_below [OF v] no a, of "kernel_pde t f"] by (simp add: t)
  show "i < 1024 \<Longrightarrow> pd_entry (add_table (PD_INDEX v) t (kernel_pde t f) pm m) i =
       (if i = PD_INDEX v then kernel_pde t f else pd_entry m i)"
    using pd_entry_add_table [OF vm_invD(3) [OF inv] pb] fresh_not_directory [OF inv] fr by simp
  show "PD_INDEX w \<noteq> 1023 \<Longrightarrow>
       mmu_walk (add_table (PD_INDEX v) t (kernel_pde t f) pm m) w = mmu_walk m w"
    using walk_add_table [OF inv PD_INDEX_below [OF v] no _ pb, of "kernel_pde t f"] fr
    by (simp add: t)
qed

text \<open>The frames that hold the page directory and its page tables.\<close>

definition table_frames :: "vm \<Rightarrow> nat set" where
  "table_frames m = (\<lambda>i. unat (pde_get_addr (pd_entry m i)) div 4096) ` present_tables m"

lemma table_frames_used: "vm_inv m \<Longrightarrow> table_frames m \<subseteq> used_set (vm_pmm m)"
  by (auto simp: table_frames_def vm_inv_def)

text \<open>The effect of \<^verbatim>\<open>vmm_map_page\<close> in one statement, for the callers that map several pages.\<close>

definition maps_page :: "u32 \<Rightarrow> u32 \<Rightarrow> vm \<Rightarrow> vm \<Rightarrow> bool" where
  "maps_page v p m m' \<longleftrightarrow> vm_inv m' \<and> cr3 m' = cr3 m \<and>
     used_set (vm_pmm m) \<subseteq> used_set (vm_pmm m') \<and>
     table_frames m' - table_frames m \<subseteq> used_set (vm_pmm m') - used_set (vm_pmm m) \<and>
     (\<forall>i<1024. pte_is_present (pd_entry m' i) \<longleftrightarrow> pte_is_present (pd_entry m i) \<or> i = PD_INDEX v) \<and>
     frames_left (vm_pmm m') =
       (if pte_is_present (pd_entry m (PD_INDEX v)) then frames_left (vm_pmm m)
        else frames_left (vm_pmm m) - 1) \<and>
     (\<forall>w. PD_INDEX w \<noteq> 1023 \<longrightarrow> mmu_walk m' w =
       (if unat w div 4096 = unat v div 4096 then Some ((p AND 0xFFFFF000) + PAGE_OFFSET w)
        else mmu_walk m w))"

lemma map_page_step:
  assumes inv: "vm_inv m" and v: "PD_INDEX v \<noteq> 1023"
  shows "case vmm_map_page v p f m of
      Some m' \<Rightarrow> maps_page v p m m'
    | None \<Rightarrow> \<not> pte_is_present (pd_entry m (PD_INDEX v)) \<and> frames_left (vm_pmm m) = 0"
  using inv v
proof (cases rule: map_page_cases [where p = p and f = f])
  case hit
  let ?m = "set_pte v (pte_create p (PAGE_PRESENT OR f)) m"
  have "table_frames ?m = table_frames m"
    using inv v hit(1) by (auto simp: table_frames_def present_tables_def intro: image_cong)
  then show ?thesis
    using inv v hit vm_inv_set_pte walk_set_pte by (auto simp: maps_page_def)
next
  case (fresh pm t)
  note new = map_page_fresh_facts [OF inv v fresh(1-3), where f = f]
  let ?m = "add_table (PD_INDEX v) t (kernel_pde t f) pm m"
  have p: "pte_is_present (pd_entry ?m (PD_INDEX v))"
    by (simp add: new(2))
  have t: "t AND 0xFFFFF000 = t" "unat t div 4096 \<in> used_set pm - used_set (vm_pmm m)"
    using pmm.alloc_frame [OF vm_invD(2) [OF inv] fresh(2,3)]
    by (auto simp flip: page_base_def simp: page_base_nat)
  have pd: "pd_entry (set_pte v e ?m) i = (if i = PD_INDEX v then kernel_pde t f else pd_entry m i)"
    if "i < 1024" for e i
    using that new p v by simp
  have "table_frames (set_pte v (pte_create p (PAGE_PRESENT OR f)) ?m) \<subseteq>
      insert (unat t div 4096) (table_frames m)"
    by (auto simp: table_frames_def present_tables_def pd t(1) split: if_splits)
  then have "table_frames (set_pte v (pte_create p (PAGE_PRESENT OR f)) ?m) - table_frames m \<subseteq>
      used_set pm - used_set (vm_pmm m)"
    using t(2) by blast
  then show ?thesis
    using fresh(4) vm_inv_set_pte [OF new(1) p v] walk_set_pte [OF new(1) p v] new p v fresh(1)
      pmm.alloc_avail [OF vm_invD(2) [OF inv] fresh(2)]
      pmm.alloc_used_mono [OF vm_invD(2) [OF inv] fresh(2)]
    by (auto simp: maps_page_def)
next
  case panic
  then show ?thesis by simp
qed

lemma unmap_page_step:
  assumes inv: "vm_inv m" and v: "PD_INDEX v \<noteq> 1023"
  obtains m' where "vmm_unmap_page v m = Some m'" "vm_inv m'" "cr3 m' = cr3 m" "vm_pmm m' = vm_pmm m"
    "\<And>w. mmu_walk m' w = (if unat w div 4096 = unat v div 4096 then None else mmu_walk m w)"
proof (cases "pte_is_present (pd_entry m (PD_INDEX v)) \<and> pte_is_present (ram m (pte_slot m v))")
  case True
  then have "vmm_unmap_page v m = Some (set_pte v 0 m)"
    using vm_invD(1) [OF inv]
    by (simp add: vmm_unmap_page_def rd32_directory rd32_table wr32_table set_pte_def Let_def)
  then show thesis
    using True inv v by (intro that [of "set_pte v 0 m"])
      (simp_all add: vm_inv_set_pte walk_set_pte present_bit)
next
  case False
  then have "vmm_unmap_page v m = Some m"
    using vm_invD(1) [OF inv]
    by (cases "pte_is_present (pd_entry m (PD_INDEX v))")
      (simp_all add: vmm_unmap_page_def rd32_directory rd32_table Let_def)
  moreover have "mmu_walk m w = None" if "unat w div 4096 = unat v div 4096" for w
    using that False vm_invD(3) [OF inv] same_page [of w v]
    by (simp add: walk_eq pte_slot_def)
  ultimately show thesis
    using inv by (intro that [of m]) simp_all
qed

text \<open>Taking a frame from the allocator leaves the page tables alone.\<close>

lemma pmm_upd [simp]:
  "pd_entry (m\<lparr>vm_pmm := pm\<rparr>) i = pd_entry m i" "mmu_walk (m\<lparr>vm_pmm := pm\<rparr>) v = mmu_walk m v"
  "present_tables (m\<lparr>vm_pmm := pm\<rparr>) = present_tables m" "table_frames (m\<lparr>vm_pmm := pm\<rparr>) = table_frames m"
  by (simp_all add: pd_entry_def mmu_walk_def present_tables_def table_frames_def Let_def)

lemma vm_inv_alloc:
  assumes "vm_inv m" "pmm_alloc_frame (vm_pmm m) = (pm, a)"
  shows "vm_inv (m\<lparr>vm_pmm := pm\<rparr>)"
  using assms pmm.alloc_inv [OF vm_invD(2) assms(2)] pmm.alloc_used_mono [OF vm_invD(2) assms(2)]
  by (auto simp: vm_inv_def recursive_def)

section \<open>Regions\<close>

text \<open>The page tables a region of \<open>n\<close> pages at \<open>v\<close> still needs.\<close>

definition missing_tables :: "vm \<Rightarrow> u32 \<Rightarrow> nat \<Rightarrow> u32 set" where
  "missing_tables m v n =
     {PD_INDEX w |w. unat v \<le> unat w \<and> unat w < unat v + 4096 * n \<and>
                     \<not> pte_is_present (pd_entry m (PD_INDEX w))}"

lemma finite_missing [simp]: "finite (missing_tables m v n)"
  by (rule finite_subset [of _ UNIV]) auto

definition in_region :: "u32 \<Rightarrow> nat \<Rightarrow> u32 \<Rightarrow> bool" where
  "in_region v n w \<longleftrightarrow> unat v \<le> unat w \<and> unat w < unat v + 4096 * n"

lemma below_window: "unat w < 4290772992 \<Longrightarrow> PD_INDEX w \<noteq> 1023"
  using less_mult_imp_div_less [of "unat w" 1023 4194304] by (auto simp: unat_inj unat_PD_INDEX)

lemma region_step:
  assumes "page_base v" "unat v + 4096 * Suc n \<le> 4290772992"
  shows "unat (v + PAGE_SIZE) = unat v + 4096" "page_base (v + PAGE_SIZE)"
    "in_region v (Suc n) w \<longleftrightarrow> unat w div 4096 = unat v div 4096 \<or> in_region (v + PAGE_SIZE) n w"
    "unat w div 4096 = unat v div 4096 \<Longrightarrow> \<not> in_region (v + PAGE_SIZE) n w"
    "unat w div 4096 = unat v div 4096 \<Longrightarrow> PAGE_OFFSET w = w - v"
proof -
  show s: "unat (v + PAGE_SIZE) = unat v + 4096"
    using assms(2) by (subst unat_add_bounded) auto
  then show "page_base (v + PAGE_SIZE)"
    using assms(1) by (simp add: page_base_nat)
  obtain k where k: "unat v = 4096 * k"
    using assms(1) by (auto simp: page_base_nat elim: dvdE)
  have d: "unat w div 4096 = k \<longleftrightarrow> 4096 * k \<le> unat w \<and> unat w < 4096 * k + 4096"
    by (rule div_eq_bounds) simp
  show "in_region v (Suc n) w \<longleftrightarrow> unat w div 4096 = unat v div 4096 \<or> in_region (v + PAGE_SIZE) n w"
    "unat w div 4096 = unat v div 4096 \<Longrightarrow> \<not> in_region (v + PAGE_SIZE) n w"
    using d by (auto simp: in_region_def s k)
  assume "unat w div 4096 = unat v div 4096"
  with d k have "4096 * k \<le> unat w" "unat w < 4096 * k + 4096"
    by simp_all
  then have "unat (w - v) = unat w - 4096 * k" "unat w mod 4096 = unat w - 4096 * k"
    using k \<open>unat w div 4096 = unat v div 4096\<close>
    by (simp_all add: unat_diff_le word_le_nat_alt modulo_nat_def)
  then show "PAGE_OFFSET w = w - v"
    by (simp add: unat_inj unat_PAGE_OFFSET)
qed

lemma page_base_add_page: "page_base p \<Longrightarrow> page_base (p + PAGE_SIZE)"
  by (simp add: page_base_nat unat_word_ariths dvd_mod)

lemma missing_step:
  assumes "maps_page v p m m'" "page_base v" "unat v + 4096 * Suc n \<le> 4290772992"
    "card (missing_tables m v (Suc n)) \<le> frames_left (vm_pmm m)"
  shows "card (missing_tables m' (v + PAGE_SIZE) n) \<le> frames_left (vm_pmm m')"
proof -
  let ?M = "missing_tables m v (Suc n)"
  have s: "unat (v + PAGE_SIZE) = unat v + 4096"
    by (rule region_step) (rule assms)+
  have sub: "missing_tables m' (v + PAGE_SIZE) n \<subseteq> ?M - {PD_INDEX v}"
    using assms(1) by (auto simp: missing_tables_def maps_page_def s)
  show ?thesis
  proof (cases "pte_is_present (pd_entry m (PD_INDEX v))")
    case True
    have "card (missing_tables m' (v + PAGE_SIZE) n) \<le> card ?M"
      using sub by (intro card_mono) auto
    with True assms(1,4) show ?thesis
      by (simp add: maps_page_def)
  next
    case False
    then have "PD_INDEX v \<in> ?M"
      by (auto simp: missing_tables_def)
    then have "card (?M - {PD_INDEX v}) = card ?M - 1"
      by simp
    moreover have "card (missing_tables m' (v + PAGE_SIZE) n) \<le> card (?M - {PD_INDEX v})"
      using sub by (intro card_mono) auto
    ultimately show ?thesis
      using False assms(1,4) by (simp add: maps_page_def)
  qed
qed

lemma map_region_loop_ok:
  assumes "vm_inv m" "page_base v" "page_base p" "unat v + 4096 * n \<le> 4290772992"
    "unat v_end \<le> unat v + 4096 * n" "\<forall>k<n. unat v + 4096 * k < unat v_end"
    "card (missing_tables m v n) \<le> frames_left (vm_pmm m)"
  shows "\<exists>m'. map_region_loop v p v_end f m = Some m' \<and> vm_inv m' \<and> cr3 m' = cr3 m \<and>
    (\<forall>w. PD_INDEX w \<noteq> 1023 \<longrightarrow>
       mmu_walk m' w = (if in_region v n w then Some (p + (w - v)) else mmu_walk m w))"
  using assms
proof (induction n arbitrary: v p m)
  case 0
  then show ?case
    by (subst map_region_loop.simps) (auto simp: word_less_nat_alt in_region_def)
next
  case (Suc n)
  note prems = Suc.prems
  note st = region_step [OF prems(2,4)]
  have v: "PD_INDEX v \<noteq> 1023"
    using prems(4) by (intro below_window) simp
  have lt: "v < v_end"
    using prems(6) [rule_format, of 0] by (simp add: word_less_nat_alt)
  have "PD_INDEX v \<in> missing_tables m v (Suc n)" if "\<not> pte_is_present (pd_entry m (PD_INDEX v))"
    using that by (auto simp: missing_tables_def)
  then have "frames_left (vm_pmm m) \<noteq> 0" if "\<not> pte_is_present (pd_entry m (PD_INDEX v))"
    using prems(7) that card_gt_0_iff [of "missing_tables m v (Suc n)"] by auto
  then obtain m1 where m1: "vmm_map_page v p f m = Some m1" "maps_page v p m m1"
    using map_page_step [OF prems(1) v, of p f] by (auto split: option.splits)
  have "\<exists>m'. map_region_loop (v + PAGE_SIZE) (p + PAGE_SIZE) v_end f m1 = Some m' \<and> vm_inv m' \<and>
    cr3 m' = cr3 m1 \<and> (\<forall>w. PD_INDEX w \<noteq> 1023 \<longrightarrow> mmu_walk m' w =
      (if in_region (v + PAGE_SIZE) n w then Some (p + PAGE_SIZE + (w - (v + PAGE_SIZE)))
       else mmu_walk m1 w))"
  proof (rule Suc.IH)
    show "vm_inv m1" "page_base (v + PAGE_SIZE)" "page_base (p + PAGE_SIZE)"
      using m1(2) st(2) page_base_add_page [OF prems(3)] by (auto simp: maps_page_def)
    show "card (missing_tables m1 (v + PAGE_SIZE) n) \<le> frames_left (vm_pmm m1)"
      by (rule missing_step) (rule m1 prems)+
    show "unat (v + PAGE_SIZE) + 4096 * n \<le> 4290772992" "unat v_end \<le> unat (v + PAGE_SIZE) + 4096 * n"
      using prems(4,5) by (simp_all add: st(1))
    show "\<forall>k<n. unat (v + PAGE_SIZE) + 4096 * k < unat v_end"
    proof (intro allI impI)
      fix k assume "k < n"
      then show "unat (v + PAGE_SIZE) + 4096 * k < unat v_end"
        using prems(6) [rule_format, of "Suc k"] by (simp add: st(1))
    qed
  qed
  then obtain m' where m': "map_region_loop (v + PAGE_SIZE) (p + PAGE_SIZE) v_end f m1 = Some m'"
    "vm_inv m'" "cr3 m' = cr3 m1" "\<And>w. PD_INDEX w \<noteq> 1023 \<Longrightarrow> mmu_walk m' w =
      (if in_region (v + PAGE_SIZE) n w then Some (p + (w - v)) else mmu_walk m1 w)"
    by auto
  have "mmu_walk m' w = (if in_region v (Suc n) w then Some (p + (w - v)) else mmu_walk m w)"
    if "PD_INDEX w \<noteq> 1023" for w
    using that m1(2) m'(4) [OF that] st(3-5) [of w] prems(3)
    by (auto simp: maps_page_def page_base_def)
  then show ?case
    using m' m1 lt by (subst map_region_loop.simps) (auto simp: maps_page_def)
qed

section \<open>From the boot loader to the first invariant\<close>

lemma stosd_run_slot:
  assumes "page_base b" "page_base c" "j + n \<le> 1024" "k < 1024"
  shows "stosd_run n (b + 4 * of_nat j) eax st mem (c + 4 * k) =
    (if c = b \<and> j \<le> unat k \<and> unat k < j + n then eax + st * (k - of_nat j) else mem (c + 4 * k))"
  using assms(3)
proof (induction n arbitrary: j eax mem)
  case (Suc n)
  have j: "(of_nat j :: u32) < 1024" "unat (of_nat j :: u32) = j"
    using Suc.prems by (auto simp: of_nat_slot_less unat_of_nat)
  have nx: "b + 4 * of_nat j + 4 = b + 4 * of_nat (Suc j)"
    by (simp add: algebra_simps)
  have eq: "c + 4 * k = b + 4 * of_nat j \<longleftrightarrow> c = b \<and> unat k = j"
    using slot_eq [OF assms(2,1,4) j(1)] j(2) by (auto simp: unat_inj)
  have k: "unat k = j \<Longrightarrow> k = of_nat j"
    by (simp add: unat_inj j(2))
  have "stosd_run (Suc n) (b + 4 * of_nat j) eax st mem (c + 4 * k) =
    (if c = b \<and> Suc j \<le> unat k \<and> unat k < Suc j + n then eax + st + st * (k - of_nat (Suc j))
     else (mem(b + 4 * of_nat j := eax)) (c + 4 * k))"
    unfolding stosd_run.simps nx by (rule Suc.IH) (use Suc.prems in simp)
  then show ?case
    using eq k by (auto simp: algebra_simps Suc_le_eq)
qed auto

lemma stosd_page:
  assumes "page_base b" "page_base c" "k < 1024"
  shows "stosd_run 1024 b eax st mem (c + 4 * k) = (if c = b then eax + st * k else mem (c + 4 * k))"
  using stosd_run_slot [OF assms(1,2) _ assms(3), of 0 1024 eax st mem] assms(3)
  by (simp add: word_less_nat_alt)

lemma boot_bases:
  "page_base PAGE_DIRECTORY_ADDR" "page_base PAGE_TABLE_0_ADDR" "page_base PAGE_TABLE_768_ADDR"
  by (simp_all add: page_base_def PAGE_DIRECTORY_ADDR_def PAGE_TABLE_0_ADDR_def PAGE_TABLE_768_ADDR_def)

lemma boot_bases_distinct:
  "PAGE_DIRECTORY_ADDR \<noteq> PAGE_TABLE_0_ADDR" "PAGE_DIRECTORY_ADDR \<noteq> PAGE_TABLE_768_ADDR"
  "PAGE_TABLE_0_ADDR \<noteq> PAGE_TABLE_768_ADDR"
  by (simp_all add: PAGE_DIRECTORY_ADDR_def PAGE_TABLE_0_ADDR_def PAGE_TABLE_768_ADDR_def)

lemma boot_slots:
  assumes "k < 1024"
  shows "ram (boot_pages m) (PAGE_DIRECTORY_ADDR + 4 * k) =
      (if k = 0 then 0xA003 else if k = 768 then 0xB003 else 0)"
    "ram (boot_pages m) (PAGE_TABLE_0_ADDR + 4 * k) = 3 + 0x1000 * k"
    "ram (boot_pages m) (PAGE_TABLE_768_ADDR + 4 * k) = 3 + 0x1000 * k"
proof -
  have d: "PAGE_DIRECTORY_ADDR + 4 * k = PAGE_DIRECTORY_ADDR \<longleftrightarrow> k = 0"
    "PAGE_DIRECTORY_ADDR + 4 * k = PAGE_DIRECTORY_ADDR + 768 * 4 \<longleftrightarrow> k = 768"
    "b + 4 * k \<noteq> PAGE_DIRECTORY_ADDR \<and> b + 4 * k \<noteq> PAGE_DIRECTORY_ADDR + 768 * 4"
    if "page_base b" "b \<noteq> PAGE_DIRECTORY_ADDR" for b
    using slot_eq [OF boot_bases(1,1) assms, of 0] slot_eq [OF boot_bases(1,1) assms, of 768]
      slot_eq [OF that(1) boot_bases(1) assms, of 0] slot_eq [OF that(1) boot_bases(1) assms, of 768] that(2)
    by simp_all
  note st = stosd_page [OF boot_bases(1) _ assms] stosd_page [OF boot_bases(2) _ assms]
    stosd_page [OF boot_bases(3) _ assms]
  have v: "PAGE_TABLE_0_ADDR OR 3 = 0xA003" "PAGE_TABLE_768_ADDR OR 3 = 0xB003"
    by (simp_all add: PAGE_TABLE_0_ADDR_def PAGE_TABLE_768_ADDR_def)
  show "ram (boot_pages m) (PAGE_DIRECTORY_ADDR + 4 * k) =
      (if k = 0 then 0xA003 else if k = 768 then 0xB003 else 0)"
    using d(1,2) [OF boot_bases(2)] boot_bases_distinct
    by (simp add: boot_pages_def Let_def st boot_bases v)
  show "ram (boot_pages m) (PAGE_TABLE_0_ADDR + 4 * k) = 3 + 0x1000 * k"
    "ram (boot_pages m) (PAGE_TABLE_768_ADDR + 4 * k) = 3 + 0x1000 * k"
    using d(3) [OF boot_bases(2)] d(3) [OF boot_bases(3)] boot_bases_distinct
    by (simp_all add: boot_pages_def Let_def st boot_bases)
qed

text \<open>The tables of the boot loader map the first four megabytes twice: at 0 and at 3 GB.\<close>

definition low_map :: "vm \<Rightarrow> bool" where
  "low_map m \<longleftrightarrow> cr3 m = PAGE_DIRECTORY_ADDR \<and> pd_entry m 0 = 0xA003 \<and> pd_entry m 768 = 0xB003 \<and>
     (\<forall>k<1024. ram m (PAGE_TABLE_0_ADDR + 4 * k) = 3 + 0x1000 * k) \<and>
     (\<forall>k<1024. ram m (PAGE_TABLE_768_ADDR + 4 * k) = 3 + 0x1000 * k)"

lemma low_entry:
  assumes "k < 1024"
  shows "pte_is_present (3 + 0x1000 * k)" "pte_get_addr (3 + 0x1000 * k) = 0x1000 * k"
proof -
  have k: "unat k < 1024"
    using assms by (simp add: word_less_nat_alt)
  then have m: "unat (0x1000 * k) = 4096 * unat k"
    by (subst unat_mult_bounded) auto
  with k have "unat (3 + 0x1000 * k) = 3 + 4096 * unat k"
    by (subst unat_add_bounded) auto
  moreover have "(3 + 4096 * unat k) div 4096 = unat k"
    by (simp add: div_eq_bounds)
  ultimately show "pte_get_addr (3 + 0x1000 * k) = 0x1000 * k"
    by (simp add: pte_get_addr_def unat_inj and_numeral_page_mask m)
  show "pte_is_present (3 + 0x1000 * k)"
    by (simp add: present_bit bit_0)
qed

lemma boot_entry: "pte_is_present 0xA003" "pte_is_present 0xB003"
  "pde_get_addr 0xA003 = PAGE_TABLE_0_ADDR" "pde_get_addr 0xB003 = PAGE_TABLE_768_ADDR"
  by (simp_all add: present_bit bit_0 pde_get_addr_def PAGE_TABLE_0_ADDR_def PAGE_TABLE_768_ADDR_def)

lemma low_address:
  assumes "unat v < 4194304"
  shows "PD_INDEX v = 0" "PD_INDEX (0xC0000000 + v) = 768" "PT_INDEX (0xC0000000 + v) = PT_INDEX v"
    "PAGE_OFFSET (0xC0000000 + v) = PAGE_OFFSET v" "0x1000 * PT_INDEX v + PAGE_OFFSET v = v"
proof -
  have u: "unat (0xC0000000 + v) = 3221225472 + unat v"
    using assms by (subst unat_add_bounded) auto
  have d: "(3221225472 + unat v) div 4096 = 786432 + unat v div 4096"
    "(3221225472 + unat v) mod 4096 = unat v mod 4096"
    using div_mult_self1 [of 4096 "unat v" 786432] mod_mult_self1 [of "unat v" 786432 4096]
    by (simp_all add: add.commute)
  have lt: "unat v div 4096 < 1024"
    using assms by (simp add: less_mult_imp_div_less)
  show "PD_INDEX v = 0"
    using assms by (simp add: unat_inj unat_PD_INDEX)
  show "PD_INDEX (0xC0000000 + v) = 768"
    using assms by (simp add: unat_inj unat_PD_INDEX u div_eq_bounds)
  have "(786432 + unat v div 4096) mod 1024 = unat v div 4096 mod 1024"
    using mod_mult_self1 [of "unat v div 4096" 768 1024] by (simp add: add.commute)
  then show "PT_INDEX (0xC0000000 + v) = PT_INDEX v"
    by (simp add: unat_inj unat_PT_INDEX u d)
  show "PAGE_OFFSET (0xC0000000 + v) = PAGE_OFFSET v"
    by (simp add: unat_inj unat_PAGE_OFFSET u d)
  have "unat (0x1000 * PT_INDEX v) = 4096 * (unat v div 4096)"
    using lt by (subst unat_mult_bounded) (auto simp: unat_PT_INDEX)
  then show "0x1000 * PT_INDEX v + PAGE_OFFSET v = v"
    using assms unfolding unat_inj
    by (subst unat_add_bounded) (auto simp: unat_PAGE_OFFSET intro: le_less_trans)
qed

lemma low_map_walk:
  assumes "low_map m" "unat v < 4194304"
  shows "mmu_walk m v = Some v" "mmu_walk m (0xC0000000 + v) = Some v"
proof -
  have pb: "page_base (cr3 m)"
    using assms(1) boot_bases by (simp add: low_map_def)
  note [simp] = low_address [OF assms(2)]
  have "pte_slot m v = PAGE_TABLE_0_ADDR + 4 * PT_INDEX v"
    "pte_slot m (0xC0000000 + v) = PAGE_TABLE_768_ADDR + 4 * PT_INDEX v"
    using assms(1) by (simp_all add: pte_slot_def low_map_def boot_entry)
  then show "mmu_walk m v = Some v" "mmu_walk m (0xC0000000 + v) = Some v"
    using assms(1) by (simp_all add: walk_eq [OF pb] low_map_def boot_entry low_entry)
qed

lemma low_map_boot: "low_map (boot_pages m)"
proof -
  have "cr3 (boot_pages m) = PAGE_DIRECTORY_ADDR"
    by (simp add: boot_pages_def Let_def)
  then show ?thesis
    by (simp add: low_map_def pd_entry_def boot_slots)
       (use boot_slots(1) [of 0 m] boot_slots(1) [of 768 m] in simp)
qed

lemma entry_slots:
  assumes "k < 1024"
  shows "ram (entry_pages m) (0x9000 + 4 * k) = (if k = 0 \<or> k = 768 then 0xA003 else 0)"
proof -
  have b: "page_base 0x9000" "page_base 0xA000"
    by (simp_all add: page_base_def)
  have d: "0x9000 + 4 * k = 0x9000 \<longleftrightarrow> k = 0" "0x9000 + 4 * k = 0xC000 - 0x2400 \<longleftrightarrow> k = 768"
    using slot_eq [OF b(1,1) assms, of 0] slot_eq [OF b(1,1) assms, of 768] by simp_all
  show ?thesis
    using d by (simp add: entry_pages_def Let_def stosd_page [OF b(1) b(1) assms] stosd_page [OF b(2) b(1) assms])
qed

text \<open>Without \<^verbatim>\<open>vmm_init\<close> there is no recursive entry: the first access through the window faults.\<close>

lemma entry_map_page_faults: "vmm_map_page v p f ((entry_pages m)\<lparr>vm_pmm := pm\<rparr>) = None"
proof -
  have c: "cr3 (entry_pages m) = 0x9000"
    by (simp add: entry_pages_def Let_def)
  have "PD_INDEX (GET_PAGE_DIRECTORY + 4 * PD_INDEX v) = 1023"
    by (simp add: GET_PAGE_DIRECTORY_table page_table_slot)
  then have "mmu_walk ((entry_pages m)\<lparr>vm_pmm := pm\<rparr>) (GET_PAGE_DIRECTORY + 4 * PD_INDEX v) = None"
    using entry_slots [of 1023 m] by (simp add: mmu_walk_def c present_bit)
  then show ?thesis
    by (simp add: vmm_map_page_def rd32_def)
qed

lemma boot_init_result:
  assumes "k \<le> 0x500000" "0x100000 \<le> k"
  shows "\<exists>m'. vmm_init k (boot_pages m) = Some m' \<and> low_map m' \<and> vm_pmm m' = vm_pmm m \<and>
    current_directory m' = PD_KERNEL \<and> recursive m' \<and> present_tables m' = {0, 768, 1023}"
proof -
  let ?b = "boot_pages m"
  let ?e = "pde_create PAGE_DIRECTORY_ADDR (PAGE_PRESENT OR PAGE_WRITE)"
  define m' where "m' = ?b\<lparr>ram := (ram ?b)(PAGE_DIRECTORY_ADDR + 4 * 1023 := ?e),
    kernel_directory := \<lparr>physical_addr = PAGE_DIRECTORY_ADDR, pd_entries = GET_PAGE_DIRECTORY\<rparr>,
    current_directory := PD_KERNEL\<rparr>"
  have c: "cr3 ?b = PAGE_DIRECTORY_ADDR" "vm_pmm ?b = vm_pmm m"
    by (simp_all add: boot_pages_def Let_def)
  let ?d = "\<lambda>m. m\<lparr>kernel_directory := (kernel_directory m)\<lparr>physical_addr := PAGE_DIRECTORY_ADDR\<rparr>\<rparr>"
  have w: "mmu_walk (?d ?b) v = mmu_walk ?b v" for v
    by (simp add: mmu_walk_def Let_def)
  have low: "mmu_walk ?b (PAGE_DIRECTORY_ADDR + 4 * i) = Some (PAGE_DIRECTORY_ADDR + 4 * i)" if "i < 1024" for i
  proof (rule low_map_walk(1) [OF low_map_boot])
    show "unat (PAGE_DIRECTORY_ADDR + 4 * i) < 4194304"
      using unat_slot [OF boot_bases(1) that] that by (simp add: PAGE_DIRECTORY_ADDR_def word_less_nat_alt)
  qed
  have size_ok: "\<not> (4 * 1024 * 1024 < k - KERNEL_PHYSICAL_BASE)"
    using assms by (simp add: KERNEL_PHYSICAL_BASE_def word_less_nat_alt word_le_nat_alt unat_diff_le)
  have init: "vmm_init k ?b = Some m'"
    using low [of 0] low [of 768] low [of 1023] size_ok
    by (simp add: vmm_init_def Let_def c rd32_def wr32_def w m'_def)
  have pd: "pd_entry m' i = (if i = 1023 then ?e else pd_entry ?b i)" if "i < 1024" for i
    using slot_eq [OF boot_bases(1,1) that, of 1023] by (simp add: m'_def pd_entry_def c)
  have tab: "ram m' (PAGE_TABLE_0_ADDR + 4 * i) = ram ?b (PAGE_TABLE_0_ADDR + 4 * i)"
    "ram m' (PAGE_TABLE_768_ADDR + 4 * i) = ram ?b (PAGE_TABLE_768_ADDR + 4 * i)" if "i < 1024" for i
    using slot_eq [OF boot_bases(2,1) that, of 1023] slot_eq [OF boot_bases(3,1) that, of 1023]
      boot_bases_distinct by (auto simp: m'_def)
  have c': "cr3 m' = PAGE_DIRECTORY_ADDR"
    by (simp add: m'_def c)
  have lm: "low_map m'"
    using low_map_boot [of m] by (simp add: low_map_def pd tab c')
  have e: "pte_is_present ?e" "pde_get_addr ?e = PAGE_DIRECTORY_ADDR"
    using boot_bases(1) by (simp_all add: page_base_def)
  have "recursive m'"
    using e boot_bases by (simp add: recursive_def pd c')
  moreover have "present_tables m' = {0, 768, 1023}"
  proof -
    have "pte_is_present (pd_entry m' i) \<longleftrightarrow> i = 0 \<or> i = 768 \<or> i = 1023" if "i < 1024" for i
      using that boot_slots(1) [OF that, of m] boot_entry e
      by (auto simp: pd) (auto simp: pd_entry_def c present_bit split: if_splits)
    then show ?thesis
      by (auto simp: present_tables_def)
  qed
  ultimately show ?thesis
    using init lm by (auto simp: m'_def c)
qed

lemma low_map_inv:
  assumes "low_map m" "recursive m" "present_tables m = {0, 768, 1023}" "zero_reserved (vm_pmm m)"
    "{9, 10, 11} \<subseteq> used_set (vm_pmm m)"
  shows "vm_inv m"
proof -
  have pd: "pde_get_addr (pd_entry m 0) = 0xA000" "pde_get_addr (pd_entry m 768) = 0xB000"
    "pde_get_addr (pd_entry m 1023) = 0x9000"
    using assms(1,2) boot_entry
    by (simp_all add: low_map_def recursive_def PAGE_DIRECTORY_ADDR_def PAGE_TABLE_0_ADDR_def
        PAGE_TABLE_768_ADDR_def)
  show ?thesis
    using assms(2-5) by (simp add: vm_inv_def pd inj_on_def)
qed

section \<open>Properties\<close>

text \<open>A machine with sixteen frames, the first twelve of them in use, after \<^verbatim>\<open>vmm_init\<close>.\<close>

definition demo_pmm16 :: pmm where
  "demo_pmm16 =
     \<lparr>pmm_bitmap = (\<lambda>i. if i = 0 then 0x0FFF else 0xFFFFFFFF), pmm_bitmap_addr = 0x2000,
      pmm_bitmap_size = 4096,
      stats = \<lparr>total_frames = 16, used_frames = 12, free_frames = 4, reserved_frames = 1,
               kernel_frames = 1\<rparr>,
      memory_size = 0x10000, kernel_start_phys = 0x1000, kernel_end_phys = 0x2000\<rparr>"

definition demo_vm :: vm where
  "demo_vm = the (vmm_init 0x200000 (boot_pages
     \<lparr>ram = (\<lambda>_. 0), cr3 = 0, vm_pmm = demo_pmm16,
      kernel_directory = \<lparr>physical_addr = 0, pd_entries = 0\<rparr>, current_directory = PD_NULL\<rparr>))"

lemma demo16_used: "used_set demo_pmm16 = {..<12}"
proof -
  have "unat (total_frames (stats demo_pmm16)) = 16"
    by (simp add: demo_pmm16_def)
  moreover have "[0..<16] = [0, 1, 2, 3, 4, 5, 6, 7, 8, 9, 10, 11, 12, 13, 14, 15::nat]"
    by (simp add: upt_rec)
  moreover have "{..<12::nat} = {0, 1, 2, 3, 4, 5, 6, 7, 8, 9, 10, 11}"
    by (auto simp: less_Suc_eq numeral_eq_Suc)
  ultimately show ?thesis
    by (simp add: used_set_code frame_used_def demo_pmm16_def bit_numeral_rec)
qed

lemma demo16_inv: "zero_reserved demo_pmm16" "frames_left demo_pmm16 = 4"
  by (simp_all add: pmm_inv_def zero_reserved_def demo16_used frames_left_def)
     (simp_all add: demo_pmm16_def)

lemma demo_vm_facts:
  "vm_inv demo_vm" "low_map demo_vm" "vm_pmm demo_vm = demo_pmm16" "present_tables demo_vm = {0, 768, 1023}"
proof -
  let ?m = "\<lparr>ram = (\<lambda>_. 0), cr3 = 0, vm_pmm = demo_pmm16,
      kernel_directory = \<lparr>physical_addr = 0, pd_entries = 0\<rparr>, current_directory = PD_NULL\<rparr>"
  have "0x200000 \<le> (0x500000 :: u32)" "0x100000 \<le> (0x200000 :: u32)"
    by simp_all
  from boot_init_result [OF this, of ?m]
  have *: "low_map demo_vm \<and> vm_pmm demo_vm = demo_pmm16 \<and> recursive demo_vm \<and>
      present_tables demo_vm = {0, 768, 1023}"
    unfolding demo_vm_def by force
  then show "low_map demo_vm" "vm_pmm demo_vm = demo_pmm16" "present_tables demo_vm = {0, 768, 1023}"
    by simp_all
  show "vm_inv demo_vm"
    using * demo16_inv(1) by (intro low_map_inv) (auto simp: demo16_used)
qed

text \<open>
  \<^bold>\<open>C1.\<close> \<^verbatim>\<open>vmm_map_page\<close> below the recursive window either panics, exactly when the page table is
  missing and no frame is left for it, or makes the processor translate every address of that page to
  the requested frame while the translation of every other page stays what it was.  The page table
  invariant is kept.
\<close>

theorem vmm_map_page_correct:
  assumes "vm_inv m" "PD_INDEX v \<noteq> 1023"
  shows "case vmm_map_page v p f m of
      None \<Rightarrow> \<not> pte_is_present (pd_entry m (PD_INDEX v)) \<and> frames_left (vm_pmm m) = 0
    | Some m' \<Rightarrow> vm_inv m' \<and>
        (\<forall>w. PD_INDEX w \<noteq> 1023 \<longrightarrow> mmu_walk m' w =
          (if unat w div 4096 = unat v div 4096 then Some ((p AND 0xFFFFF000) + PAGE_OFFSET w)
           else mmu_walk m w))"
  using map_page_step [OF assms, of p f] by (auto simp: maps_page_def split: option.splits)

theorem vmm_map_page_correct_witness:
  "\<exists>m'. vmm_map_page 0xD0000000 0x123000 3 demo_vm = Some m' \<and> vm_inv m' \<and>
     mmu_walk m' 0xD0000010 = Some 0x123010 \<and> mmu_walk m' 0x9000 = Some 0x9000"
proof -
  have i: "PD_INDEX 0xD0000000 \<noteq> 1023" "PD_INDEX 0xD0000010 \<noteq> 1023" "PD_INDEX 0x9000 \<noteq> 1023"
    "PAGE_OFFSET 0xD0000010 = 0x10"
    by (simp_all add: unat_inj unat_PD_INDEX PAGE_OFFSET_def)
  have "frames_left (vm_pmm demo_vm) \<noteq> 0"
    by (simp add: demo_vm_facts demo16_inv)
  then obtain m' where m': "vmm_map_page 0xD0000000 0x123000 3 demo_vm = Some m'"
    using vmm_map_page_correct [OF demo_vm_facts(1) i(1), of "0x123000" 3] by (auto split: option.splits)
  then have all: "vm_inv m'" "\<And>w. PD_INDEX w \<noteq> 1023 \<Longrightarrow> mmu_walk m' w =
      (if unat w div 4096 = unat (0xD0000000 :: u32) div 4096
       then Some ((0x123000 AND 0xFFFFF000) + PAGE_OFFSET w) else mmu_walk demo_vm w)"
    using vmm_map_page_correct [OF demo_vm_facts(1) i(1), of "0x123000" 3] by simp_all
  show ?thesis
    using m' all(1) all(2) [OF i(2)] all(2) [OF i(3)] i(4) low_map_walk(1) [OF demo_vm_facts(2), of "0x9000"]
    by simp
qed

text \<open>
  \<^bold>\<open>C11.\<close> \<^verbatim>\<open>vmm_unmap_page\<close> always succeeds below the recursive window: the page then faults, every
  other translation and the frame allocator are unchanged, and the page table invariant is kept.
\<close>

theorem vmm_unmap_page_correct:
  assumes "vm_inv m" "PD_INDEX v \<noteq> 1023"
  shows "\<exists>m'. vmm_unmap_page v m = Some m' \<and> vm_inv m' \<and> vm_pmm m' = vm_pmm m \<and>
    (\<forall>w. mmu_walk m' w = (if unat w div 4096 = unat v div 4096 then None else mmu_walk m w))"
  using unmap_page_step [OF assms] by metis

theorem vmm_unmap_page_correct_witness:
  "\<exists>m'. vmm_unmap_page 0x5008 demo_vm = Some m' \<and> mmu_walk demo_vm 0x5000 = Some 0x5000 \<and>
     mmu_walk m' 0x5000 = None \<and> mmu_walk m' 0x6000 = Some 0x6000"
proof -
  have i: "PD_INDEX 0x5008 \<noteq> 1023"
    by (simp add: unat_inj unat_PD_INDEX)
  show ?thesis
    using vmm_unmap_page_correct [OF demo_vm_facts(1) i] low_map_walk(1) [OF demo_vm_facts(2)]
    by auto
qed

text \<open>
  \<^bold>\<open>C12.\<close> The software walk \<^verbatim>\<open>vmm_virt_to_phys\<close>, which reads the tables through the recursive window,
  agrees with the processor's walk on every address, with 0 standing for a page fault.
\<close>

theorem vmm_virt_to_phys_agrees:
  assumes "vm_inv m"
  shows "vmm_virt_to_phys v m = Some (case mmu_walk m v of None \<Rightarrow> 0 | Some a \<Rightarrow> a)"
  using vm_invD [OF assms]
  by (simp add: vmm_virt_to_phys_def walk_eq rd32_directory rd32_table Let_def)

theorem vmm_virt_to_phys_agrees_witness:
  "vmm_virt_to_phys 0xC0001234 demo_vm = Some 0x1234"
  using vmm_virt_to_phys_agrees [OF demo_vm_facts(1), of "0xC0001234"]
    low_map_walk(2) [OF demo_vm_facts(2), of "0x1234"]
  by simp

text \<open>
  \<^verbatim>\<open>vmm_is_mapped\<close> tests the physical address for 0, so a page that is mapped to the first
  byte of physical memory, such as the first page of the kernel's direct map, is reported unmapped.
\<close>

theorem vmm_is_mapped_misses_frame_0:
  assumes "vm_inv m" "mmu_walk m v = Some 0"
  shows "vmm_is_mapped v m = Some False"
  using vm_invD [OF assms(1)] assms(2)
  by (simp add: vmm_is_mapped_def vmm_virt_to_phys_def walk_eq rd32_directory rd32_table Let_def
      split: if_splits)

theorem vmm_is_mapped_misses_frame_0_witness:
  "mmu_walk demo_vm 0xC0000000 = Some 0 \<and> vmm_is_mapped 0xC0000000 demo_vm = Some False"
  using vmm_is_mapped_misses_frame_0 [OF demo_vm_facts(1), of "0xC0000000"]
    low_map_walk(2) [OF demo_vm_facts(2), of 0]
  by simp

text \<open>
  \<^bold>\<open>C13.\<close> Mapping a page-aligned region below the recursive window terminates and translates every
  address of the region to the same distance from \<open>phys\<close>, and no other address, provided the frames
  left cover the page tables that the region still needs.
\<close>

theorem vmm_map_region_correct:
  assumes "vm_inv m" "page_base v" "page_base p" "unat v + 4096 * n \<le> 4290772992"
    "unat bytes = 4096 * n" "card (missing_tables m v n) \<le> frames_left (vm_pmm m)"
  shows "\<exists>m'. vmm_map_region v p bytes f m = Some m' \<and> vm_inv m' \<and>
    (\<forall>w. PD_INDEX w \<noteq> 1023 \<longrightarrow>
       mmu_walk m' w = (if in_region v n w then Some (p + (w - v)) else mmu_walk m w))"
proof -
  have e: "unat (v + bytes) = unat v + 4096 * n"
    using assms(4,5) by (subst unat_add_bounded) auto
  have "\<forall>k<n. unat v + 4096 * k < unat (v + bytes)" "unat (v + bytes) \<le> unat v + 4096 * n"
    by (simp_all add: e)
  then show ?thesis
    using map_region_loop_ok [OF assms(1-4) _ _ assms(6), of "v + bytes" f]
    unfolding vmm_map_region_def by blast
qed

theorem vmm_map_region_correct_witness:
  "\<exists>m'. vmm_map_region 0xD0000000 0x80000000 0x2000 3 demo_vm = Some m' \<and> vm_inv m' \<and>
     mmu_walk m' 0xD0001004 = Some 0x80001004"
proof -
  have "missing_tables demo_vm 0xD0000000 2 \<subseteq> {832}"
  proof -
    have "unat (PD_INDEX w) = 832" if "3489660928 \<le> unat w" "unat w < 3489669120" for w
      using that by (simp add: unat_PD_INDEX div_eq_bounds)
    then show ?thesis
      by (auto simp: missing_tables_def unat_inj)
  qed
  then have "card (missing_tables demo_vm 0xD0000000 2) \<le> card {832 :: u32}"
    by (intro card_mono) auto
  then have c: "card (missing_tables demo_vm 0xD0000000 2) \<le> frames_left (vm_pmm demo_vm)"
    by (simp add: demo_vm_facts demo16_inv)
  have b: "page_base 0xD0000000" "page_base 0x80000000" "PD_INDEX 0xD0001004 \<noteq> 1023"
    by (simp_all add: page_base_def unat_inj unat_PD_INDEX)
  show ?thesis
    using vmm_map_region_correct [OF demo_vm_facts(1) b(1,2) _ _ c, of "0x2000" 3] b(3)
    by (auto simp: in_region_def)
qed

end
