(* ===== verification/Kheap.thy ===== *)
theory Kheap
  imports Vmm
begin

text \<open>
  The kernel heap \<^verbatim>\<open>kernel/mm/kmalloc.c\<close>: a doubly linked list of blocks that tile the virtual range
  from \<open>heap_start\<close> to \<open>heap_end\<close>, first-fit allocation with splitting, release with coalescing, and
  growth by whole pages taken from the frame allocator and mapped by \<^verbatim>\<open>vmm_map_page\<close>.

  Block headers live in a typed heap \<open>hb\<close> from addresses to the C structure (20 bytes on this
  target) and the bytes of the allocated areas in \<open>payload\<close>.  The pointer structure is related to a
  list of blocks by \<open>heap_rel\<close>; the operations refine first-fit search, splitting and coalescing on
  that list.  \<open>kernel_allocator\<close> is the interface the rest of the kernel relies on.
\<close>

section \<open>Data\<close>

definition HEAP_MAGIC :: u32 where "HEAP_MAGIC = 0x12345678"
definition HEAP_MIN_SIZE :: u32 where "HEAP_MIN_SIZE = 16"
definition HEAP_MAX_SIZE :: u32 where "HEAP_MAX_SIZE = 1024 * 1024"

definition sizeof_heap_block :: u32 where "sizeof_heap_block = 20"

record heap_block =
  magic :: u32
  bsize :: u32
  allocated :: bool
  next_blk :: addr
  prev_blk :: addr

record kheap =
  kvm :: vm
  hb :: "addr \<Rightarrow> heap_block"
  payload :: "addr \<Rightarrow> u8"
  heap_start :: u32
  heap_end :: u32
  heap_max :: u32
  heap_first :: addr

definition ALIGN_UP :: "u32 \<Rightarrow> u32 \<Rightarrow> u32" where
  "ALIGN_UP a align = (a + align - 1) AND NOT (align - 1)"

definition upd_block :: "addr \<Rightarrow> (heap_block \<Rightarrow> heap_block) \<Rightarrow> kheap \<Rightarrow> kheap" where
  "upd_block a f h = h\<lparr>hb := (hb h)(a := f (hb h a))\<rparr>"

section \<open>Growing the heap\<close>

text \<open>
  The loop that backs the new range with frames: \<open>n\<close> pages from page \<open>i\<close> on.  The Boolean tells
  whether every frame could be taken; a missing page table frame panics.
\<close>

fun expand_pages :: "nat \<Rightarrow> u32 \<Rightarrow> u32 \<Rightarrow> vm \<Rightarrow> (vm \<times> bool) option" where
  "expand_pages 0 i base m = Some (m, True)"
| "expand_pages (Suc n) i base m =
     (case pmm_alloc_frame (vm_pmm m) of
        (pm, phys) \<Rightarrow>
          if phys = 0 then Some (m\<lparr>vm_pmm := pm\<rparr>, False)
          else do {
            m \<leftarrow> vmm_map_page (base + i * PAGE_SIZE) phys PAGE_FLAGS_KERNEL (m\<lparr>vm_pmm := pm\<rparr>);
            expand_pages n (i + 1) base m
          })"

partial_function (option) find_last :: "(addr \<Rightarrow> heap_block) \<Rightarrow> addr \<Rightarrow> addr option" where
  "find_last mem blk =
     (if next_blk (mem blk) \<noteq> NULL then find_last mem (next_blk (mem blk)) else Some blk)"

text \<open>Adding the new block at the end of the list.\<close>

definition append_block :: "addr \<Rightarrow> kheap \<Rightarrow> kheap option" where
  "append_block block h =
     (if heap_first h = NULL then Some (h\<lparr>heap_first := block\<rparr>)
      else do {
        lst \<leftarrow> find_last (hb h) (heap_first h);
        let h = upd_block lst (\<lambda>b. b\<lparr>next_blk := block\<rparr>) h;
        Some (upd_block block (\<lambda>b. b\<lparr>prev_blk := lst\<rparr>) h)
      })"

definition expand_heap :: "u32 \<Rightarrow> kheap \<Rightarrow> (kheap \<times> addr) option" where
  "expand_heap bytes h =
     (let bytes = ALIGN_UP (bytes + sizeof_heap_block) PAGE_SIZE in
      if heap_end h + bytes > heap_max h then Some (h, NULL)
      else do {
        (m, ok) \<leftarrow> expand_pages (unat (bytes div PAGE_SIZE)) 0 (heap_end h) (kvm h);
        let h = h\<lparr>kvm := m\<rparr>;
        if \<not> ok then Some (h, NULL)
        else do {
          let block = heap_end h;
          let h = upd_block block (\<lambda>_. \<lparr>magic = HEAP_MAGIC, bsize = bytes, allocated = False,
                                        next_blk = NULL, prev_blk = NULL\<rparr>) h;
          h \<leftarrow> append_block block h;
          Some (h\<lparr>heap_end := heap_end h + bytes\<rparr>, block)
        }
      })"

section \<open>Splitting and merging\<close>

definition split_block :: "addr \<Rightarrow> u32 \<Rightarrow> kheap \<Rightarrow> kheap" where
  "split_block block bytes h =
     (if bsize (hb h block) < bytes + sizeof_heap_block + HEAP_MIN_SIZE then h
      else let new_block = block + bytes;
               h = upd_block new_block (\<lambda>_. \<lparr>magic = HEAP_MAGIC, bsize = bsize (hb h block) - bytes,
                     allocated = False, next_blk = next_blk (hb h block), prev_blk = block\<rparr>) h;
               h = (if next_blk (hb h block) \<noteq> NULL
                    then upd_block (next_blk (hb h block)) (\<lambda>b. b\<lparr>prev_blk := new_block\<rparr>) h else h);
               h = upd_block block (\<lambda>b. b\<lparr>next_blk := new_block\<rparr>) h
           in upd_block block (\<lambda>b. b\<lparr>bsize := bytes\<rparr>) h)"

text \<open>The forward loop of \<^verbatim>\<open>merge_blocks\<close>; it stops at a block whose magic number is damaged.\<close>

partial_function (option) merge_forward :: "addr \<Rightarrow> kheap \<Rightarrow> kheap option" where
  "merge_forward block h =
     (let nxt = next_blk (hb h block) in
      if nxt \<noteq> NULL \<and> \<not> allocated (hb h nxt) then
        if magic (hb h nxt) \<noteq> HEAP_MAGIC then Some h
        else let h = upd_block block (\<lambda>b. b\<lparr>bsize := bsize b + bsize (hb h nxt)\<rparr>) h;
                 h = upd_block block (\<lambda>b. b\<lparr>next_blk := next_blk (hb h nxt)\<rparr>) h;
                 h = (if next_blk (hb h nxt) \<noteq> NULL
                      then upd_block (next_blk (hb h nxt)) (\<lambda>b. b\<lparr>prev_blk := block\<rparr>) h else h)
             in merge_forward block h
      else Some h)"

partial_function (option) merge_blocks :: "addr \<Rightarrow> kheap \<Rightarrow> kheap option" where
  "merge_blocks block h =
     (if block = NULL \<or> allocated (hb h block) then Some h
      else Option.bind (merge_forward block h)
        (\<lambda>h. if prev_blk (hb h block) \<noteq> NULL \<and> \<not> allocated (hb h (prev_blk (hb h block)))
             then merge_blocks (prev_blk (hb h block)) h else Some h))"

section \<open>The public operations\<close>

definition kmalloc_init :: "u32 \<Rightarrow> u32 \<Rightarrow> kheap \<Rightarrow> kheap option" where
  "kmalloc_init start bytes h =
     map_option fst (expand_heap (PAGE_SIZE * 16)
       (h\<lparr>heap_start := start, heap_end := start, heap_max := start + bytes, heap_first := NULL\<rparr>))"

text \<open>The first-fit search: the inner option is \<open>None\<close> when the list ends without a fit.\<close>

partial_function (option) find_fit :: "(addr \<Rightarrow> heap_block) \<Rightarrow> u32 \<Rightarrow> addr \<Rightarrow> addr option option" where
  "find_fit mem bytes block =
     (if block = NULL then Some None
      else if \<not> allocated (mem block) \<and> bsize (mem block) \<ge> bytes then Some (Some block)
      else find_fit mem bytes (next_blk (mem block)))"

definition kmalloc :: "u32 \<Rightarrow> kheap \<Rightarrow> (kheap \<times> addr) option" where
  "kmalloc bytes h =
     (if bytes = 0 then Some (h, NULL)
      else let bytes = ALIGN_UP bytes 8 + sizeof_heap_block in
      if bytes > HEAP_MAX_SIZE then Some (h, NULL)
      else do {
        fit \<leftarrow> find_fit (hb h) bytes (heap_first h);
        (case fit of
           Some block \<Rightarrow>
             Some (split_block block bytes (upd_block block (\<lambda>b. b\<lparr>allocated := True\<rparr>) h),
                   block + sizeof_heap_block)
         | None \<Rightarrow> do {
             (h, block) \<leftarrow> expand_heap bytes h;
             if block \<noteq> NULL
             then Some (upd_block block (\<lambda>b. b\<lparr>allocated := True\<rparr>) h, block + sizeof_heap_block)
             else Some (h, NULL)
           })
      })"

fun fill_bytes :: "nat \<Rightarrow> addr \<Rightarrow> u8 \<Rightarrow> (addr \<Rightarrow> u8) \<Rightarrow> addr \<Rightarrow> u8" where
  "fill_bytes 0 p c mem = mem"
| "fill_bytes (Suc n) p c mem = fill_bytes n (p + 1) c (mem(p := c))"

fun copy_bytes :: "nat \<Rightarrow> addr \<Rightarrow> addr \<Rightarrow> (addr \<Rightarrow> u8) \<Rightarrow> addr \<Rightarrow> u8" where
  "copy_bytes 0 d s mem = mem"
| "copy_bytes (Suc n) d s mem = copy_bytes n (d + 1) (s + 1) (mem(d := mem s))"

definition kzalloc :: "u32 \<Rightarrow> kheap \<Rightarrow> (kheap \<times> addr) option" where
  "kzalloc bytes h =
     do {
       (h, ptr) \<leftarrow> kmalloc bytes h;
       Some (if ptr \<noteq> NULL then h\<lparr>payload := fill_bytes (unat bytes) ptr 0 (payload h)\<rparr> else h, ptr)
     }"

definition kmalloc_aligned :: "u32 \<Rightarrow> u32 \<Rightarrow> kheap \<Rightarrow> (kheap \<times> addr) option" where
  "kmalloc_aligned bytes align h =
     (if align = 0 \<or> align AND (align - 1) \<noteq> 0 then Some (h, NULL)
      else do {
        (h, ptr) \<leftarrow> kmalloc (bytes + align + sizeof_heap_block) h;
        if ptr = NULL then Some (h, NULL) else Some (h, ALIGN_UP ptr align)
      })"

definition kfree :: "addr \<Rightarrow> kheap \<Rightarrow> kheap option" where
  "kfree ptr h =
     (if ptr = NULL then Some h
      else let block = ptr - sizeof_heap_block in
      if magic (hb h block) \<noteq> HEAP_MAGIC then Some h
      else if \<not> allocated (hb h block) then Some h
      else merge_blocks block (upd_block block (\<lambda>b. b\<lparr>allocated := False\<rparr>) h))"

definition kmalloc_get_size :: "addr \<Rightarrow> kheap \<Rightarrow> u32" where
  "kmalloc_get_size ptr h =
     (if ptr = NULL then 0
      else let block = ptr - sizeof_heap_block in
      if magic (hb h block) \<noteq> HEAP_MAGIC then 0 else bsize (hb h block) - sizeof_heap_block)"

definition krealloc :: "addr \<Rightarrow> u32 \<Rightarrow> kheap \<Rightarrow> (kheap \<times> addr) option" where
  "krealloc ptr new_size h =
     (if ptr = NULL then kmalloc new_size h
      else if new_size = 0 then map_option (\<lambda>h. (h, NULL)) (kfree ptr h)
      else let old_size = kmalloc_get_size ptr h in
      if new_size \<le> old_size then Some (h, ptr)
      else do {
        (h, new_ptr) \<leftarrow> kmalloc new_size h;
        if new_ptr = NULL then Some (h, NULL)
        else do {
          let h = h\<lparr>payload := copy_bytes (unat old_size) new_ptr ptr (payload h)\<rparr>;
          h \<leftarrow> kfree ptr h;
          Some (h, new_ptr)
        }
      })"

record heap_stats =
  total_size :: u32
  used_size :: u32
  free_size :: u32
  num_blocks :: u32
  num_free_blocks :: u32

partial_function (option) stats_loop ::
    "(addr \<Rightarrow> heap_block) \<Rightarrow> addr \<Rightarrow> heap_stats \<Rightarrow> heap_stats option" where
  "stats_loop mem block st =
     (if block = NULL then Some st
      else let st = st\<lparr>num_blocks := num_blocks st + 1\<rparr>;
               st = (if allocated (mem block)
                     then st\<lparr>used_size := used_size st + bsize (mem block)\<rparr>
                     else st\<lparr>free_size := free_size st + bsize (mem block),
                             num_free_blocks := num_free_blocks st + 1\<rparr>)
           in stats_loop mem (next_blk (mem block)) st)"

definition kmalloc_get_stats :: "kheap \<Rightarrow> heap_stats option" where
  "kmalloc_get_stats h =
     stats_loop (hb h) (heap_first h)
       \<lparr>total_size = heap_end h - heap_start h, used_size = 0, free_size = 0, num_blocks = 0,
        num_free_blocks = 0\<rparr>"

text \<open>
  The integrity check gives up after more than 10000 blocks; \<open>count\<close> is the C counter.
\<close>

function verify_loop :: "(addr \<Rightarrow> heap_block) \<Rightarrow> addr \<Rightarrow> nat \<Rightarrow> bool" where
  "verify_loop mem block count =
     (if block = NULL then True
      else if magic (mem block) \<noteq> HEAP_MAGIC then False
      else if bsize (mem block) < sizeof_heap_block then False
      else if next_blk (mem block) \<noteq> NULL \<and> prev_blk (mem (next_blk (mem block))) \<noteq> block then False
      else if Suc count > 10000 then False
      else verify_loop mem (next_blk (mem block)) (Suc count))"
  by pat_completeness auto
termination
  by (relation "measure (\<lambda>(_, _, count). 10001 - count)") auto

definition kmalloc_verify_heap :: "kheap \<Rightarrow> bool" where
  "kmalloc_verify_heap h = verify_loop (hb h) (heap_first h) 0"

declare verify_loop.simps [simp del]

section \<open>The list of blocks\<close>

type_synonym blk = "u32 \<times> u32 \<times> bool"

fun first_addr :: "blk list \<Rightarrow> addr \<Rightarrow> addr" where
  "first_addr [] d = d"
| "first_addr ((a, s, al) # bs) d = a"

fun last_addr :: "addr \<Rightarrow> blk list \<Rightarrow> addr" where
  "last_addr d [] = d"
| "last_addr d ((a, s, al) # bs) = last_addr a bs"

text \<open>
  \<open>rep mem p bs n\<close>: the headers in memory are those of the blocks \<open>bs\<close>, the first of which has \<open>p\<close>
  as its predecessor and the last of which has \<open>n\<close> as its successor.
\<close>

fun rep :: "(addr \<Rightarrow> heap_block) \<Rightarrow> addr \<Rightarrow> blk list \<Rightarrow> addr \<Rightarrow> bool" where
  "rep mem p [] n \<longleftrightarrow> True"
| "rep mem p ((a, s, al) # bs) n \<longleftrightarrow>
     mem a = \<lparr>magic = HEAP_MAGIC, bsize = s, allocated = al, next_blk = first_addr bs n, prev_blk = p\<rparr> \<and>
     rep mem a bs n"

text \<open>The blocks tile the addresses from \<open>lo\<close> to \<open>hi\<close>.\<close>

fun tiles :: "nat \<Rightarrow> nat \<Rightarrow> blk list \<Rightarrow> bool" where
  "tiles lo hi [] \<longleftrightarrow> lo = hi"
| "tiles lo hi ((a, s, al) # bs) \<longleftrightarrow> unat a = lo \<and> 20 \<le> unat s \<and> tiles (lo + unat s) hi bs"

text \<open>No two neighbours are both free.\<close>

fun coalesced :: "blk list \<Rightarrow> bool" where
  "coalesced ((a, s, al) # (b, t, bl) # bs) \<longleftrightarrow> (al \<or> bl) \<and> coalesced ((b, t, bl) # bs)"
| "coalesced _ \<longleftrightarrow> True"

abbreviation addrs :: "blk list \<Rightarrow> addr set" where
  "addrs bs \<equiv> fst ` set bs"

lemma blk_list_cases [case_names Nil Cons]:
  obtains "bs = []" | a s al bs' where "bs = (a, s, al) # bs'"
  by (cases bs) auto

lemma first_addr_append [simp]: "first_addr (xs @ ys) n = first_addr xs (first_addr ys n)"
  by (cases xs rule: blk_list_cases) auto

lemma last_addr_append [simp]: "last_addr p (xs @ ys) = last_addr (last_addr p xs) ys"
  by (induction p xs rule: last_addr.induct) auto

lemma rep_append [simp]:
  "rep mem p (xs @ ys) n \<longleftrightarrow> rep mem p xs (first_addr ys n) \<and> rep mem (last_addr p xs) ys n"
  by (induction mem p xs n rule: rep.induct) auto

lemma rep_upd [simp]: "a \<notin> addrs bs \<Longrightarrow> rep (mem(a := b)) p bs n = rep mem p bs n"
  by (induction mem p bs n rule: rep.induct) auto

lemma first_addr_in: "bs \<noteq> [] \<Longrightarrow> first_addr bs n \<in> addrs bs"
  by (cases bs rule: blk_list_cases) auto

lemma first_addr_0: "0 \<notin> addrs bs \<Longrightarrow> first_addr bs 0 = 0 \<longleftrightarrow> bs = []"
  by (cases bs rule: blk_list_cases) auto

lemma first_addr_nonempty: "bs \<noteq> [] \<Longrightarrow> first_addr bs n = first_addr bs m"
  by (cases bs rule: blk_list_cases) auto

lemma last_addr_in: "last_addr p bs \<in> insert p (addrs bs)"
  by (induction p bs rule: last_addr.induct) auto

text \<open>Changing the predecessor of the first block, or the successor of the last one.\<close>

lemma rep_relink_prev:
  "rep mem p bs n \<Longrightarrow> distinct (map fst bs) \<Longrightarrow> bs \<noteq> [] \<Longrightarrow> f = first_addr bs n \<Longrightarrow>
   rep (mem(f := (mem f)\<lparr>prev_blk := q\<rparr>)) q bs n"
  by (cases bs rule: blk_list_cases) (auto simp: image_iff)

lemma rep_relink_next:
  "rep mem p bs m \<Longrightarrow> distinct (map fst bs) \<Longrightarrow> bs \<noteq> [] \<Longrightarrow> l = last_addr p bs \<Longrightarrow>
   rep (mem(l := (mem l)\<lparr>next_blk := n\<rparr>)) p bs n"
proof (induction mem p bs m rule: rep.induct)
  case (2 mem p a s al bs m)
  show ?case
  proof (cases bs)
    case Nil
    with 2 show ?thesis by simp
  next
    case (Cons c cs)
    then have "last_addr a bs \<in> addrs bs"
      by (cases c) (use last_addr_in [of "fst c" cs] in auto)
    then have "l \<noteq> a"
      using 2(3,5) by (auto simp: image_iff)
    with 2 Cons show ?thesis
      by (cases c) auto
  qed
qed simp

lemma tiles_append: "tiles lo hi (xs @ ys) \<longleftrightarrow> (\<exists>mid. tiles lo mid xs \<and> tiles mid hi ys)"
  by (induction lo hi xs rule: tiles.induct) auto

lemma tiles_le: "tiles lo hi bs \<Longrightarrow> lo \<le> hi"
  by (induction lo hi bs rule: tiles.induct) auto

lemma tiles_range: "tiles lo hi bs \<Longrightarrow> (a, s, al) \<in> set bs \<Longrightarrow> lo \<le> unat a \<and> unat a + unat s \<le> hi \<and> 20 \<le> unat s"
  by (induction lo hi bs rule: tiles.induct) (auto dest: tiles_le)

lemma tiles_addrs: "tiles lo hi bs \<Longrightarrow> a \<in> addrs bs \<Longrightarrow> lo \<le> unat a \<and> unat a + 20 \<le> hi"
  using tiles_range by fastforce

lemma tiles_distinct: "tiles lo hi bs \<Longrightarrow> distinct (map fst bs)"
proof (induction lo hi bs rule: tiles.induct)
  case (2 lo hi a s al bs)
  then have "a \<notin> addrs bs"
    using tiles_addrs [of "lo + unat s" hi bs a] by auto
  with 2 show ?case by auto
qed simp

lemma tiles_nonzero: "tiles lo hi bs \<Longrightarrow> 0 < lo \<Longrightarrow> 0 \<notin> addrs bs"
  using tiles_addrs [of lo hi bs 0] by auto

lemma tiles_nonempty_first: "tiles lo hi bs \<Longrightarrow> 0 < lo \<Longrightarrow> first_addr bs 0 = 0 \<longleftrightarrow> bs = []"
  by (cases bs rule: blk_list_cases) (auto simp: unat_inj)

lemma coalesced_append:
  "coalesced (xs @ ys) \<longleftrightarrow> coalesced xs \<and> coalesced ys \<and>
     (xs \<noteq> [] \<and> ys \<noteq> [] \<longrightarrow> snd (snd (last xs)) \<or> snd (snd (hd ys)))"
proof (induction xs rule: coalesced.induct [case_names two none one])
  case (one v)
  then show ?case
    by (cases v; cases ys rule: blk_list_cases) auto
qed auto

lemma find_fit_rep:
  "rep mem p bs 0 \<Longrightarrow> 0 \<notin> addrs bs \<Longrightarrow>
   find_fit mem n (first_addr bs 0) = Some (map_option fst (find (\<lambda>(a, s, al). \<not> al \<and> n \<le> s) bs))"
proof (induction bs arbitrary: p)
  case Nil
  then show ?case
    by (subst find_fit.simps) simp
next
  case (Cons b bs)
  then show ?case
    by (cases b) (subst find_fit.simps, auto)
qed

lemma find_last_rep:
  "rep mem p bs 0 \<Longrightarrow> 0 \<notin> addrs bs \<Longrightarrow> bs \<noteq> [] \<Longrightarrow>
   find_last mem (first_addr bs 0) = Some (last_addr p bs)"
proof (induction bs arbitrary: p)
  case (Cons b bs)
  obtain a s al where b: "b = (a, s, al)" by (cases b)
  show ?case
  proof (cases bs rule: blk_list_cases)
    case Nil
    with Cons.prems b show ?thesis
      by (subst find_last.simps) simp
  next
    case (Cons c t cl cs)
    then have "find_last mem (first_addr bs 0) = Some (last_addr a bs)"
      using Cons.IH [of a] Cons.prems b by simp
    with Cons Cons.prems b show ?thesis
      by (subst find_last.simps) simp
  qed
qed simp

section \<open>Splitting and coalescing on the list\<close>

lemma upd_block_fields [simp]:
  "kvm (upd_block a f h) = kvm h" "payload (upd_block a f h) = payload h"
  "heap_start (upd_block a f h) = heap_start h" "heap_end (upd_block a f h) = heap_end h"
  "heap_max (upd_block a f h) = heap_max h" "heap_first (upd_block a f h) = heap_first h"
  "hb (upd_block a f h) = (hb h)(a := f (hb h a))"
  by (simp_all add: upd_block_def)

definition carve :: "u32 \<Rightarrow> u32 \<Rightarrow> u32 \<Rightarrow> blk list" where
  "carve n a s = (if unat s < unat n + 36 then [(a, s, True)] else [(a, n, True), (a + n, s - n, False)])"

lemma tiles_middle:
  assumes "tiles lo hi (xs @ (a, s, al) # ys)"
  shows "tiles lo (unat a) xs" "20 \<le> unat s" "tiles (unat a + unat s) hi ys"
    "unat a + unat s \<le> hi" "lo \<le> unat a"
  using assms by (auto simp: tiles_append dest: tiles_le)

lemma middle_fresh:
  assumes "tiles lo hi (xs @ (a, s, al) # ys)" "unat a \<le> unat c" "unat c < unat a + unat s"
  shows "c \<notin> addrs xs" "c \<notin> addrs ys"
  using tiles_addrs [OF tiles_middle(1) [OF assms(1)]] tiles_addrs [OF tiles_middle(3) [OF assms(1)]] assms(2,3)
  by fastforce+

lemma split_rep:
  assumes r: "rep (hb h) 0 (xs @ (a, s, False) # ys) 0" and t: "tiles lo hi (xs @ (a, s, False) # ys)"
    and lo: "0 < lo" and hi: "hi < 2 ^ 32" and n: "20 \<le> unat n" "n \<le> s" "unat n \<le> 2 ^ 20"
  shows "rep (hb (split_block a n (upd_block a (\<lambda>b. b\<lparr>allocated := True\<rparr>) h))) 0
           (xs @ carve n a s @ ys) 0"
    and "tiles lo hi (xs @ carve n a s @ ys)"
proof -
  note mid = tiles_middle [OF t]
  have a: "a \<notin> addrs xs" "a \<notin> addrs ys"
    using middle_fresh [OF t, of a] mid(2) by auto
  have nz: "0 \<notin> addrs ys" "distinct (map fst ys)"
    using tiles_nonzero [OF mid(3)] tiles_distinct [OF mid(3)] mid(2) by auto
  have lim: "x < n + sizeof_heap_block + HEAP_MIN_SIZE \<longleftrightarrow> unat x < unat n + 36" for x
  proof -
    have e: "n + sizeof_heap_block + HEAP_MIN_SIZE = n + 36"
      by (simp add: sizeof_heap_block_def HEAP_MIN_SIZE_def)
    show ?thesis
      unfolding e using n(3) by (simp add: word_less_nat_alt unat_add_bounded)
  qed
  let ?h = "upd_block a (\<lambda>b. b\<lparr>allocated := True\<rparr>) h"
  have "rep (hb (split_block a n ?h)) 0 (xs @ carve n a s @ ys) 0 \<and> tiles lo hi (xs @ carve n a s @ ys)"
  proof (cases "unat s < unat n + 36")
    case True
    then have "split_block a n ?h = ?h"
      using r by (simp add: split_block_def lim)
    with True show ?thesis
      using r t a by (auto simp: carve_def tiles_append)
  next
    case False
    let ?c = "a + n"
    have uc: "unat ?c = unat a + unat n"
      using mid(4) hi False by (subst unat_add_bounded) auto
    have us: "unat (s - n) = unat s - unat n"
      using n(2) by (rule unat_diff_le)
    have c: "?c \<notin> addrs xs" "?c \<notin> addrs ys" "?c \<noteq> a"
      using middle_fresh [OF t, of ?c] uc False n(1) by (auto simp: unat_inj)
    have f: "first_addr ys 0 \<noteq> a" "first_addr ys 0 \<noteq> ?c" if "ys \<noteq> []"
      using first_addr_in [OF that, of 0] a(2) c(2) by metis+
    have fx: "first_addr ys 0 \<notin> addrs xs" if "ys \<noteq> []"
      using first_addr_in [OF that, of 0] tiles_distinct [OF t] by (simp add: disjoint_iff) metis
    have relinked: "rep ((hb h)(first_addr ys 0 := (hb h (first_addr ys 0))\<lparr>prev_blk := ?c\<rparr>)) ?c ys 0"
      if "ys \<noteq> []"
      using rep_relink_prev [OF _ nz(2) that refl, of "hb h" a 0 ?c] r by simp
    have e: "first_addr ys 0 = 0 \<longleftrightarrow> ys = []"
      using tiles_nonempty_first [OF mid(3)] mid(2) by auto
    have "hb (split_block a n ?h) =
        (let m = (if ys \<noteq> [] then (hb h)(first_addr ys 0 := (hb h (first_addr ys 0))\<lparr>prev_blk := ?c\<rparr>)
                  else hb h)
         in m(?c := \<lparr>magic = HEAP_MAGIC, bsize = s - n, allocated = False, next_blk = first_addr ys 0,
                     prev_blk = a\<rparr>,
              a := \<lparr>magic = HEAP_MAGIC, bsize = n, allocated = True, next_blk = ?c,
                    prev_blk = last_addr 0 xs\<rparr>))"
      using r False c(3) f by (auto simp: split_block_def lim Let_def e fun_eq_iff)
    moreover have "tiles lo hi (xs @ carve n a s @ ys)"
      using t False n uc us by (auto simp: carve_def tiles_append)
    ultimately show ?thesis
      using r False a c f fx relinked by (auto simp: carve_def Let_def)
  qed
  then show "rep (hb (split_block a n ?h)) 0 (xs @ carve n a s @ ys) 0"
    "tiles lo hi (xs @ carve n a s @ ys)" by auto
qed

text \<open>A free block absorbs its right neighbour, and its left neighbour absorbs it.\<close>

fun absorb :: "u32 \<Rightarrow> blk list \<Rightarrow> u32 \<times> blk list" where
  "absorb s ((b, t, False) # ys) = (s + t, ys)"
| "absorb s ys = (s, ys)"

definition release :: "blk list \<Rightarrow> addr \<Rightarrow> u32 \<Rightarrow> blk list \<Rightarrow> blk list" where
  "release xs a s ys =
     (case absorb s ys of (s', ys') \<Rightarrow>
        if xs \<noteq> [] \<and> \<not> snd (snd (last xs))
        then butlast xs @ (fst (last xs), fst (snd (last xs)) + s', False) # ys'
        else xs @ (a, s', False) # ys')"

definition same_but_hb :: "kheap \<Rightarrow> kheap \<Rightarrow> bool" where
  "same_but_hb h h' \<longleftrightarrow> kvm h' = kvm h \<and> payload h' = payload h \<and> heap_start h' = heap_start h \<and>
     heap_end h' = heap_end h \<and> heap_max h' = heap_max h \<and> heap_first h' = heap_first h"

lemma same_but_hb_upd [simp]: "same_but_hb h (upd_block a f h') = same_but_hb h h'"
  by (simp add: same_but_hb_def)

lemma same_but_hb_refl [simp]: "same_but_hb h h"
  by (simp add: same_but_hb_def)

lemma same_but_hb_trans: "same_but_hb h h' \<Longrightarrow> same_but_hb h' h'' \<Longrightarrow> same_but_hb h h''"
  by (simp add: same_but_hb_def)

lemma merge_stop:
  assumes "rep (hb h) p (xs @ (a, s, al) # ys) 0" "0 \<notin> addrs ys" "ys = [] \<or> snd (snd (hd ys))"
  shows "merge_forward a h = Some h"
  using assms by (cases ys rule: blk_list_cases) (subst merge_forward.simps, auto simp: Let_def)+

lemma merge_step:
  assumes r: "rep (hb h) 0 (xs @ (a, s, False) # (b, t, False) # ys) 0"
    and t: "tiles lo hi (xs @ (a, s, False) # (b, t, False) # ys)" and lo: "0 < lo" "hi < 2 ^ 32"
  obtains h' where "merge_forward a h = merge_forward a h'" "same_but_hb h h'"
    "rep (hb h') 0 (xs @ (a, s + t, False) # ys) 0" "tiles lo hi (xs @ (a, s + t, False) # ys)"
proof -
  have d: "distinct (map fst (xs @ (a, s, False) # (b, t, False) # ys))"
    using t by (rule tiles_distinct)
  have nz: "0 \<notin> addrs (xs @ (a, s, False) # (b, t, False) # ys)"
    using tiles_nonzero [OF t lo(1)] .
  have e: "first_addr ys 0 = 0 \<longleftrightarrow> ys = []"
    using nz by (intro first_addr_0) (simp add: image_Un)
  have ne: "a \<noteq> b" "a \<notin> addrs xs" "a \<notin> addrs ys" "b \<notin> addrs ys" "b \<notin> addrs xs" "b \<noteq> 0"
    "distinct (map fst ys)"
    using d nz by auto
  have f: "first_addr ys 0 \<noteq> a" "first_addr ys 0 \<noteq> b" "first_addr ys 0 \<notin> addrs xs" if "ys \<noteq> []"
    using first_addr_in [OF that, of 0] ne d by (metis, metis, simp add: disjoint_iff) metis
  define h1 where "h1 = upd_block a (\<lambda>b. b\<lparr>next_blk := first_addr ys 0\<rparr>)
    (upd_block a (\<lambda>x. x\<lparr>bsize := bsize x + t\<rparr>) h)"
  define h2 where "h2 = (if ys \<noteq> [] then upd_block (first_addr ys 0) (\<lambda>b. b\<lparr>prev_blk := a\<rparr>) h1 else h1)"
  have nx: "hb h a = \<lparr>magic = HEAP_MAGIC, bsize = s, allocated = False, next_blk = b, prev_blk = last_addr 0 xs\<rparr>"
    "hb h b = \<lparr>magic = HEAP_MAGIC, bsize = t, allocated = False, next_blk = first_addr ys 0, prev_blk = a\<rparr>"
    using r by simp_all
  have "merge_forward a h = merge_forward a h2"
    unfolding h2_def h1_def
    by (subst merge_forward.simps) (simp add: nx ne ne(1) [symmetric] e Let_def)
  moreover have "same_but_hb h h2"
    by (simp add: h2_def h1_def)
  moreover have "rep (hb h2) 0 (xs @ (a, s + t, False) # ys) 0"
  proof (cases "ys = []")
    case True
    then show ?thesis
      using r ne by (simp add: h2_def h1_def)
  next
    case False
    have "rep ((hb h)(first_addr ys 0 := (hb h (first_addr ys 0))\<lparr>prev_blk := a\<rparr>)) a ys 0"
      using rep_relink_prev [OF _ ne(7) False refl, of "hb h" b 0 a] r by simp
    then show ?thesis
      using r ne f [OF False] False
      by (simp add: h2_def h1_def fun_upd_twist [of a "first_addr ys 0"])
  qed
  moreover have "tiles lo hi (xs @ (a, s + t, False) # ys)"
  proof -
    note m1 = tiles_middle [OF t]
    have "unat (s + t) = unat s + unat t"
      using m1(3) lo(2) by (subst unat_add_bounded) (auto dest: tiles_le)
    then show ?thesis
      using t by (auto simp: tiles_append add.assoc)
  qed
  ultimately show thesis by (rule that)
qed

lemma merge_forward_absorb:
  assumes r: "rep (hb h) 0 (xs @ (a, s, False) # ys) 0" and t: "tiles lo hi (xs @ (a, s, False) # ys)"
    and lo: "0 < lo" "hi < 2 ^ 32" and c: "coalesced ys" and ab: "absorb s ys = (s', ys')"
  obtains h' where "merge_forward a h = Some h'" "same_but_hb h h'"
    "rep (hb h') 0 (xs @ (a, s', False) # ys') 0" "tiles lo hi (xs @ (a, s', False) # ys')"
proof (cases "ys = [] \<or> snd (snd (hd ys))")
  case True
  have "0 \<notin> addrs ys"
    using tiles_nonzero [OF t lo(1)] by auto
  moreover have "s' = s" "ys' = ys"
    using True ab by (cases ys rule: blk_list_cases; auto)+
  ultimately show thesis
    using that [of h] merge_stop [OF r _ True] r t by simp
next
  case False
  then obtain b u zs where ys: "ys = (b, u, False) # zs"
    by (cases ys rule: blk_list_cases) auto
  obtain h' where h': "merge_forward a h = merge_forward a h'" "same_but_hb h h'"
    "rep (hb h') 0 (xs @ (a, s + u, False) # zs) 0" "tiles lo hi (xs @ (a, s + u, False) # zs)"
    using merge_step [OF r [unfolded ys] t [unfolded ys] lo] .
  have z: "zs = [] \<or> snd (snd (hd zs))"
    using c ys by (cases zs rule: blk_list_cases) auto
  have "0 \<notin> addrs zs"
    using tiles_nonzero [OF h'(4) lo(1)] by auto
  from merge_stop [OF h'(3) this z] h' ab ys show thesis
    by (intro that [of h']) auto
qed

lemma absorb_facts:
  "coalesced ys \<Longrightarrow> absorb s ys = (s', ys') \<Longrightarrow> coalesced ys' \<and> (ys' = [] \<or> snd (snd (hd ys')))"
proof (induction s ys rule: absorb.induct)
  case (1 s b t ys)
  then show ?case
    by (cases ys rule: blk_list_cases) auto
qed auto

lemma last_free_cases:
  assumes "xs \<noteq> [] \<and> \<not> snd (snd (last xs))"
  obtains xs' c u where "xs = xs' @ [(c, u, False)]"
  using assms by (metis append_butlast_last_id prod.collapse)

lemma merge_blocks_once:
  assumes r: "rep (hb h) 0 (xs @ (a, s, False) # ys) 0" and t: "tiles lo hi (xs @ (a, s, False) # ys)"
    and lo: "0 < lo" "hi < 2 ^ 32" and c: "coalesced ys" and ab: "absorb s ys = (s', ys')"
  obtains h' where "same_but_hb h h'" "rep (hb h') 0 (xs @ (a, s', False) # ys') 0"
    "tiles lo hi (xs @ (a, s', False) # ys')"
    "merge_blocks a h = (if last_addr 0 xs \<noteq> 0 \<and> \<not> allocated (hb h' (last_addr 0 xs))
                         then merge_blocks (last_addr 0 xs) h' else Some h')"
proof -
  obtain h' where h': "merge_forward a h = Some h'" "same_but_hb h h'"
    "rep (hb h') 0 (xs @ (a, s', False) # ys') 0" "tiles lo hi (xs @ (a, s', False) # ys')"
    using merge_forward_absorb [OF r t lo c ab] .
  have "a \<noteq> 0"
    using tiles_nonzero [OF t lo(1)] by auto
  then have "merge_blocks a h = (if last_addr 0 xs \<noteq> 0 \<and> \<not> allocated (hb h' (last_addr 0 xs))
                         then merge_blocks (last_addr 0 xs) h' else Some h')"
    using h'(1,3) r by (subst merge_blocks.simps) simp
  with h'(2-4) show thesis by (rule that)
qed

lemma last_allocated:
  assumes "rep mem p (xs @ ys) n" "xs \<noteq> [] \<longrightarrow> snd (snd (last xs))" "0 \<notin> addrs xs"
  shows "\<not> (last_addr 0 xs \<noteq> 0 \<and> \<not> allocated (mem (last_addr 0 xs)))"
  using assms by (cases xs rule: rev_cases) auto

lemma merge_blocks_release:
  assumes r: "rep (hb h) 0 (xs @ (a, s, False) # ys) 0" and t: "tiles lo hi (xs @ (a, s, False) # ys)"
    and lo: "0 < lo" "hi < 2 ^ 32" and c: "coalesced xs" "coalesced ys"
  obtains h' where "merge_blocks a h = Some h'" "same_but_hb h h'"
    "rep (hb h') 0 (release xs a s ys) 0" "tiles lo hi (release xs a s ys)"
proof -
  obtain s' ys' where ab: "absorb s ys = (s', ys')" by force
  note abf = absorb_facts [OF c(2) ab]
  obtain h1 where h1: "same_but_hb h h1" "rep (hb h1) 0 (xs @ (a, s', False) # ys') 0"
    "tiles lo hi (xs @ (a, s', False) # ys')"
    "merge_blocks a h = (if last_addr 0 xs \<noteq> 0 \<and> \<not> allocated (hb h1 (last_addr 0 xs))
                         then merge_blocks (last_addr 0 xs) h1 else Some h1)"
    using merge_blocks_once [OF r t lo c(2) ab] .
  have nz: "0 \<notin> addrs xs"
    using tiles_nonzero [OF t lo(1)] by (simp add: image_Un)
  show thesis
  proof (cases "xs \<noteq> [] \<and> \<not> snd (snd (last xs))")
    case False
    then show thesis
      using last_allocated [OF h1(2) _ nz] h1 ab by (intro that [of h1]) (auto simp: release_def)
  next
    case True
    then obtain zs d u where xs: "xs = zs @ [(d, u, False)]"
      by (rule last_free_cases)
    have d: "last_addr 0 xs = d" "d \<noteq> 0" "\<not> allocated (hb h1 d)"
      using xs nz h1(2) by auto
    have r1: "rep (hb h1) 0 (zs @ (d, u, False) # (a, s', False) # ys') 0"
      and t1: "tiles lo hi (zs @ (d, u, False) # (a, s', False) # ys')"
      using h1(2,3) xs by simp_all
    have c1: "coalesced ((a, s', False) # ys')"
      using abf by (cases ys' rule: blk_list_cases) auto
    obtain h2 where h2: "same_but_hb h1 h2" "rep (hb h2) 0 (zs @ (d, u + s', False) # ys') 0"
      "tiles lo hi (zs @ (d, u + s', False) # ys')"
      "merge_blocks d h1 = (if last_addr 0 zs \<noteq> 0 \<and> \<not> allocated (hb h2 (last_addr 0 zs))
                         then merge_blocks (last_addr 0 zs) h2 else Some h2)"
      using merge_blocks_once [OF r1 t1 lo c1] by auto
    have "zs \<noteq> [] \<longrightarrow> snd (snd (last zs))" "0 \<notin> addrs zs"
      using c(1) nz xs by (auto simp: coalesced_append)
    from last_allocated [OF h2(2) this] have "merge_blocks a h = Some h2"
      using h1(4) h2(4) d by auto
    then show thesis
      using h2 xs ab same_but_hb_trans [OF h1(1) h2(1)] by (intro that [of h2]) (auto simp: release_def)
  qed
qed

lemma coalesced_release: "coalesced xs \<Longrightarrow> coalesced ys \<Longrightarrow> coalesced (release xs a s ys)"
proof -
  assume c: "coalesced xs" "coalesced ys"
  obtain s' ys' where ab: "absorb s ys = (s', ys')" by force
  note abf = absorb_facts [OF c(2) ab]
  have tail: "coalesced ((b, t, False) # ys')" for b t
    using abf by (cases ys' rule: blk_list_cases) auto
  show ?thesis
  proof (cases "xs \<noteq> [] \<and> \<not> snd (snd (last xs))")
    case True
    then obtain zs d u where xs: "xs = zs @ [(d, u, False)]"
      by (rule last_free_cases)
    with c(1) tail show ?thesis
      by (auto simp: release_def ab coalesced_append)
  next
    case False
    with c(1) tail show ?thesis
      by (auto simp: release_def ab coalesced_append)
  qed
qed

section \<open>The pages behind the heap\<close>

text \<open>
  Every address of the range is mapped to a frame that is taken from the frame allocator, that holds
  no page table, and that no other page of the range uses.
\<close>

definition backed :: "vm \<Rightarrow> nat \<Rightarrow> nat \<Rightarrow> bool" where
  "backed m lo hi \<longleftrightarrow>
     (\<forall>w. lo \<le> unat w \<and> unat w < hi \<longrightarrow>
        (\<exists>a. mmu_walk m w = Some a \<and> unat a div 4096 \<in> used_set (vm_pmm m) - table_frames m)) \<and>
     (\<forall>w w' a a'. lo \<le> unat w \<and> unat w < hi \<and> lo \<le> unat w' \<and> unat w' < hi \<and>
        mmu_walk m w = Some a \<and> mmu_walk m w' = Some a' \<and> unat a div 4096 = unat a' div 4096 \<longrightarrow>
        unat w div 4096 = unat w' div 4096)"

lemma backed_frame:
  "backed m lo hi \<Longrightarrow> lo \<le> unat w \<Longrightarrow> unat w < hi \<Longrightarrow>
   \<exists>a. mmu_walk m w = Some a \<and> unat a div 4096 \<in> used_set (vm_pmm m) - table_frames m"
  unfolding backed_def by blast

lemma backed_inj:
  "backed m lo hi \<Longrightarrow> lo \<le> unat w \<Longrightarrow> unat w < hi \<Longrightarrow> lo \<le> unat w' \<Longrightarrow> unat w' < hi \<Longrightarrow>
   mmu_walk m w = Some a \<Longrightarrow> mmu_walk m w' = Some a' \<Longrightarrow> unat a div 4096 = unat a' div 4096 \<Longrightarrow>
   unat w div 4096 = unat w' div 4096"
  unfolding backed_def by blast

lemma backedI:
  assumes "\<And>w. lo \<le> unat w \<Longrightarrow> unat w < hi \<Longrightarrow>
      \<exists>a. mmu_walk m w = Some a \<and> unat a div 4096 \<in> used_set (vm_pmm m) - table_frames m"
    "\<And>w w' a a'. lo \<le> unat w \<Longrightarrow> unat w < hi \<Longrightarrow> lo \<le> unat w' \<Longrightarrow> unat w' < hi \<Longrightarrow>
      mmu_walk m w = Some a \<Longrightarrow> mmu_walk m w' = Some a' \<Longrightarrow> unat a div 4096 = unat a' div 4096 \<Longrightarrow>
      unat w div 4096 = unat w' div 4096"
  shows "backed m lo hi"
  using assms unfolding backed_def by blast

lemma backed_mono: "backed m lo hi \<Longrightarrow> hi' \<le> hi \<Longrightarrow> backed m lo hi'"
  unfolding backed_def by (meson order_less_le_trans)

lemma backed_empty: "backed m lo lo"
  unfolding backed_def by auto

text \<open>Translations that keep their value, and page tables in new frames only, keep a range backed.\<close>

lemma backed_keep:
  assumes "backed m lo hi" "used_set (vm_pmm m) \<subseteq> used_set (vm_pmm m')"
    "table_frames m' - table_frames m \<subseteq> - used_set (vm_pmm m)"
    "\<And>w. lo \<le> unat w \<Longrightarrow> unat w < hi \<Longrightarrow> mmu_walk m' w = mmu_walk m w"
  shows "backed m' lo hi"
proof (rule backedI)
  fix w :: u32
  assume w: "lo \<le> unat w" "unat w < hi"
  then show "\<exists>a. mmu_walk m' w = Some a \<and> unat a div 4096 \<in> used_set (vm_pmm m') - table_frames m'"
    using backed_frame [OF assms(1) w] assms(2,3) assms(4) [OF w] by auto
next
  fix w w' a a'
  assume "lo \<le> unat w" "unat w < hi" "lo \<le> unat w'" "unat w' < hi"
    "mmu_walk m' w = Some a" "mmu_walk m' w' = Some a'" "unat a div 4096 = unat a' div 4096"
  then show "unat w div 4096 = unat w' div 4096"
    using backed_inj [OF assms(1), of w w' a a'] assms(4) [of w] assms(4) [of w'] by simp
qed

lemma page_offset_frame:
  assumes "page_base p"
  shows "unat (p + PAGE_OFFSET w) div 4096 = unat p div 4096"
proof -
  obtain k where k: "unat p = 4096 * k"
    using assms by (auto simp: page_base_nat elim: dvdE)
  have o: "unat (PAGE_OFFSET w) < 4096"
    by (simp add: unat_PAGE_OFFSET)
  have "unat (p + PAGE_OFFSET w) = unat p + unat (PAGE_OFFSET w)"
    using unat32_bound [of p] k o by (intro unat_add_bounded) simp
  then show ?thesis
    using o by (simp add: k)
qed

lemma backed_step:
  assumes inv: "vm_inv m" and al: "pmm_alloc_frame (vm_pmm m) = (pm, phys)" "phys \<noteq> 0"
    and v: "page_base v" "unat v + 4096 \<le> 4290772992" "lo \<le> unat v" and b: "backed m lo (unat v)"
    and mp: "maps_page v phys (m\<lparr>vm_pmm := pm\<rparr>) m'"
  shows "backed m' lo (unat v + 4096)"
proof -
  note fr = pmm.alloc_frame [OF vm_invD(2) [OF inv] al]
  have pb: "page_base phys" "phys AND 0xFFFFF000 = phys"
    using fr by (auto simp: page_base_nat simp flip: page_base_def)
  have old: "mmu_walk m' w = mmu_walk m w" if "lo \<le> unat w" "unat w < unat v" for w
  proof -
    have "unat w div 4096 \<noteq> unat v div 4096"
      using v(1) that(2) by (auto simp: page_base_nat div_eq_bounds elim!: dvdE)
    then show ?thesis
      using mp that v(2) below_window [of w] by (simp add: maps_page_def)
  qed
  have new: "mmu_walk m' w = Some (phys + PAGE_OFFSET w)" "unat w div 4096 = unat v div 4096"
    if "unat v \<le> unat w" "unat w < unat v + 4096" for w
  proof -
    show p: "unat w div 4096 = unat v div 4096"
      using v(1) that by (auto simp: page_base_nat div_eq_bounds elim!: dvdE)
    show "mmu_walk m' w = Some (phys + PAGE_OFFSET w)"
      using mp that v(2) below_window [of w] p pb by (simp add: maps_page_def)
  qed
  have keep: "backed m' lo (unat v)"
    using b mp fr old by (intro backed_keep [OF b]) (auto simp: maps_page_def)
  have sub: "unat phys div 4096 \<in> used_set (vm_pmm m') - table_frames m'"
    using mp fr table_frames_used [OF inv] by (auto simp: maps_page_def)
  have fresh: "unat a div 4096 \<noteq> unat phys div 4096"
    if "lo \<le> unat w" "unat w < unat v" "mmu_walk m' w = Some a" for w a
    using backed_frame [OF b that(1,2)] that old [OF that(1,2)] fr by auto
  show ?thesis
  proof (rule backedI)
    fix w :: u32
    assume "lo \<le> unat w" "unat w < unat v + 4096"
    then show "\<exists>a. mmu_walk m' w = Some a \<and> unat a div 4096 \<in> used_set (vm_pmm m') - table_frames m'"
      using backed_frame [OF keep, of w] new [of w] sub page_offset_frame [OF pb(1)]
      by (cases "unat w < unat v") auto
  next
    fix w w' a a'
    assume "lo \<le> unat w" "unat w < unat v + 4096" "lo \<le> unat w'" "unat w' < unat v + 4096"
      "mmu_walk m' w = Some a" "mmu_walk m' w' = Some a'" "unat a div 4096 = unat a' div 4096"
    then show "unat w div 4096 = unat w' div 4096"
      using backed_inj [OF keep, of w w' a a'] new [of w] new [of w'] fresh [of w a] fresh [of w' a']
        page_offset_frame [OF pb(1)]
      by (cases "unat w < unat v"; cases "unat w' < unat v") auto
  qed
qed

definition outside :: "nat \<Rightarrow> nat \<Rightarrow> u32 \<Rightarrow> bool" where
  "outside lo hi w \<longleftrightarrow> PD_INDEX w \<noteq> 1023 \<and> \<not> (lo \<le> unat w \<and> unat w < hi)"

lemma page_address:
  assumes "page_base b" "unat b + 4096 * unat i + 4096 \<le> 4290772992"
  shows "unat (b + i * PAGE_SIZE) = unat b + 4096 * unat i" "page_base (b + i * PAGE_SIZE)"
proof -
  have "unat (i * PAGE_SIZE) = unat i * 4096"
    using assms(2) by (subst unat_mult_bounded) auto
  then show "unat (b + i * PAGE_SIZE) = unat b + 4096 * unat i"
    using assms(2) by (subst unat_add_bounded) auto
  with assms(1) show "page_base (b + i * PAGE_SIZE)"
    by (simp add: page_base_nat)
qed

lemma expand_page_cases [consumes 4, case_names out_of_frames panic mapped]:
  assumes inv: "vm_inv m" and v: "page_base v" "unat v + 4096 \<le> 4290772992" and b: "lo \<le> unat v \<and> backed m lo (unat v)"
  obtains pm where "pmm_alloc_frame (vm_pmm m) = (pm, 0)" "frames_left (vm_pmm m) = 0"
      "vm_inv (m\<lparr>vm_pmm := pm\<rparr>)" "backed (m\<lparr>vm_pmm := pm\<rparr>) lo (unat v)"
    | pm phys where "pmm_alloc_frame (vm_pmm m) = (pm, phys)" "phys \<noteq> 0" "frames_left (vm_pmm m) < 2"
      "vmm_map_page v phys PAGE_FLAGS_KERNEL (m\<lparr>vm_pmm := pm\<rparr>) = None"
    | pm phys m' where "pmm_alloc_frame (vm_pmm m) = (pm, phys)" "phys \<noteq> 0"
      "vmm_map_page v phys PAGE_FLAGS_KERNEL (m\<lparr>vm_pmm := pm\<rparr>) = Some m'"
      "vm_inv m'" "backed m' lo (unat v + 4096)" "frames_left (vm_pmm m) \<le> frames_left (vm_pmm m') + 2"
      "\<And>x. outside (unat v) (unat v + 4096) x \<Longrightarrow> mmu_walk m' x = mmu_walk m x"
proof -
  obtain pm phys where al: "pmm_alloc_frame (vm_pmm m) = (pm, phys)" by force
  let ?m1 = "m\<lparr>vm_pmm := pm\<rparr>"
  note inv1 = vm_inv_alloc [OF inv al]
  note av = pmm.alloc_avail [OF vm_invD(2) [OF inv] al]
  have b1: "backed ?m1 lo (unat v)"
    by (rule backed_keep) (use b pmm.alloc_used_mono [OF vm_invD(2) [OF inv] al] in auto)
  have w: "PD_INDEX v \<noteq> 1023"
    using v(2) by (intro below_window) simp
  note st = map_page_step [OF inv1 w, of phys PAGE_FLAGS_KERNEL]
  show thesis
  proof (cases "phys = 0")
    case True
    then show thesis
      using al av inv1 b1 that(1) by simp
  next
    case ph: False
    show thesis
    proof (cases "vmm_map_page v phys PAGE_FLAGS_KERNEL ?m1")
      case None
      then show thesis
        using st al ph av by (intro that(2) [of pm phys]) simp_all
    next
      case (Some m2)
      then have mp: "maps_page v phys ?m1 m2"
        using st by simp
      have "mmu_walk m2 x = mmu_walk m x" if "outside (unat v) (unat v + 4096) x" for x
      proof -
        have "unat x div 4096 \<noteq> unat v div 4096"
          using that v(1) by (auto simp: outside_def page_base_nat div_eq_bounds elim!: dvdE)
        then show ?thesis
          using mp that by (simp add: maps_page_def outside_def)
      qed
      moreover have "frames_left (vm_pmm m) \<le> frames_left (vm_pmm m2) + 2"
        using mp av by (simp add: maps_page_def split: if_splits)
      ultimately show thesis
        using that(3) [OF al ph Some] backed_step [OF inv al ph v _ _ mp] b mp
        by (simp add: maps_page_def)
    qed
  qed
qed

lemma expand_pages_ok:
  assumes "vm_inv m" "page_base b" "unat b + 4096 * (unat i + n) \<le> 4290772992" "lo \<le> unat b"
    "backed m lo (unat b + 4096 * unat i)"
  shows "case expand_pages n i b m of
      None \<Rightarrow> frames_left (vm_pmm m) < 2 * n
    | Some (m', ok) \<Rightarrow> vm_inv m' \<and> backed m' lo (unat b + 4096 * unat i) \<and>
        (if ok then backed m' lo (unat b + 4096 * (unat i + n)) else frames_left (vm_pmm m) < 2 * n) \<and>
        (\<forall>w. outside (unat b + 4096 * unat i) (unat b + 4096 * (unat i + n)) w \<longrightarrow>
             mmu_walk m' w = mmu_walk m w)"
  using assms(1,3,5)
proof (induction n arbitrary: i m)
  case 0
  then show ?case by simp
next
  case (Suc n)
  let ?v = "b + i * PAGE_SIZE"
  have v: "unat ?v = unat b + 4096 * unat i" "page_base ?v"
    using page_address [OF assms(2), of i] Suc.prems(2) by simp_all
  have i1: "unat (i + 1) = Suc (unat i)"
    using Suc.prems(2) by (subst unat_add_bounded) auto
  have vb: "unat ?v + 4096 \<le> 4290772992" "lo \<le> unat ?v \<and> backed m lo (unat ?v)"
    using Suc.prems(2,3) assms(4) by (simp_all add: v)
  show ?case
    using Suc.prems(1) v(2) vb
  proof (cases rule: expand_page_cases)
    case (out_of_frames pm)
    then show ?thesis by (simp add: v)
  next
    case (panic pm phys)
    then show ?thesis by simp
  next
    case (mapped pm phys m2)
    have e: "expand_pages (Suc n) i b m = expand_pages n (i + 1) b m2"
      using mapped by simp
    have IH: "case expand_pages n (i + 1) b m2 of
        None \<Rightarrow> frames_left (vm_pmm m2) < 2 * n
      | Some (m', ok) \<Rightarrow> vm_inv m' \<and> backed m' lo (unat b + 4096 * unat (i + 1)) \<and>
          (if ok then backed m' lo (unat b + 4096 * (unat (i + 1) + n)) else frames_left (vm_pmm m2) < 2 * n) \<and>
          (\<forall>w. outside (unat b + 4096 * unat (i + 1)) (unat b + 4096 * (unat (i + 1) + n)) w \<longrightarrow>
               mmu_walk m' w = mmu_walk m2 w)"
    proof (rule Suc.IH)
      show "vm_inv m2" by (rule mapped)
      show "unat b + 4096 * (unat (i + 1) + n) \<le> 4290772992"
        using Suc.prems(2) by (simp add: i1)
      have "unat ?v + 4096 = unat b + 4096 * unat (i + 1)"
        by (simp add: i1 v)
      with mapped(5) show "backed m2 lo (unat b + 4096 * unat (i + 1))"
        by (simp only:)
    qed
    show ?thesis
    proof (cases "expand_pages n (i + 1) b m2")
      case None
      then show ?thesis
        using e IH mapped(6) by simp
    next
      case (Some r)
      obtain m' ok where r: "r = (m', ok)" by force
      have *: "vm_inv m'" "backed m' lo (unat b + 4096 * Suc (unat i))"
        "if ok then backed m' lo (unat b + 4096 * (Suc (unat i) + n)) else frames_left (vm_pmm m2) < 2 * n"
        "\<And>w. outside (unat b + 4096 * Suc (unat i)) (unat b + 4096 * (Suc (unat i) + n)) w \<Longrightarrow>
           mmu_walk m' w = mmu_walk m2 w"
        using IH unfolding i1 Some r by auto
      have "mmu_walk m' x = mmu_walk m x"
        if "outside (unat b + 4096 * unat i) (unat b + 4096 * (unat i + Suc n)) x" for x
        using that mapped(7) [of x] *(4) [of x] by (auto simp: outside_def v)
      moreover have "backed m' lo (unat b + 4096 * unat i)"
        using *(2) by (rule backed_mono) simp
      ultimately show ?thesis
        using Some r e *(1,3) mapped(6) by (auto split: if_splits)
    qed
  qed
qed

section \<open>The heap invariant\<close>

definition heap_shape :: "kheap \<Rightarrow> blk list \<Rightarrow> bool" where
  "heap_shape h bs \<longleftrightarrow> rep (hb h) 0 bs 0 \<and> heap_first h = first_addr bs 0 \<and>
     tiles (unat (heap_start h)) (unat (heap_end h)) bs"

definition heap_ok :: "kheap \<Rightarrow> bool" where
  "heap_ok h \<longleftrightarrow> vm_inv (kvm h) \<and> backed (kvm h) (unat (heap_start h)) (unat (heap_end h)) \<and>
     0 < unat (heap_start h) \<and> page_base (heap_end h) \<and> heap_start h \<le> heap_end h \<and>
     heap_end h \<le> heap_max h \<and> unat (heap_max h) \<le> 4290772992"

definition heap_rel :: "kheap \<Rightarrow> blk list \<Rightarrow> bool" where
  "heap_rel h bs \<longleftrightarrow> heap_shape h bs \<and> heap_ok h \<and> coalesced bs"

lemma heap_ok_cong: "same_but_hb h h' \<Longrightarrow> heap_ok h' = heap_ok h"
  by (simp add: heap_ok_def same_but_hb_def)

lemma heap_ok_bounds:
  assumes "heap_ok h"
  shows "0 < unat (heap_start h)" "unat (heap_end h) < 2 ^ 32" "unat (heap_end h) \<le> 4290772992"
  using assms unat32_bound [of "heap_end h"] by (auto simp: heap_ok_def word_le_nat_alt)

text \<open>Rounding up to a power of two.\<close>

lemma unat_and_not_mask: "unat ((x :: u32) AND NOT (mask k)) = unat x div 2 ^ k * 2 ^ k"
proof -
  have "take_bit 32 (unat x) = unat x"
    using unat32_bound [of x] by (simp add: take_bit_nat_eq_self)
  then have "unat (x AND NOT (mask k)) = take_bit 32 (push_bit k (drop_bit k (unat x)))"
    by (simp add: and_not_mask_eq unsigned_push_bit_eq unsigned_drop_bit_eq)
  also have "\<dots> = unat x div 2 ^ k * 2 ^ k"
    using unat32_bound [of x]
    by (simp add: push_bit_eq_mult drop_bit_eq_div take_bit_nat_eq_self_iff)
       (meson div_times_less_eq_dividend le_less_trans)
  finally show ?thesis .
qed

lemma unat_ALIGN_UP:
  assumes "k < 32" "unat a + 2 ^ k \<le> 2 ^ 32"
  shows "unat (ALIGN_UP a (2 ^ k)) = (unat a + 2 ^ k - 1) div 2 ^ k * 2 ^ k"
proof -
  have "(2::nat) ^ k < 2 ^ 32"
    using assms(1) by (rule power_strict_increasing) simp
  then have "unat (2 ^ k :: u32) = 2 ^ k"
    using unat_of_nat [of "2 ^ k", where 'a = 32] by simp
  then have k: "unat (2 ^ k - 1 :: u32) = 2 ^ k - 1"
    by (simp add: unat_diff_le word_le_nat_alt)
  have e: "a + 2 ^ k - 1 = a + (2 ^ k - 1)"
    by simp
  have "unat (a + (2 ^ k - 1)) = unat a + 2 ^ k - 1"
    using assms by (subst unat_add_bounded) (auto simp: k)
  then show ?thesis
    unfolding ALIGN_UP_def e
    by (simp add: unat_and_not_mask flip: mask_eq_exp_minus_1)
qed

lemma ALIGN_UP_8: "unat a \<le> 4294967288 \<Longrightarrow> unat (ALIGN_UP a 8) = (unat a + 7) div 8 * 8"
  using unat_ALIGN_UP [of 3 a] by simp

lemma ALIGN_UP_PAGE: "unat a \<le> 4294963200 \<Longrightarrow> unat (ALIGN_UP a PAGE_SIZE) = (unat a + 4095) div 4096 * 4096"
  using unat_ALIGN_UP [of 12 a] by (simp add: PAGE_SIZE_def)

section \<open>Growth\<close>

abbreviation new_header :: "u32 \<Rightarrow> heap_block" where
  "new_header bytes \<equiv> \<lparr>magic = HEAP_MAGIC, bsize = bytes, allocated = False, next_blk = NULL, prev_blk = NULL\<rparr>"

lemma append_block_rep:
  assumes sh: "heap_shape h bs" and lo: "0 < unat (heap_start h)"
  obtains h' where "append_block (heap_end h) (upd_block (heap_end h) (\<lambda>_. new_header bytes) h) = Some h'"
    "rep (hb h') 0 (bs @ [(heap_end h, bytes, False)]) 0"
    "heap_first h' = first_addr (bs @ [(heap_end h, bytes, False)]) 0"
    "kvm h' = kvm h" "payload h' = payload h" "heap_start h' = heap_start h" "heap_end h' = heap_end h"
    "heap_max h' = heap_max h"
proof -
  let ?h = "upd_block (heap_end h) (\<lambda>_. new_header bytes) h"
  have r: "rep (hb h) 0 bs 0" and f: "heap_first h = first_addr bs 0"
    and t: "tiles (unat (heap_start h)) (unat (heap_end h)) bs"
    using sh by (simp_all add: heap_shape_def)
  have e: "heap_end h \<notin> addrs bs"
    using tiles_addrs [OF t, of "heap_end h"] by auto
  have nz: "0 \<notin> addrs bs"
    using tiles_nonzero [OF t lo] .
  show thesis
  proof (cases "bs = []")
    case True
    then have "append_block (heap_end h) ?h = Some (?h\<lparr>heap_first := heap_end h\<rparr>)"
      using f by (simp add: append_block_def)
    then show thesis
      by (rule that) (simp_all add: True)
  next
    case False
    let ?l = "last_addr 0 bs"
    define h' where "h' = upd_block (heap_end h) (\<lambda>b. b\<lparr>prev_blk := ?l\<rparr>)
        (upd_block ?l (\<lambda>b. b\<lparr>next_blk := heap_end h\<rparr>) ?h)"
    have "?l \<in> addrs bs"
      using False last_addr_in by (cases bs rule: blk_list_cases) fastforce+
    then have ne: "?l \<noteq> heap_end h"
      using e by metis
    have "find_last (hb ?h) (first_addr bs 0) = Some ?l"
      using find_last_rep [of "hb ?h" 0 bs] r nz e False by simp
    then have A: "append_block (heap_end h) ?h = Some h'"
      using f first_addr_0 [OF nz] False by (simp add: append_block_def h'_def)
    have "rep ((hb h)(?l := (hb h ?l)\<lparr>next_blk := heap_end h\<rparr>)) 0 bs (heap_end h)"
      using rep_relink_next [OF r tiles_distinct [OF t] False refl, of "heap_end h"] .
    then have R: "rep (hb h') 0 (bs @ [(heap_end h, bytes, False)]) 0"
      using e ne ne [symmetric] by (simp add: h'_def)
    show thesis
      by (rule that [OF A R])
        (use f first_addr_nonempty [OF False, of "heap_end h" 0] in \<open>simp_all add: h'_def\<close>)
  qed
qed

definition grown_size :: "nat \<Rightarrow> nat" where
  "grown_size n = (n + 4115) div 4096 * 4096"

lemma grown_size_bounds: "n \<le> 1048576 \<Longrightarrow> n + 20 \<le> grown_size n \<and> grown_size n \<le> 1052672"
proof -
  assume n: "n \<le> 1048576"
  have "n + 4115 < grown_size n + 4096"
    unfolding grown_size_def using dividend_less_div_times [of 4096 "n + 4115"] by simp
  moreover have "grown_size n \<le> n + 4115"
    unfolding grown_size_def by (rule div_times_less_eq_dividend)
  moreover have "(n + 4115) div 4096 \<le> 1052691 div 4096"
    using n by (intro div_le_mono) simp
  ultimately show ?thesis
    by (auto simp: grown_size_def)
qed

lemma expand_heap_cases [consumes 4, case_names fails panic grown]:
  assumes sh: "heap_shape h bs" and ok: "heap_ok h" and n: "unat n \<le> 1048576" and c: "coalesced bs"
  obtains h' where "expand_heap n h = Some (h', 0)" "heap_rel h' bs" "payload h' = payload h"
      "unat (heap_max h) < unat (heap_end h) + grown_size (unat n) \<or>
       frames_left (vm_pmm (kvm h)) < 2 * (grown_size (unat n) div 4096)"
    | "expand_heap n h = None" "frames_left (vm_pmm (kvm h)) < 2 * (grown_size (unat n) div 4096)"
    | h' where "expand_heap n h = Some (h', heap_end h)" "heap_end h \<noteq> 0" "heap_ok h'"
      "heap_shape h' (bs @ [(heap_end h, of_nat (grown_size (unat n)), False)])" "payload h' = payload h"
proof -
  let ?z = "grown_size (unat n)" and ?e = "heap_end h"
  let ?b = "ALIGN_UP (n + sizeof_heap_block) PAGE_SIZE"
  note bd = heap_ok_bounds [OF ok]
  note zb = grown_size_bounds [OF n]
  have "unat (n + sizeof_heap_block) = unat n + 20"
    using n by (subst unat_add_bounded) (auto simp: sizeof_heap_block_def)
  then have b: "unat ?b = ?z"
    using n by (subst ALIGN_UP_PAGE) (simp_all add: grown_size_def)
  then have bz: "?b = of_nat ?z"
    by (simp flip: b)
  have sum: "unat (?e + ?b) = unat ?e + ?z"
    using bd zb b by (subst unat_add_bounded) auto
  show thesis
  proof (cases "heap_max h < ?e + ?b")
    case True
    then show thesis
      using that(1) [of h] sh ok c sum by (simp add: expand_heap_def heap_rel_def word_less_nat_alt)
  next
    case False
    then have room: "unat ?e + ?z \<le> unat (heap_max h)" "unat ?e + ?z \<le> 4290772992"
      using sum ok by (simp_all add: heap_ok_def word_less_nat_alt)
    let ?p = "unat (?b div PAGE_SIZE)"
    have p: "?p = ?z div 4096" "4096 * ?p = ?z"
      by (simp_all add: unat_div b grown_size_def)
    have ex: "case expand_pages ?p 0 ?e (kvm h) of
        None \<Rightarrow> frames_left (vm_pmm (kvm h)) < 2 * ?p
      | Some (m', ok) \<Rightarrow> vm_inv m' \<and> backed m' (unat (heap_start h)) (unat ?e + 4096 * unat (0 :: u32)) \<and>
          (if ok then backed m' (unat (heap_start h)) (unat ?e + 4096 * (unat (0 :: u32) + ?p))
           else frames_left (vm_pmm (kvm h)) < 2 * ?p) \<and>
          (\<forall>w. outside (unat ?e + 4096 * unat (0 :: u32)) (unat ?e + 4096 * (unat (0 :: u32) + ?p)) w \<longrightarrow>
             mmu_walk m' w = mmu_walk (kvm h) w)"
      using ok room p(2) by (intro expand_pages_ok) (auto simp: heap_ok_def word_le_nat_alt)
    show thesis
    proof (cases "expand_pages ?p 0 ?e (kvm h)")
      case None
      then show thesis
        using False ex p that(2) by (simp add: expand_heap_def Let_def)
    next
      case (Some r)
      obtain m k where r: "r = (m, k)" by force
      have m: "vm_inv m" "backed m (unat (heap_start h)) (unat ?e)"
        "k \<Longrightarrow> backed m (unat (heap_start h)) (unat ?e + ?z)"
        "\<not> k \<Longrightarrow> frames_left (vm_pmm (kvm h)) < 2 * (?z div 4096)"
        using ex Some r p by auto
      let ?h = "h\<lparr>kvm := m\<rparr>"
      have sh': "heap_shape ?h bs"
        using sh by (simp add: heap_shape_def)
      show thesis
      proof (cases k)
        case False
        then show thesis
          using that(1) [of ?h] \<open>\<not> heap_max h < ?e + ?b\<close> Some r m(1,2,4) ok c sh'
          by (simp add: expand_heap_def Let_def heap_rel_def heap_ok_def)
      next
        case True
        obtain h' where h': "append_block ?e (upd_block ?e (\<lambda>_. new_header ?b) ?h) = Some h'"
          "rep (hb h') 0 (bs @ [(?e, ?b, False)]) 0" "heap_first h' = first_addr (bs @ [(?e, ?b, False)]) 0"
          "kvm h' = m" "payload h' = payload h" "heap_start h' = heap_start h" "heap_end h' = ?e"
          "heap_max h' = heap_max h"
          using append_block_rep [OF sh', of ?b] bd(1) by auto
        let ?g = "h'\<lparr>heap_end := ?e + ?b\<rparr>"
        have "expand_heap n h = Some (?g, ?e)"
          using \<open>\<not> heap_max h < ?e + ?b\<close> Some r True h'(1,7) by (simp add: expand_heap_def Let_def)
        moreover have "tiles (unat (heap_start h)) (unat (?e + ?b)) (bs @ [(?e, ?b, False)])"
          using sh zb by (auto simp: heap_shape_def tiles_append sum b)
        then have "heap_shape ?g (bs @ [(?e, ?b, False)])"
          using h' by (simp add: heap_shape_def)
        moreover have "heap_ok ?g"
          using ok m True h' room sum
          by (simp add: heap_ok_def word_le_nat_alt page_base_nat) (simp add: grown_size_def)
        moreover have "?e \<noteq> 0"
          using ok by (auto simp: heap_ok_def word_le_nat_alt)
        ultimately show thesis
          using that(3) [of ?g] h'(5) by (simp add: bz)
      qed
    qed
  qed
qed

section \<open>Allocation and release\<close>

text \<open>The block size of a request, header included.\<close>

definition request :: "nat \<Rightarrow> nat" where
  "request n = (n + 7) div 8 * 8 + 20"

lemma request_bounds: "n + 20 \<le> request n" "request n \<le> n + 27"
proof -
  have "n + 7 < (n + 7) div 8 * 8 + 8"
    using dividend_less_div_times [of 8 "n + 7"] by simp
  then show "n + 20 \<le> request n"
    by (simp add: request_def)
  show "request n \<le> n + 27"
    using div_times_less_eq_dividend [of "n + 7" 8] by (simp add: request_def)
qed

lemma unat_request: "unat n \<le> 4294967264 \<Longrightarrow> unat (ALIGN_UP n 8 + sizeof_heap_block) = request (unat n)"
proof -
  assume n: "unat n \<le> 4294967264"
  have "unat (ALIGN_UP n 8) = (unat n + 7) div 8 * 8"
    using n by (intro ALIGN_UP_8) simp
  then show ?thesis
    using n request_bounds(2) [of "unat n"]
    by (subst unat_add_bounded) (auto simp: sizeof_heap_block_def request_def)
qed

definition fits :: "nat \<Rightarrow> blk \<Rightarrow> bool" where
  "fits n b \<longleftrightarrow> \<not> snd (snd b) \<and> n \<le> unat (fst (snd b))"

lemma coalesced_carve:
  "coalesced (xs @ (a, s, False) # ys) \<Longrightarrow> coalesced (xs @ carve n a s @ ys)"
  by (cases ys rule: blk_list_cases) (auto simp: carve_def coalesced_append)

lemma split_block_fields: "same_but_hb h (split_block a n h)"
  by (simp add: split_block_def Let_def)

lemma find_split:
  assumes "find P bs = Some b"
  obtains xs ys where "bs = xs @ b # ys" "P b" "\<forall>x\<in>set xs. \<not> P x"
proof -
  obtain i where "i < length bs" "P (bs ! i)" "b = bs ! i" "\<forall>j<i. \<not> P (bs ! j)"
    using assms by (auto simp: find_Some_iff)
  then show thesis
    by (intro that [of "take i bs" "drop (Suc i) bs"]) (auto simp: id_take_nth_drop in_set_conv_nth)
qed

lemma place_block:
  assumes rel: "heap_rel h (xs @ (a, s, False) # ys)" and q: "20 \<le> unat n" "n \<le> s" "unat n \<le> 2 ^ 20"
  shows "heap_rel (split_block a n (upd_block a (\<lambda>b. b\<lparr>allocated := True\<rparr>) h)) (xs @ carve n a s @ ys)"
    "same_but_hb h (split_block a n (upd_block a (\<lambda>b. b\<lparr>allocated := True\<rparr>) h))"
proof -
  let ?g = "upd_block a (\<lambda>b. b\<lparr>allocated := True\<rparr>) h"
  have ok: "heap_ok h" and c: "coalesced (xs @ (a, s, False) # ys)"
    and r: "rep (hb h) 0 (xs @ (a, s, False) # ys) 0"
    "tiles (unat (heap_start h)) (unat (heap_end h)) (xs @ (a, s, False) # ys)"
    and f: "heap_first h = first_addr (xs @ (a, s, False) # ys) 0"
    using rel by (simp_all add: heap_rel_def heap_shape_def)
  show same: "same_but_hb h (split_block a n ?g)"
    using split_block_fields [of ?g a n] by (simp add: same_but_hb_def)
  have "first_addr (xs @ carve n a s @ ys) 0 = first_addr (xs @ (a, s, False) # ys) 0"
    by (cases xs rule: blk_list_cases) (auto simp: carve_def)
  then show "heap_rel (split_block a n ?g) (xs @ carve n a s @ ys)"
    using split_rep [OF r heap_ok_bounds(1,2) [OF ok] q] same f heap_ok_cong [OF same] ok coalesced_carve [OF c]
    by (simp add: heap_rel_def heap_shape_def same_but_hb_def)
qed

lemma kmalloc_cases [consumes 3, case_names fails fit panic grown]:
  assumes rel: "heap_rel h bs" and n: "n \<noteq> 0" "unat n \<le> 4294967264"
  obtains h' where "kmalloc n h = Some (h', 0)" "heap_rel h' bs" "payload h' = payload h"
      "request (unat n) \<le> 1048576 \<Longrightarrow> \<forall>b\<in>set bs. \<not> fits (request (unat n)) b"
      "request (unat n) \<le> 1048576 \<Longrightarrow>
       unat (heap_max h) < unat (heap_end h) + grown_size (request (unat n)) \<or>
       frames_left (vm_pmm (kvm h)) < 2 * (grown_size (request (unat n)) div 4096)"
    | h' xs a s ys where "kmalloc n h = Some (h', a + 20)" "bs = xs @ (a, s, False) # ys"
      "request (unat n) \<le> unat s" "\<forall>b\<in>set xs. \<not> fits (request (unat n)) b" "request (unat n) \<le> 1048576"
      "heap_rel h' (xs @ carve (of_nat (request (unat n))) a s @ ys)" "payload h' = payload h" "kvm h' = kvm h"
    | "kmalloc n h = None" "frames_left (vm_pmm (kvm h)) < 2 * (grown_size (request (unat n)) div 4096)"
      "\<forall>b\<in>set bs. \<not> fits (request (unat n)) b"
    | h' where "kmalloc n h = Some (h', heap_end h + 20)" "\<forall>b\<in>set bs. \<not> fits (request (unat n)) b"
      "request (unat n) \<le> 1048576"
      "heap_rel h' (bs @ [(heap_end h, of_nat (grown_size (request (unat n))), True)])" "payload h' = payload h"
proof -
  let ?r = "request (unat n)" and ?b = "ALIGN_UP n 8 + sizeof_heap_block"
  have b: "unat ?b = ?r"
    using n(2) by (rule unat_request)
  then have bz: "?b = of_nat ?r"
    by (simp flip: b)
  have sh: "heap_shape h bs" and ok: "heap_ok h" and c: "coalesced bs"
    using rel by (auto simp: heap_rel_def)
  have nz: "0 \<notin> addrs bs"
    using sh heap_ok_bounds [OF ok] tiles_nonzero by (auto simp: heap_shape_def)
  show thesis
  proof (cases "HEAP_MAX_SIZE < ?b")
    case True
    then have "\<not> ?r \<le> 1048576"
      using b by (simp add: HEAP_MAX_SIZE_def word_less_nat_alt)
    with True show thesis
      using that(1) [of h] n rel by (simp add: kmalloc_def)
  next
    case False
    then have r: "?r \<le> 1048576"
      using b by (simp add: HEAP_MAX_SIZE_def word_less_nat_alt)
    have ff: "find_fit (hb h) ?b (heap_first h) =
        Some (map_option fst (find (\<lambda>(a, s, al). \<not> al \<and> ?b \<le> s) bs))"
      using sh find_fit_rep [OF _ nz, of "hb h" 0] by (simp add: heap_shape_def)
    have fit: "(\<lambda>(a, s, al). \<not> al \<and> ?b \<le> s) = fits ?r"
      by (auto simp: fits_def word_le_nat_alt b fun_eq_iff)
    show thesis
    proof (cases "find (fits ?r) bs")
      case (Some blk)
      then obtain xs ys where bs: "bs = xs @ blk # ys" "fits ?r blk" "\<forall>x\<in>set xs. \<not> fits ?r x"
        by (rule find_split)
      obtain a s where blk: "blk = (a, s, False)"
        using bs(2) by (cases blk) (auto simp: fits_def)
      let ?h = "split_block a ?b (upd_block a (\<lambda>b. b\<lparr>allocated := True\<rparr>) h)"
      have k: "kmalloc n h = Some (?h, a + 20)"
        using n(1) False ff Some blk fit by (simp add: kmalloc_def Let_def sizeof_heap_block_def)
      have "20 \<le> unat ?b" "?b \<le> s" "unat ?b \<le> 2 ^ 20"
        using bs(2) blk r request_bounds(1) [of "unat n"] by (simp_all add: fits_def b word_le_nat_alt)
      from place_block [OF _ this, of h xs a ys] rel bs blk
      have "heap_rel ?h (xs @ carve ?b a s @ ys)" "same_but_hb h ?h" by simp_all
      then show thesis
        using that(2) [OF k _ _ bs(3)] bs blk r by (auto simp: bz fits_def same_but_hb_def)
    next
      case None
      then have nf: "\<forall>b\<in>set bs. \<not> fits ?r b"
        by (auto simp: find_None_iff)
      have k: "kmalloc n h = do {
           (h, block) \<leftarrow> expand_heap ?b h;
           if block \<noteq> NULL
           then Some (upd_block block (\<lambda>b. b\<lparr>allocated := True\<rparr>) h, block + sizeof_heap_block)
           else Some (h, NULL) }"
        using n(1) False ff None fit by (simp add: kmalloc_def Let_def)
      have br: "unat ?b \<le> 1048576"
        using b r by simp
      show thesis
        using sh ok br c
      proof (cases rule: expand_heap_cases)
        case (fails h')
        then show thesis
          using that(1) [of h'] k nf by (simp add: b)
      next
        case panic
        then show thesis
          using that(3) k nf by (simp add: b)
      next
        case (grown h')
        let ?e = "heap_end h" and ?z = "of_nat (grown_size (unat ?b)) :: u32"
        let ?g = "upd_block ?e (\<lambda>b. b\<lparr>allocated := True\<rparr>) h'"
        have ne: "?e \<notin> addrs bs"
          using sh tiles_addrs [of _ "unat ?e" bs ?e] by (auto simp: heap_shape_def)
        have "heap_shape ?g (bs @ [(?e, ?z, True)])"
          using grown(4) ne by (auto simp: heap_shape_def tiles_append)
        moreover have "heap_ok ?g"
          using grown(3) by (simp add: heap_ok_def)
        ultimately have "heap_rel ?g (bs @ [(?e, ?z, True)])"
          using c by (simp add: heap_rel_def coalesced_append)
        moreover have "kmalloc n h = Some (?g, ?e + 20)"
          using k grown(1,2) by (simp add: sizeof_heap_block_def)
        ultimately show thesis
          using that(4) [of ?g] grown(5) nf r by (simp add: b)
      qed
    qed
  qed
qed

lemma first_addr_release: "first_addr (release xs a s ys) 0 = first_addr (xs @ (a, s, al) # ys) 0"
proof (cases "xs \<noteq> [] \<and> \<not> snd (snd (last xs))")
  case True
  then obtain zs d u where "xs = zs @ [(d, u, False)]"
    by (rule last_free_cases)
  then show ?thesis
    by (cases "absorb s ys"; cases zs rule: blk_list_cases) (auto simp: release_def)
next
  case False
  then show ?thesis
    by (cases "absorb s ys"; cases xs rule: blk_list_cases) (auto simp: release_def)
qed

lemma block_pointer:
  assumes "heap_rel h bs" "(a, s, al) \<in> set bs"
  shows "unat (a + 20) = unat a + 20" "a + 20 \<noteq> 0" "a + 20 - 20 = a"
proof -
  have "unat a + 20 \<le> unat (heap_end h)"
    using assms tiles_range by (fastforce simp: heap_rel_def heap_shape_def)
  then show u: "unat (a + 20) = unat a + 20"
    using unat32_bound [of "heap_end h"] by (subst unat_add_bounded) auto
  then show "a + 20 \<noteq> 0"
    by auto
qed simp

lemma kfree_release:
  assumes rel: "heap_rel h (xs @ (a, s, True) # ys)"
  obtains h' where "kfree (a + 20) h = Some h'" "heap_rel h' (release xs a s ys)"
    "payload h' = payload h" "kvm h' = kvm h"
proof -
  let ?bs = "xs @ (a, s, True) # ys" and ?g = "upd_block a (\<lambda>b. b\<lparr>allocated := False\<rparr>) h"
  let ?lo = "unat (heap_start h)" and ?hi = "unat (heap_end h)"
  have ok: "heap_ok h" and r: "rep (hb h) 0 ?bs 0" and t: "tiles ?lo ?hi ?bs"
    and f: "heap_first h = first_addr ?bs 0"
    and c: "coalesced xs" "coalesced ys"
  proof -
    have "coalesced ((a, s, True) # ys)"
      using rel by (simp add: heap_rel_def coalesced_append)
    then show "coalesced ys"
      by (cases ys rule: blk_list_cases) auto
  qed (use rel in \<open>simp_all add: heap_rel_def heap_shape_def coalesced_append\<close>)
  have ne: "a \<notin> addrs xs" "a \<notin> addrs ys"
    using tiles_distinct [OF t] by auto
  have r': "rep (hb ?g) 0 (xs @ (a, s, False) # ys) 0" "tiles ?lo ?hi (xs @ (a, s, False) # ys)"
    using r t ne by (auto simp: tiles_append)
  obtain h' where h': "merge_blocks a ?g = Some h'" "same_but_hb ?g h'"
    "rep (hb h') 0 (release xs a s ys) 0" "tiles ?lo ?hi (release xs a s ys)"
    using merge_blocks_release [OF r' heap_ok_bounds(1,2) [OF ok] c] .
  have same: "same_but_hb h h'"
    using h'(2) by (simp add: same_but_hb_def)
  have "kfree (a + 20) h = Some h'"
    using r h'(1) block_pointer(2) [OF rel, of a s True]
    by (simp add: kfree_def Let_def sizeof_heap_block_def)
  moreover have "heap_rel h' (release xs a s ys)"
    using h'(3,4) same heap_ok_cong [OF same] ok coalesced_release [OF c] f first_addr_release [of xs a s ys True]
    by (simp add: heap_rel_def heap_shape_def same_but_hb_def)
  ultimately show thesis
    using same by (intro that [of h']) (simp_all add: same_but_hb_def)
qed

text \<open>The areas handed out and not yet released: pointer and usable size.\<close>

definition live_map :: "blk list \<Rightarrow> addr \<rightharpoonup> nat" where
  "live_map bs = map_of (map (\<lambda>(a, s, al). (a + 20, unat s - 20)) (filter (\<lambda>(a, s, al). al) bs))"

lemma live_map_iff:
  assumes "distinct (map fst bs)"
  shows "live_map bs p = Some m \<longleftrightarrow> (\<exists>s. (p - 20, s, True) \<in> set bs \<and> m = unat s - 20)"
proof -
  have "distinct (map fst (filter (\<lambda>(a, s, al). al) bs))"
    using assms by (rule distinct_map_filter)
  then have "distinct (map (\<lambda>a. a + 20) (map fst (filter (\<lambda>(a, s, al). al) bs)))"
    by (subst distinct_map) (auto simp: inj_on_def)
  then have "distinct (map fst (map (\<lambda>(a, s, al). (a + 20, unat s - 20)) (filter (\<lambda>(a, s, al). al) bs)))"
    by (simp add: o_def case_prod_unfold)
  then show ?thesis
    by (force simp: live_map_def map_of_eq_Some_iff image_iff)
qed

lemma map_eqI: "(\<And>p m. f p = Some m \<longleftrightarrow> g p = Some m) \<Longrightarrow> f = g"
  by (rule ext) (metis option.exhaust)

lemma absorb_allocated: "(b, t, True) \<in> set (snd (absorb s ys)) \<longleftrightarrow> (b, t, True) \<in> set ys"
  by (cases "(s, ys)" rule: absorb.cases) auto

lemma release_allocated: "(b, t, True) \<in> set (release xs a s ys) \<longleftrightarrow> (b, t, True) \<in> set xs \<union> set ys"
proof -
  have ab: "(b, t, True) \<in> set (snd (absorb s ys)) \<longleftrightarrow> (b, t, True) \<in> set ys"
    by (rule absorb_allocated)
  show ?thesis
  proof (cases "xs \<noteq> [] \<and> \<not> snd (snd (last xs))")
    case True
    then obtain zs d u where "xs = zs @ [(d, u, False)]"
      by (rule last_free_cases)
    with ab show ?thesis
      by (cases "absorb s ys") (auto simp: release_def)
  next
    case False
    with ab show ?thesis
      by (cases "absorb s ys") (auto simp: release_def)
  qed
qed

definition heap_live :: "kheap \<Rightarrow> (addr \<rightharpoonup> nat) \<Rightarrow> bool" where
  "heap_live h L \<longleftrightarrow> (\<exists>bs. heap_rel h bs \<and> L = live_map bs)"

lemma heap_rel_distinct: "heap_rel h bs \<Longrightarrow> distinct (map fst bs)"
  by (auto simp: heap_rel_def heap_shape_def intro: tiles_distinct)

lemma live_map_iff_rel:
  "heap_rel h bs \<Longrightarrow> live_map bs p = Some m \<longleftrightarrow> (\<exists>s. (p - 20, s, True) \<in> set bs \<and> m = unat s - 20)"
  by (simp add: live_map_iff heap_rel_distinct)

lemma tiles_disjoint:
  "tiles lo hi bs \<Longrightarrow> (a, s, al) \<in> set bs \<Longrightarrow> (b, t, bl) \<in> set bs \<Longrightarrow> a \<noteq> b \<Longrightarrow>
   unat a + unat s \<le> unat b \<or> unat b + unat t \<le> unat a"
proof (induction lo hi bs rule: tiles.induct)
  case (2 lo hi c u cl bs)
  then show ?case
    using tiles_range [of "lo + unat u" hi bs] by auto
qed simp

section \<open>The interface to the rest of the kernel\<close>

text \<open>
  \<open>live s L\<close> says that in state \<open>s\<close> the areas handed out are those of the finite map \<open>L\<close> from
  pointers to usable sizes.
\<close>

locale kernel_allocator =
  fixes alloc :: "u32 \<Rightarrow> 's \<Rightarrow> ('s \<times> addr) option"
    and free :: "addr \<Rightarrow> 's \<Rightarrow> 's option"
    and live :: "'s \<Rightarrow> (addr \<rightharpoonup> nat) \<Rightarrow> bool"
  assumes alloc_fails: "live s L \<Longrightarrow> unat n \<le> 1048576 \<Longrightarrow> alloc n s = Some (s', 0) \<Longrightarrow> live s' L"
    and alloc_new: "live s L \<Longrightarrow> unat n \<le> 1048576 \<Longrightarrow> alloc n s = Some (s', p) \<Longrightarrow> p \<noteq> 0 \<Longrightarrow>
      \<exists>m. unat n \<le> m \<and> L p = None \<and> live s' (L(p \<mapsto> m))"
    and free_live: "live s L \<Longrightarrow> L p = Some m \<Longrightarrow> \<exists>s'. free p s = Some s' \<and> live s' (L(p := None))"
    and live_range: "live s L \<Longrightarrow> L p = Some m \<Longrightarrow> 0 < unat p \<and> unat p + m < 2 ^ 32"
    and live_disjoint: "live s L \<Longrightarrow> L p = Some m \<Longrightarrow> L q = Some k \<Longrightarrow> p \<noteq> q \<Longrightarrow>
      unat p + m \<le> unat q \<or> unat q + k \<le> unat p"
begin

lemma live_not_null: "live s L \<Longrightarrow> L 0 = None"
  using live_range [of s L 0] by (cases "L 0") auto

lemma alloc_then_free:
  assumes "live s L" "unat n \<le> 1048576" "alloc n s = Some (s', p)" "p \<noteq> 0"
  shows "\<exists>s''. free p s' = Some s'' \<and> live s'' L"
proof -
  obtain m where m: "L p = None" "live s' (L(p \<mapsto> m))"
    using alloc_new [OF assms] by blast
  with free_live [OF m(2), of p m] show ?thesis
    by (auto simp: fun_upd_idem)
qed

lemma alloc_keeps_others:
  assumes "live s L" "unat n \<le> 1048576" "alloc n s = Some (s', p)" "L q = Some k"
  shows "\<exists>L'. live s' L' \<and> L' q = Some k \<and> q \<noteq> p"
proof (cases "p = 0")
  case True
  with assms alloc_fails live_not_null show ?thesis
    by (metis option.distinct(1))
next
  case False
  with alloc_new [OF assms(1-3)] assms(4) show ?thesis
    by (metis fun_upd_apply option.distinct(1))
qed

lemma alloc_disjoint:
  assumes "live s L" "unat n \<le> 1048576" "alloc n s = Some (s', p)" "p \<noteq> 0" "L q = Some k"
  shows "unat p + unat n \<le> unat q \<or> unat q + k \<le> unat p"
proof -
  obtain m where m: "unat n \<le> m" "L p = None" "live s' (L(p \<mapsto> m))"
    using alloc_new [OF assms(1-4)] by blast
  with assms(5) live_disjoint [OF m(3), of p m q k] show ?thesis
    by (cases "p = q") auto
qed

end

lemma heap_alloc_new:
  assumes rel: "heap_rel h bs" and n: "unat n \<le> 1048576" and k: "kmalloc n h = Some (h', p)" and p: "p \<noteq> 0"
  obtains bs' m where "unat n \<le> m" "live_map bs p = None" "heap_rel h' bs'"
    "live_map bs' = (live_map bs)(p \<mapsto> m)"
proof -
  have n0: "n \<noteq> 0"
    using k p by (auto simp: kmalloc_def)
  have le: "unat n \<le> 4294967264"
    using n by simp
  let ?r = "request (unat n)"
  note rb = request_bounds [of "unat n"]
  show thesis
    using rel n0 le
  proof (cases rule: kmalloc_cases)
    case (fails g)
    with k p show thesis by simp
  next
    case panic
    with k show thesis by simp
  next
    case (fit g xs a s ys)
    let ?bs = "xs @ carve (of_nat ?r) a s @ ys"
    have e: "g = h'" "p = a + 20"
      using fit(1) k by auto
    have rel': "heap_rel h' ?bs"
      using fit(6) e by simp
    have a: "a \<notin> addrs xs" "a \<notin> addrs ys"
      using heap_rel_distinct [OF rel] fit(2) by auto
    define t0 where "t0 = (if unat s < ?r + 36 then s else of_nat ?r)"
    have ur: "unat (of_nat ?r :: u32) = ?r"
      using fit(5) by (simp add: unat_of_nat)
    have in_bs: "(b, t, True) \<in> set ?bs \<longleftrightarrow> (b, t, True) \<in> set bs \<or> b = a \<and> t = t0" for b t
      using fit(2) by (auto simp: carve_def t0_def ur)
    have "live_map bs p = None"
    proof (rule ccontr)
      assume "live_map bs p \<noteq> None"
      then obtain t where "(a, t, True) \<in> set bs"
        using live_map_iff_rel [OF rel, of p] e by auto
      with fit(2) a show False by force
    qed
    moreover have "live_map ?bs = (live_map bs)(p \<mapsto> unat t0 - 20)"
    proof (rule map_eqI)
      fix q j
      show "live_map ?bs q = Some j \<longleftrightarrow> ((live_map bs)(p \<mapsto> unat t0 - 20)) q = Some j"
        unfolding live_map_iff_rel [OF rel'] in_bs fun_upd_apply
        using live_map_iff_rel [OF rel, of q j] \<open>live_map bs p = None\<close> e
        by (cases "q = p") auto
    qed
    moreover have "unat n \<le> unat t0 - 20"
      using rb fit(3) by (auto simp: t0_def ur)
    ultimately show thesis
      using rel' by (intro that)
  next
    case (grown g)
    let ?z = "grown_size ?r" and ?e = "heap_end h"
    let ?bs = "bs @ [(?e, of_nat ?z, True)]"
    have e: "g = h'" "p = ?e + 20"
      using grown(1) k by auto
    have rel': "heap_rel h' ?bs"
      using grown(4) e by simp
    have zb: "?r + 20 \<le> ?z" "unat (of_nat ?z :: u32) = ?z"
      using grown_size_bounds [OF grown(3)] by (auto simp: unat_of_nat)
    have "?e \<notin> addrs bs"
      using heap_rel_distinct [OF rel'] by auto
    then have "live_map bs p = None"
      using live_map_iff_rel [OF rel, of p] e by (cases "live_map bs p") force+
    moreover have "live_map ?bs = (live_map bs)(p \<mapsto> ?z - 20)"
    proof (rule map_eqI)
      fix q j
      show "live_map ?bs q = Some j \<longleftrightarrow> ((live_map bs)(p \<mapsto> ?z - 20)) q = Some j"
        unfolding live_map_iff_rel [OF rel'] fun_upd_apply
        using live_map_iff_rel [OF rel, of q j] \<open>live_map bs p = None\<close> e zb(2)
        by (cases "q = p") (auto simp: diff_eq_eq)
    qed
    moreover have "unat n \<le> ?z - 20"
      using rb zb(1) by simp
    ultimately show thesis
      using rel' by (intro that)
  qed
qed

interpretation kheap: kernel_allocator kmalloc kfree heap_live
proof (unfold_locales, goal_cases)
  case (1 h L n h')
  then obtain bs where bs: "heap_rel h bs" "L = live_map bs"
    by (auto simp: heap_live_def)
  show ?case
  proof (cases "n = 0")
    case True
    with 1 show ?thesis by (simp add: kmalloc_def)
  next
    case False
    have le: "unat n \<le> 4294967264"
      using 1(2) by simp
    show ?thesis
      using bs(1) False le
    proof (cases rule: kmalloc_cases)
      case (fails g)
      with 1(3) bs show ?thesis by (auto simp: heap_live_def)
    next
      case (fit g xs a s ys)
      with 1(3) block_pointer(2) [OF bs(1), of a s False] show ?thesis by simp
    next
      case panic
      with 1(3) show ?thesis by simp
    next
      case (grown g)
      then have "heap_end h + 20 \<noteq> 0"
        using block_pointer(2) [OF grown(4)] by auto
      with grown(1) 1(3) show ?thesis by simp
    qed
  qed
next
  case (2 h L n h' p)
  then obtain bs where bs: "heap_rel h bs" "L = live_map bs"
    by (auto simp: heap_live_def)
  show ?case
    using heap_alloc_new [OF bs(1) 2(2-4)] bs(2) unfolding heap_live_def by metis
next
  case (3 h L p m)
  then obtain bs where bs: "heap_rel h bs" "L = live_map bs"
    by (auto simp: heap_live_def)
  then obtain s where s: "(p - 20, s, True) \<in> set bs"
    using 3(2) live_map_iff_rel [OF bs(1)] by auto
  then obtain xs ys where xy: "bs = xs @ (p - 20, s, True) # ys"
    by (meson split_list)
  obtain h' where h': "kfree (p - 20 + 20) h = Some h'" "heap_rel h' (release xs (p - 20) s ys)"
    using kfree_release bs(1) xy by metis
  have "p - 20 \<notin> addrs xs" "p - 20 \<notin> addrs ys"
    using heap_rel_distinct [OF bs(1)] xy by auto
  then have nx: "(p - 20, t, True) \<notin> set xs" "(p - 20, t, True) \<notin> set ys" for t
    by force+
  have "live_map (release xs (p - 20) s ys) = L(p := None)"
    unfolding bs(2)
  proof (rule map_eqI)
    fix q j
    show "live_map (release xs (p - 20) s ys) q = Some j \<longleftrightarrow> ((live_map bs)(p := None)) q = Some j"
      using live_map_iff_rel [OF h'(2), of q j] live_map_iff_rel [OF bs(1), of q j] nx xy
      by (cases "q = p") (simp_all add: release_allocated)
  qed
  with h' show ?case
    by (auto simp: heap_live_def)
next
  case (4 h L p m)
  then obtain bs s where bs: "heap_rel h bs" "(p - 20, s, True) \<in> set bs" "m = unat s - 20"
    by (auto simp: heap_live_def live_map_iff_rel)
  then show ?case
    using block_pointer(1) [OF bs(1,2)] tiles_range [of _ _ bs "p - 20" s True] unat32_bound [of "heap_end h"]
    by (fastforce simp: heap_rel_def heap_shape_def)
next
  case (5 h L p m q k)
  then obtain bs s t where bs: "heap_rel h bs" "(p - 20, s, True) \<in> set bs" "m = unat s - 20"
    "(q - 20, t, True) \<in> set bs" "k = unat t - 20"
    by (auto simp: heap_live_def live_map_iff_rel)
  then have "unat (p - 20) + unat s \<le> unat (q - 20) \<or> unat (q - 20) + unat t \<le> unat (p - 20)"
    "20 \<le> unat s" "20 \<le> unat t"
    using tiles_disjoint [of _ _ bs "p - 20" s True "q - 20" t True] 5(4) tiles_range [of _ _ bs]
    by (auto simp: heap_rel_def heap_shape_def)
  then show ?case
    using block_pointer(1) [OF bs(1,2)] block_pointer(1) [OF bs(1,4)] bs(3,5) by auto
qed

end
