(* ===== verification/Kheap_Spec.thy ===== *)
theory Kheap_Spec
  imports Kheap
begin

text \<open>
  What the kernel heap of theory \<open>Kheap\<close> guarantees: allocation as a function on the list of blocks
  (\<open>alloc_list\<close>), the bytes of live areas and the frames behind them, double frees, the integrity
  check and the statistics, resizing, and the state that \<^verbatim>\<open>kmalloc_init\<close> leaves.
\<close>

section \<open>The operations as functions on the list of blocks\<close>

fun alloc_list :: "nat \<Rightarrow> blk list \<Rightarrow> (addr \<times> blk list) option" where
  "alloc_list n [] = None"
| "alloc_list n ((a, s, al) # bs) =
     (if fits n (a, s, al) then Some (a + 20, carve (of_nat n) a s @ bs)
      else map_option (\<lambda>(p, bs'). (p, (a, s, al) # bs')) (alloc_list n bs))"

lemma alloc_list_split:
  "\<forall>b\<in>set xs. \<not> fits n b \<Longrightarrow> fits n (a, s, al) \<Longrightarrow>
   alloc_list n (xs @ (a, s, al) # ys) = Some (a + 20, xs @ carve (of_nat n) a s @ ys)"
  by (induction xs) auto

lemma alloc_list_None: "alloc_list n bs = None \<longleftrightarrow> (\<forall>b\<in>set bs. \<not> fits n b)"
  by (induction n bs rule: alloc_list.induct) auto

lemma alloc_list_Some:
  assumes "alloc_list n bs = Some (p, bs')"
  obtains xs a s ys where "bs = xs @ (a, s, False) # ys" "\<forall>b\<in>set xs. \<not> fits n b" "n \<le> unat s"
    "p = a + 20" "bs' = xs @ carve (of_nat n) a s @ ys"
proof -
  have "find (fits n) bs \<noteq> None"
    using assms alloc_list_None [of n bs] by (auto simp: find_None_iff)
  then obtain b where "find (fits n) bs = Some b" by blast
  then obtain xs ys where b: "bs = xs @ b # ys" "fits n b" "\<forall>x\<in>set xs. \<not> fits n x"
    by (rule find_split)
  obtain a s where "b = (a, s, False)"
    using b(2) by (cases b) (auto simp: fits_def)
  then show thesis
    using that [of xs a s ys] b assms alloc_list_split [of xs n a s False ys] by (auto simp: fits_def)
qed

lemma release_carve:
  assumes "coalesced (xs @ (a, s, False) # ys)" "n \<le> s"
  shows "carve n a s = [(a, s, True)] \<Longrightarrow> release xs a s ys = xs @ (a, s, False) # ys"
    "release xs a n ((a + n, s - n, False) # ys) = xs @ (a, s, False) # ys"
proof -
  have x: "\<not> (xs \<noteq> [] \<and> \<not> snd (snd (last xs)))"
    using assms(1) by (auto simp: coalesced_append)
  have y: "absorb s ys = (s, ys)"
    using assms(1) by (cases "(s, ys)" rule: absorb.cases) (auto simp: coalesced_append)
  show "carve n a s = [(a, s, True)] \<Longrightarrow> release xs a s ys = xs @ (a, s, False) # ys"
    using x y by (auto simp: release_def)
  show "release xs a n ((a + n, s - n, False) # ys) = xs @ (a, s, False) # ys"
    using x by (auto simp: release_def)
qed

lemma kmalloc_fit:
  assumes "heap_rel h bs" "n \<noteq> 0" "request (unat n) \<le> 1048576"
    "alloc_list (request (unat n)) bs = Some (p, bs')"
  obtains h' where "kmalloc n h = Some (h', p)" "heap_rel h' bs'" "payload h' = payload h"
proof -
  have le: "unat n \<le> 4294967264"
    using assms(3) request_bounds(1) [of "unat n"] by simp
  have ex: "\<not> (\<forall>b\<in>set bs. \<not> fits (request (unat n)) b)"
    using assms(4) alloc_list_None [of "request (unat n)" bs] by auto
  show thesis
    using assms(1,2) le
  proof (cases rule: kmalloc_cases)
    case (fit g xs a s ys)
    then have "alloc_list (request (unat n)) bs = Some (a + 20, xs @ carve (of_nat (request (unat n))) a s @ ys)"
      using alloc_list_split [of xs _ a s False ys] by (simp add: fits_def)
    with fit assms(4) show thesis
      by (intro that [of g]) auto
  qed (use assms(3) ex in blast)+
qed

text \<open>When the heap has room and frames are left, an allocation of at most one megabyte succeeds.\<close>

definition can_grow :: "nat \<Rightarrow> kheap \<Rightarrow> bool" where
  "can_grow n h \<longleftrightarrow> unat (heap_end h) + grown_size (request n) \<le> unat (heap_max h) \<and>
     2 * (grown_size (request n) div 4096) \<le> frames_left (vm_pmm (kvm h))"

lemma kmalloc_grow:
  assumes rel: "heap_rel h bs" and n: "n \<noteq> 0" "request (unat n) \<le> 1048576"
    and none: "alloc_list (request (unat n)) bs = None" and room: "can_grow (unat n) h"
  obtains h' where "kmalloc n h = Some (h', heap_end h + 20)"
    "heap_rel h' (bs @ [(heap_end h, of_nat (grown_size (request (unat n))), True)])"
proof -
  have le: "unat n \<le> 4294967264"
    using n(2) request_bounds(1) [of "unat n"] by simp
  show thesis
    using rel n(1) le
  proof (cases rule: kmalloc_cases)
    case (fit g xs a s ys)
    then have "fits (request (unat n)) (a, s, False)" "(a, s, False) \<in> set bs"
      by (auto simp: fits_def)
    with none show thesis
      by (auto simp: alloc_list_None)
  qed (use that n(2) room in \<open>auto simp: can_grow_def\<close>)
qed

section \<open>The bytes of the live areas\<close>

lemma walk_offset:
  assumes "mmu_walk m w = Some a"
  shows "unat a mod 4096 = unat w mod 4096"
proof -
  obtain e where "a = pte_get_addr e + PAGE_OFFSET w"
    using assms by (auto simp: mmu_walk_def Let_def split: if_splits)
  moreover obtain k where k: "unat (pte_get_addr e) = 4096 * k"
    using page_base_get_addr(2) [of e] by (auto simp: page_base_nat elim: dvdE)
  ultimately have "unat a = 4096 * k + unat w mod 4096"
    using unat32_bound [of "pte_get_addr e"] by (simp add: unat_add_bounded unat_PAGE_OFFSET)
  then show ?thesis
    by simp
qed

lemma live_byte:
  assumes "heap_live h L" "L p = Some m" "i < m"
  shows "unat (p + of_nat i) = unat p + i" "unat (heap_start h) \<le> unat (p + of_nat i)"
    "unat (p + of_nat i) < unat (heap_end h)"
proof -
  obtain bs s where bs: "heap_rel h bs" "(p - 20, s, True) \<in> set bs" "m = unat s - 20"
    using assms(1,2) by (auto simp: heap_live_def live_map_iff_rel)
  have r: "unat (heap_start h) \<le> unat (p - 20)" "unat (p - 20) + unat s \<le> unat (heap_end h)"
    using bs tiles_range by (fastforce simp: heap_rel_def heap_shape_def)+
  have p: "unat p = unat (p - 20) + 20"
    using block_pointer(1) [OF bs(1,2)] by simp
  have i: "unat (of_nat i :: u32) = i"
    using assms(3) bs(3) unat32_bound [of s] by (simp add: unat_of_nat)
  show u: "unat (p + of_nat i) = unat p + i"
    using p r(2) assms(3) bs(3) unat32_bound [of "heap_end h"] by (subst unat_add_bounded) (auto simp: i)
  show "unat (heap_start h) \<le> unat (p + of_nat i)" "unat (p + of_nat i) < unat (heap_end h)"
    using p r assms(3) bs(3) by (simp_all add: u)
qed

lemma heap_live_backed: "heap_live h L \<Longrightarrow> backed (kvm h) (unat (heap_start h)) (unat (heap_end h))"
  by (auto simp: heap_live_def heap_rel_def heap_ok_def)

section \<open>Properties\<close>

text \<open>
  Three concrete heaps at 0xD0000000 on the machine of the previous theory: empty, with one page in
  use, and with one free page.
\<close>

definition demo_heap0 :: kheap where
  "demo_heap0 = \<lparr>kvm = demo_vm, hb = (\<lambda>_. new_header 0), payload = (\<lambda>_. 0), heap_start = 0xD0000000,
     heap_end = 0xD0000000, heap_max = 0xD0100000, heap_first = 0\<rparr>"

definition demo_heap1 :: kheap where "demo_heap1 = fst (the (kmalloc 40 demo_heap0))"

definition demo_heap2 :: kheap where "demo_heap2 = the (kfree 0xD0000014 demo_heap1)"

lemma demo_heap0_rel: "heap_rel demo_heap0 []"
  using demo_vm_facts(1) backed_empty
  by (simp add: heap_rel_def heap_shape_def heap_ok_def demo_heap0_def page_base_def word_le_nat_alt)

lemma demo_heap1_rel: "kmalloc 40 demo_heap0 = Some (demo_heap1, 0xD0000014)"
  "heap_rel demo_heap1 [(0xD0000000, 4096, True)]"
proof -
  have e: "request 40 = 60" "grown_size 60 = 4096"
    by (simp_all add: request_def grown_size_def)
  have g: "can_grow 40 demo_heap0"
    using demo16_inv(2) demo_vm_facts(3) by (simp add: can_grow_def e demo_heap0_def)
  have e0: "heap_end demo_heap0 = 0xD0000000"
    by (simp add: demo_heap0_def)
  obtain h' where "kmalloc 40 demo_heap0 = Some (h', 0xD0000014)"
    "heap_rel h' [(0xD0000000, 4096, True)]"
    using kmalloc_grow [OF demo_heap0_rel, of 40] g by (auto simp: e e0)
  then show "kmalloc 40 demo_heap0 = Some (demo_heap1, 0xD0000014)"
    "heap_rel demo_heap1 [(0xD0000000, 4096, True)]"
    by (simp_all add: demo_heap1_def)
qed

lemma demo_heap2_rel: "heap_rel demo_heap2 [(0xD0000000, 4096, False)]"
proof -
  obtain h' where "kfree (0xD0000000 + 20) demo_heap1 = Some h'"
    "heap_rel h' (release [] 0xD0000000 4096 [])"
    using kfree_release [of demo_heap1 "[]" "0xD0000000" 4096 "[]"] demo_heap1_rel(2) by auto
  then show ?thesis
    by (simp add: demo_heap2_def release_def)
qed





lemma live_map_single:
  "heap_live demo_heap2 Map.empty" "heap_live demo_heap1 [0xD0000014 \<mapsto> 4076]"
  using demo_heap2_rel demo_heap1_rel(2) by (auto simp: heap_live_def live_map_def)




text \<open>
  \<^bold>\<open>C4.\<close> Allocating from a free block and releasing the area again restores the list of blocks exactly:
  the remainder that \<^verbatim>\<open>split_block\<close> cut off is merged back.
\<close>

theorem kmalloc_kfree_restores:
  assumes "heap_rel h bs" "n \<noteq> 0" "request (unat n) \<le> 1048576"
    "alloc_list (request (unat n)) bs = Some (p, bs')"
  shows "\<exists>h' h''. kmalloc n h = Some (h', p) \<and> kfree p h' = Some h'' \<and> heap_rel h'' bs \<and>
    payload h'' = payload h"
proof -
  let ?r = "of_nat (request (unat n)) :: u32"
  obtain h' where h': "kmalloc n h = Some (h', p)" "heap_rel h' bs'" "payload h' = payload h"
    using kmalloc_fit [OF assms] .
  obtain xs a s ys where b: "bs = xs @ (a, s, False) # ys" "request (unat n) \<le> unat s" "p = a + 20"
    "bs' = xs @ carve ?r a s @ ys"
    using alloc_list_Some [OF assms(4)] by metis
  have c: "coalesced (xs @ (a, s, False) # ys)"
    using assms(1) b(1) by (simp add: heap_rel_def)
  have r: "?r \<le> s"
    using b(2) assms(3) by (simp add: word_le_nat_alt unat_of_nat)
  note undo = release_carve [OF c r]
  show ?thesis
  proof (cases "carve ?r a s = [(a, s, True)]")
    case True
    obtain h'' where "kfree (a + 20) h' = Some h''" "heap_rel h'' (release xs a s ys)" "payload h'' = payload h'"
      using kfree_release [of h' xs a s ys] h'(2) b(4) True by auto
    then show ?thesis
      using h' b(1,3) undo(1) [OF True] by auto
  next
    case False
    then have cv: "carve ?r a s = [(a, ?r, True), (a + ?r, s - ?r, False)]"
      by (auto simp: carve_def split: if_splits)
    obtain h'' where "kfree (a + 20) h' = Some h''"
      "heap_rel h'' (release xs a ?r ((a + ?r, s - ?r, False) # ys))" "payload h'' = payload h'"
      using kfree_release [of h' xs a ?r "(a + ?r, s - ?r, False) # ys"] h'(2) b(4) cv by auto
    then show ?thesis
      using h' b(1,3) undo(2) by auto
  qed
qed

theorem kmalloc_kfree_restores_witness:
  "\<exists>h' h''. kmalloc 100 demo_heap2 = Some (h', 0xD0000014) \<and> kfree 0xD0000014 h' = Some h'' \<and>
     heap_rel h'' [(0xD0000000, 4096, False)]"
proof -
  have e: "request 100 = 124"
    by (simp add: request_def)
  have "alloc_list 124 [(0xD0000000, 4096, False)] =
      Some (0xD0000014, [(0xD0000000, 124, True), (0xD000007C, 3972, False)])"
    by (simp add: fits_def carve_def)
  then show ?thesis
    using kmalloc_kfree_restores [OF demo_heap2_rel, of 100 "0xD0000014"] by (auto simp: e)
qed

text \<open>Merging never changes the magic number or the allocation flag of a header.\<close>

definition same_flags :: "kheap \<Rightarrow> kheap \<Rightarrow> bool" where
  "same_flags h h' \<longleftrightarrow> (\<forall>x. allocated (hb h' x) = allocated (hb h x) \<and> magic (hb h' x) = magic (hb h x))"

lemma same_flags_refl [simp]: "same_flags h h"
  by (simp add: same_flags_def)

lemma same_flags_trans: "same_flags h h' \<Longrightarrow> same_flags h' h'' \<Longrightarrow> same_flags h h''"
  by (simp add: same_flags_def)

lemma same_flags_upd:
  "same_flags h g \<Longrightarrow> (\<And>b. allocated (f b) = allocated b \<and> magic (f b) = magic b) \<Longrightarrow>
   same_flags h (upd_block a f g)"
  by (simp add: same_flags_def)

lemma merge_forward_flags: "merge_forward a h = Some h' \<Longrightarrow> same_flags h h'"
proof (induction rule: merge_forward.raw_induct [rotated, consumes 1])
  case (1 mf block h h')
  have IH: "same_flags h h'" if "mf block g = Some h'" "same_flags h g" for g
    using 1(1) [OF that(1)] that(2) by (rule same_flags_trans [rotated])
  show ?case
    using 1(2)
    by (simp add: Let_def split: if_split_asm)
       (erule IH, intro same_flags_upd same_flags_refl; simp)+
qed

lemma merge_blocks_flags: "merge_blocks a h = Some h' \<Longrightarrow> same_flags h h'"
proof (induction rule: merge_blocks.raw_induct [rotated, consumes 1])
  case (1 mb block h h')
  then show ?case
    by (auto split: if_splits simp: bind_eq_Some_conv dest!: merge_forward_flags intro: same_flags_trans)
qed

text \<open>
  \<^bold>\<open>C36.\<close> A double free is detected and harmless: whatever the first \<^verbatim>\<open>kfree\<close> of a pointer did, even
  when its block was merged into a neighbour, a second \<^verbatim>\<open>kfree\<close> right after it changes nothing.
\<close>

theorem kfree_double_free:
  assumes "kfree p h = Some h'"
  shows "kfree p h' = Some h'"
proof (cases "p = 0 \<or> magic (hb h (p - sizeof_heap_block)) \<noteq> HEAP_MAGIC \<or>
    \<not> allocated (hb h (p - sizeof_heap_block))")
  case True
  then have "h' = h"
    using assms by (auto simp: kfree_def Let_def split: if_splits)
  with assms show ?thesis by simp
next
  case False
  then have "merge_blocks (p - sizeof_heap_block)
      (upd_block (p - sizeof_heap_block) (\<lambda>b. b\<lparr>allocated := False\<rparr>) h) = Some h'"
    using assms by (simp add: kfree_def Let_def)
  then have "\<not> allocated (hb h' (p - sizeof_heap_block))"
    using merge_blocks_flags by (fastforce simp: same_flags_def)
  then show ?thesis
    by (simp add: kfree_def Let_def)
qed

theorem kfree_double_free_witness: "kfree 0xD0000014 demo_heap2 = Some demo_heap2"
proof -
  obtain h' where "kfree (0xD0000000 + 20) demo_heap1 = Some h'"
    using kfree_release [of demo_heap1 "[]" "0xD0000000" 4096 "[]"] demo_heap1_rel(2) by auto
  then have "kfree 0xD0000014 demo_heap1 = Some demo_heap2"
    by (simp add: demo_heap2_def)
  then show ?thesis
    by (rule kfree_double_free)
qed

lemma heap_rel_nonzero: "heap_rel h bs \<Longrightarrow> 0 \<notin> addrs bs"
  unfolding heap_rel_def heap_shape_def using tiles_nonzero heap_ok_bounds(1) by blast

text \<open>
  A request close to \<open>2 ^ 32\<close> wraps around when it is rounded up: \<^verbatim>\<open>kmalloc(0xFFFFFFFF)\<close> takes a
  block with room for the header alone and returns the address of the next block's header.
\<close>

theorem kmalloc_request_wraps:
  assumes "heap_rel h (xs @ (a, s, False) # ys)" "\<forall>b\<in>set xs. \<not> fits 20 b" "56 \<le> unat s"
  shows "\<exists>h'. kmalloc 0xFFFFFFFF h = Some (h', a + 20) \<and>
    heap_rel h' (xs @ [(a, 20, True), (a + 20, s - 20, False)] @ ys)"
proof -
  let ?bs = "xs @ (a, s, False) # ys"
  have b: "ALIGN_UP 0xFFFFFFFF 8 + sizeof_heap_block = 20"
    by (simp add: ALIGN_UP_def sizeof_heap_block_def)
  have f: "(\<lambda>(a, s, al). \<not> al \<and> 20 \<le> s) = fits 20"
    by (auto simp: fits_def word_le_nat_alt fun_eq_iff)
  have "find (fits 20) ?bs = Some (a, s, False)"
    using assms(2,3) by (induction xs) (auto simp: fits_def)
  then have ff: "find_fit (hb h) 20 (heap_first h) = Some (Some a)"
    using assms(1) find_fit_rep [OF _ heap_rel_nonzero [OF assms(1)], of "hb h" 0 20]
    by (simp add: heap_rel_def heap_shape_def f)
  let ?h = "split_block a 20 (upd_block a (\<lambda>b. b\<lparr>allocated := True\<rparr>) h)"
  have "kmalloc 0xFFFFFFFF h = Some (?h, a + 20)"
    using ff by (simp add: kmalloc_def b HEAP_MAX_SIZE_def Let_def) (simp add: sizeof_heap_block_def)
  moreover have "carve 20 a s = [(a, 20, True), (a + 20, s - 20, False)]"
    using assms(3) by (simp add: carve_def)
  then have "heap_rel ?h (xs @ [(a, 20, True), (a + 20, s - 20, False)] @ ys)"
    using place_block(1) [OF assms(1), of 20] assms(3) by (simp add: word_le_nat_alt)
  ultimately show ?thesis
    by blast
qed

theorem kmalloc_request_wraps_witness:
  "\<exists>h'. kmalloc 0xFFFFFFFF demo_heap2 = Some (h', 0xD0000014) \<and>
     heap_rel h' [(0xD0000000, 20, True), (0xD0000014, 4076, False)]"
  using kmalloc_request_wraps [of demo_heap2 "[]" "0xD0000000" 4096 "[]"] demo_heap2_rel by auto

section \<open>Auditing the heap\<close>

lemma verify_rep:
  "rep mem p bs 0 \<Longrightarrow> 0 \<notin> addrs bs \<Longrightarrow> \<forall>(a, s, al)\<in>set bs. 20 \<le> unat s \<Longrightarrow>
   count + length bs \<le> 10000 \<Longrightarrow> verify_loop mem (first_addr bs 0) count"
proof (induction bs arbitrary: p count)
  case Nil
  then show ?case
    by (simp add: verify_loop.simps)
next
  case (Cons b bs)
  obtain a s al where b: "b = (a, s, al)" by (cases b)
  have pr: "next_blk (mem a) \<noteq> 0 \<Longrightarrow> prev_blk (mem (next_blk (mem a))) = a"
    using Cons.prems b by (cases bs rule: blk_list_cases) auto
  have "verify_loop mem (first_addr bs 0) (Suc count)"
    using Cons.prems b by (intro Cons.IH) auto
  with Cons.prems b pr show ?case
    by (subst verify_loop.simps) (auto simp: sizeof_heap_block_def word_less_nat_alt)
qed

definition sum_sizes :: "blk list \<Rightarrow> u32" where
  "sum_sizes bs = sum_list (map (\<lambda>(a, s, al). s) bs)"

lemma stats_rep:
  "rep mem p bs 0 \<Longrightarrow> 0 \<notin> addrs bs \<Longrightarrow> \<exists>st'. stats_loop mem (first_addr bs 0) st = Some st' \<and>
     total_size st' = total_size st \<and> num_blocks st' = num_blocks st + of_nat (length bs) \<and>
     used_size st' + free_size st' = used_size st + free_size st + sum_sizes bs"
proof (induction bs arbitrary: p st)
  case Nil
  then show ?case
    by (subst stats_loop.simps) (simp add: sum_sizes_def)
next
  case (Cons b bs)
  obtain a s al where b: "b = (a, s, al)" by (cases b)
  let ?st = "let st = st\<lparr>num_blocks := num_blocks st + 1\<rparr> in
      if al then st\<lparr>used_size := used_size st + s\<rparr>
      else st\<lparr>free_size := free_size st + s, num_free_blocks := num_free_blocks st + 1\<rparr>"
  have "stats_loop mem (first_addr (b # bs) 0) st = stats_loop mem (first_addr bs 0) ?st"
    using Cons.prems b by (subst stats_loop.simps) (auto simp: Let_def)
  moreover obtain st' where "stats_loop mem (first_addr bs 0) ?st = Some st'"
    "total_size st' = total_size ?st" "num_blocks st' = num_blocks ?st + of_nat (length bs)"
    "used_size st' + free_size st' = used_size ?st + free_size ?st + sum_sizes bs"
    using Cons.IH [of a ?st] Cons.prems b by auto
  ultimately show ?case
    using b by (auto simp: Let_def sum_sizes_def ac_simps split: if_splits)
qed

lemma tiles_sum: "tiles lo hi bs \<Longrightarrow> of_nat hi = of_nat lo + sum_sizes bs"
  by (induction lo hi bs rule: tiles.induct) (auto simp: sum_sizes_def ac_simps)

text \<open>
  On a heap that satisfies the invariant the integrity check succeeds (up to its limit of 10000
  blocks) and the statistics add up: used and free bytes together are the size of the heap.
\<close>

theorem kmalloc_heap_audit:
  assumes "heap_rel h bs" "length bs \<le> 10000"
  shows "kmalloc_verify_heap h \<and> (\<exists>st. kmalloc_get_stats h = Some st \<and>
    used_size st + free_size st = total_size st \<and> num_blocks st = of_nat (length bs))"
proof -
  have r: "rep (hb h) 0 bs 0" "heap_first h = first_addr bs 0"
    "tiles (unat (heap_start h)) (unat (heap_end h)) bs"
    using assms(1) by (simp_all add: heap_rel_def heap_shape_def)
  note nz = heap_rel_nonzero [OF assms(1)]
  have "\<forall>(a, s, al)\<in>set bs. 20 \<le> unat s"
    using tiles_range [OF r(3)] by auto
  then have "kmalloc_verify_heap h"
    using verify_rep [OF r(1) nz, of 0] assms(2) r(2) by (simp add: kmalloc_verify_heap_def)
  moreover have "heap_end h - heap_start h = sum_sizes bs"
    using tiles_sum [OF r(3)] by simp
  ultimately show ?thesis
    using stats_rep [OF r(1) nz, of "\<lparr>total_size = heap_end h - heap_start h, used_size = 0,
        free_size = 0, num_blocks = 0, num_free_blocks = 0\<rparr>"] r(2)
    by (auto simp: kmalloc_get_stats_def)
qed

theorem kmalloc_heap_audit_witness:
  "kmalloc_verify_heap demo_heap2 \<and> (\<exists>st. kmalloc_get_stats demo_heap2 = Some st \<and>
     used_size st + free_size st = total_size st \<and> num_blocks st = 1)"
  using kmalloc_heap_audit [OF demo_heap2_rel] by simp

section \<open>Resizing and start-up\<close>

lemma copy_bytes_spec:
  assumes "unat d + n < 2 ^ 32" "unat s + n < 2 ^ 32" "unat d \<le> unat s \<or> unat s + n \<le> unat d"
  shows "copy_bytes n d s mem x =
    (if unat d \<le> unat x \<and> unat x < unat d + n then mem (s + (x - d)) else mem x)"
  using assms
proof (induction n arbitrary: d s mem)
  case 0
  then show ?case by auto
next
  case (Suc n)
  have d1: "unat (d + 1) = unat d + 1" and s1: "unat (s + 1) = unat s + 1"
    using Suc.prems by (simp_all add: unat_add_bounded)
  have IH: "copy_bytes n (d + 1) (s + 1) (mem(d := mem s)) x =
    (if unat (d + 1) \<le> unat x \<and> unat x < unat (d + 1) + n
     then (mem(d := mem s)) (s + 1 + (x - (d + 1))) else (mem(d := mem s)) x)"
    using Suc.prems by (intro Suc.IH) (auto simp: d1 s1)
  have e: "s + 1 + (x - (d + 1)) = s + (x - d)"
    by simp
  have ne: "s + (x - d) \<noteq> d" if "unat d < unat x" "unat x \<le> unat d + n"
  proof -
    have "unat (x - d) = unat x - unat d"
      using that(1) by (simp add: unat_diff_le word_le_nat_alt)
    then have "unat (s + (x - d)) = unat s + (unat x - unat d)"
      using that Suc.prems(2) by (subst unat_add_bounded) auto
    with that Suc.prems(3) show ?thesis
      by (auto simp: unat_inj)
  qed
  have eq: "x = d \<longleftrightarrow> unat x = unat d"
    by (simp add: unat_inj)
  show ?case
    using IH ne eq by (auto simp: d1 e)
qed

lemma get_size_live:
  assumes "heap_live h L" "L p = Some m"
  shows "unat (kmalloc_get_size p h) = m" "p \<noteq> 0"
proof -
  obtain bs s where bs: "heap_rel h bs" "(p - 20, s, True) \<in> set bs" "m = unat s - 20"
    using assms by (auto simp: heap_live_def live_map_iff_rel)
  obtain xs ys where x: "bs = xs @ (p - 20, s, True) # ys"
    using split_list [OF bs(2)] by blast
  have "20 \<le> unat s"
    using bs tiles_range by (fastforce simp: heap_rel_def heap_shape_def)
  then show "unat (kmalloc_get_size p h) = m"
    using bs(1,3) x block_pointer(2) [OF bs(1,2)]
    by (simp add: kmalloc_get_size_def heap_rel_def heap_shape_def sizeof_heap_block_def Let_def
        unat_diff_le word_le_nat_alt)
  show "p \<noteq> 0"
    using block_pointer(2) [OF bs(1,2)] by simp
qed

lemma heap_live_payload [simp]: "heap_live (h\<lparr>payload := f\<rparr>) L = heap_live h L"
  by (simp add: heap_live_def heap_rel_def heap_shape_def heap_ok_def)

lemma kfree_payload: "heap_live h L \<Longrightarrow> L p = Some m \<Longrightarrow> kfree p h = Some h' \<Longrightarrow> payload h' = payload h"
proof -
  assume a: "heap_live h L" "L p = Some m" "kfree p h = Some h'"
  obtain bs s where bs: "heap_rel h bs" "(p - 20, s, True) \<in> set bs"
    using a by (auto simp: heap_live_def live_map_iff_rel)
  obtain xs ys where x: "bs = xs @ (p - 20, s, True) # ys"
    using split_list [OF bs(2)] by blast
  show ?thesis
    using kfree_release [of h xs "p - 20" s ys] bs(1) x a(3) by auto
qed

lemma kmalloc_payload:
  assumes "heap_live h L" "unat n \<le> 1048576" "kmalloc n h = Some (h', p)"
  shows "payload h' = payload h"
proof (cases "n = 0")
  case True
  with assms(3) show ?thesis by (simp add: kmalloc_def)
next
  case False
  obtain bs where bs: "heap_rel h bs"
    using assms(1) by (auto simp: heap_live_def)
  have le: "unat n \<le> 4294967264"
    using assms(2) by simp
  show ?thesis
    using bs False le by (cases rule: kmalloc_cases) (use assms(3) in auto)
qed


definition demo_heap3 :: kheap where "demo_heap3 = fst (the (kmalloc 100 demo_heap2))"

lemma demo_heap3_rel: "heap_rel demo_heap3 [(0xD0000000, 124, True), (0xD000007C, 3972, False)]"
proof -
  have e: "request 100 = 124" "request (unat (100 :: u32)) = 124"
    by (simp_all add: request_def)
  have "alloc_list 124 [(0xD0000000, 4096, False)] =
      Some (0xD0000014, [(0xD0000000, 124, True), (0xD000007C, 3972, False)])"
    by (simp add: fits_def carve_def)
  then obtain h' where "kmalloc 100 demo_heap2 = Some (h', 0xD0000014)"
    "heap_rel h' [(0xD0000000, 124, True), (0xD000007C, 3972, False)]"
    using kmalloc_fit [OF demo_heap2_rel, of 100 "0xD0000014"] by (auto simp: e)
  then show ?thesis
    by (simp add: demo_heap3_def)
qed


text \<open>The first growth of the heap, by 68 KB.\<close>

lemma kmalloc_init_rel:
  assumes "vm_inv (kvm h)" "page_base start" "0 < unat start" "unat start + unat bytes \<le> 4290772992"
    "69632 \<le> unat bytes" "34 \<le> frames_left (vm_pmm (kvm h))"
  obtains h' where "kmalloc_init start bytes h = Some h'" "heap_rel h' [(start, 69632, False)]"
proof -
  let ?h = "h\<lparr>heap_start := start, heap_end := start, heap_max := start + bytes, heap_first := NULL\<rparr>"
  have m: "unat (start + bytes) = unat start + unat bytes"
    using assms(4) by (subst unat_add_bounded) auto
  have g: "grown_size (unat (0x10000 :: u32)) = 69632" "PAGE_SIZE * 16 = 0x10000"
    by (simp_all add: grown_size_def PAGE_SIZE_def)
  have pre: "heap_shape ?h []" "heap_ok ?h" "unat (0x10000 :: u32) \<le> 1048576" "coalesced []"
    using assms(1-4) backed_empty by (simp_all add: heap_shape_def heap_ok_def m word_le_nat_alt)
  from pre show thesis
  proof (cases rule: expand_heap_cases)
    case (fails h')
    then show thesis
      using assms(5,6) m g by simp
  next
    case panic
    then show thesis
      using assms(6) g by simp
  next
    case (grown h')
    then show thesis
      using that [of h'] g by (simp add: kmalloc_init_def heap_rel_def)
  qed
qed

end
