(* ===== verification/Boot.thy ===== *)
theory Boot
  imports Kheap_Spec
begin

text \<open>
  A machine with 128 MB on which \<^verbatim>\<open>pmm_init\<close>, \<^verbatim>\<open>vmm_init\<close> and \<^verbatim>\<open>kmalloc_init\<close> run one after the other, with the page
  tables of the boot loader for which \<^verbatim>\<open>vmm_init\<close> is written: it shows that the invariants of the memory
  management can hold together, and gives a heap with which other theories work on concrete values.  It is
  not what \<^verbatim>\<open>kernel_main\<close> does, which leaves \<^verbatim>\<open>vmm_init\<close> out and starts from the tables of \<^verbatim>\<open>entry.asm\<close>.  The kernel
  ends at \<open>k\<close>, where the bitmap of 4 KB starts; both are in the first 4 MB, which the loader maps.
\<close>

lemma boot_chain:
  assumes "0x100000 \<le> k" "k \<le> 0x3FE000" "page_base start" "0 < start" "unat start \<le> 4273995776"
  shows "\<exists>p v h. pmm_init 0x8000000 0x100000 k p0 = Some p \<and>
    vmm_init k (boot_pages (m\<lparr>vm_pmm := p\<rparr>)) = Some v \<and>
    kmalloc_init start 0x1000000 (h0\<lparr>kvm := v\<rparr>) = Some h \<and> heap_rel h [(start, 69632, False)]"
proof -
  have k: "unat k \<le> 4194304" "1048576 \<le> unat k" "k \<le> 0x500000"
    using assms(1,2) by (auto simp: word_le_nat_alt)
  obtain p where p: "pmm_init 0x8000000 0x100000 k p0 = Some p" "pmm_inv p"
    "unat (total_frames (stats p)) = 32768" "used_set p = {f. f < 32768 \<and> f < boot_frames 0x8000000 k}"
    using pmm_init_ok [of "0x8000000" k "0x100000" p0] k by auto
  have "boot_frames 0x8000000 k = (unat k + 8191) div 4096"
    by (simp add: boot_frames_def PAGE_ALIGN_UP_def PAGE_SIZE_def PAGE_MASK_def)
  then have bf: "257 \<le> boot_frames 0x8000000 k" "boot_frames 0x8000000 k \<le> 1026"
    using k div_le_mono [of 1052672 "unat k + 8191" 4096] div_le_mono [of "unat k + 8191" 4202495 4096] by auto
  have "used_set p = {..<boot_frames 0x8000000 k}"
    using bf by (auto simp: p(4))
  then have u: "zero_reserved p" "{9, 10, 11} \<subseteq> used_set p" "34 \<le> frames_left p"
    using bf p(2,3) by (auto simp: zero_reserved_def frames_left_def)
  obtain v where v: "vmm_init k (boot_pages (m\<lparr>vm_pmm := p\<rparr>)) = Some v" "low_map v" "vm_pmm v = p"
    "recursive v" "present_tables v = {0, 768, 1023}"
    using boot_init_result [OF k(3) assms(1), of "m\<lparr>vm_pmm := p\<rparr>"] by auto
  have "vm_inv v"
    using v u by (intro low_map_inv) auto
  then obtain h where "kmalloc_init start 0x1000000 (h0\<lparr>kvm := v\<rparr>) = Some h" "heap_rel h [(start, 69632, False)]"
    using kmalloc_init_rel [of "h0\<lparr>kvm := v\<rparr>" start "0x1000000"] assms(3-5) u v(3)
    by (auto simp: word_less_nat_alt)
  with p v show ?thesis by blast
qed

lemma boot_heap:
  obtains h where "heap_rel h [(0xD0000000, 69632, False)]"
proof -
  have "\<exists>p v h. pmm_init 0x8000000 0x100000 0x200000 demo_pmm = Some p \<and>
    vmm_init 0x200000 (boot_pages (demo_vm\<lparr>vm_pmm := p\<rparr>)) = Some v \<and>
    kmalloc_init 0xD0000000 0x1000000 (demo_heap0\<lparr>kvm := v\<rparr>) = Some h \<and> heap_rel h [(0xD0000000, 69632, False)]"
    by (rule boot_chain) (simp_all add: page_base_def)
  then show thesis
    using that by blast
qed

end
