(* ===== verification/Div64.thy ===== *)
theory Div64
  imports Prelude "HOL-Library.Signed_Division"
begin

text \<open>
  64-bit division for a 32-bit target.  \<^verbatim>\<open>lib/libgcc_compat.c\<close> is the version the kernel links;
  \<^verbatim>\<open>lib/divdi3.c\<close> is an older one whose definitions carry the suffix \<open>_simple\<close>.  The first is proved
  equal to the mathematical quotient and remainder on all inputs, and the second is shown to be
  wrong for divisors of more than 32 bits.
\<close>

section \<open>The linked version\<close>

text \<open>
  The long division loop: \<open>i\<close> bits of the dividend are left, \<open>q\<close> and \<open>r\<close> are the C variables
  \<open>quotient\<close> and \<open>remainder\<close>.
\<close>

fun div_loop :: "nat \<Rightarrow> u64 \<Rightarrow> u64 \<Rightarrow> u64 \<Rightarrow> u64 \<Rightarrow> u64 \<times> u64" where
  "div_loop 0 dividend divisor q r = (q, r)"
| "div_loop (Suc i) dividend divisor q r =
     (let r = push_bit 1 r OR (drop_bit i dividend AND 1) in
      if r \<ge> divisor then div_loop i dividend divisor (q OR push_bit i 1) (r - divisor)
      else div_loop i dividend divisor q r)"

definition udivdi3 :: "u64 \<Rightarrow> u64 \<Rightarrow> u64" where
  "udivdi3 dividend divisor =
     (if divisor = 0 then 0
      else if divisor > dividend then 0
      else if divisor = dividend then 1
      else if drop_bit 32 dividend = 0 \<and> drop_bit 32 divisor = 0
      then ucast ((ucast dividend :: u32) div (ucast divisor :: u32))
      else fst (div_loop 64 dividend divisor 0 0))"

fun mod_loop :: "nat \<Rightarrow> u64 \<Rightarrow> u64 \<Rightarrow> u64 \<Rightarrow> u64" where
  "mod_loop 0 dividend divisor r = r"
| "mod_loop (Suc i) dividend divisor r =
     (let r = push_bit 1 r OR (drop_bit i dividend AND 1) in
      if r \<ge> divisor then mod_loop i dividend divisor (r - divisor)
      else mod_loop i dividend divisor r)"

definition umoddi3 :: "u64 \<Rightarrow> u64 \<Rightarrow> u64" where
  "umoddi3 dividend divisor =
     (if divisor = 0 then 0
      else if divisor > dividend then dividend
      else if divisor = dividend then 0
      else if drop_bit 32 dividend = 0 \<and> drop_bit 32 divisor = 0
      then ucast ((ucast dividend :: u32) mod (ucast divisor :: u32))
      else mod_loop 64 dividend divisor 0)"

text \<open>Signed operands are the same 64 bits read as two's complement.\<close>

definition divdi3 :: "u64 \<Rightarrow> u64 \<Rightarrow> u64" where
  "divdi3 dividend divisor =
     (if divisor = 0 then 0
      else let sign = (1 :: int);
               udividend = dividend;
               udivisor = divisor;
               (sign, udividend) = (if sint dividend < 0 then (- sign, - dividend) else (sign, udividend));
               (sign, udivisor) = (if sint divisor < 0 then (- sign, - divisor) else (sign, udivisor));
               result = udivdi3 udividend udivisor
           in if sign < 0 then - result else result)"

definition moddi3 :: "u64 \<Rightarrow> u64 \<Rightarrow> u64" where
  "moddi3 dividend divisor =
     (if divisor = 0 then 0
      else let sign = (1 :: int);
               udividend = dividend;
               udivisor = divisor;
               (sign, udividend) = (if sint dividend < 0 then (-1, - dividend) else (sign, udividend));
               udivisor = (if sint divisor < 0 then - divisor else udivisor);
               result = umoddi3 udividend udivisor
           in if sign < 0 then - result else result)"

definition ashldi3 :: "u64 \<Rightarrow> nat \<Rightarrow> u64" where
  "ashldi3 v shift = (if shift \<ge> 64 then 0 else push_bit shift v)"

definition lshrdi3 :: "u64 \<Rightarrow> nat \<Rightarrow> u64" where
  "lshrdi3 v shift = (if shift \<ge> 64 then 0 else drop_bit shift v)"

definition ashrdi3 :: "u64 \<Rightarrow> nat \<Rightarrow> u64" where
  "ashrdi3 v shift = (if shift \<ge> 64 then (if sint v < 0 then - 1 else 0) else signed_drop_bit shift v)"

section \<open>The older version\<close>

definition udivdi3_simple :: "u64 \<Rightarrow> u64 \<Rightarrow> u64" where
  "udivdi3_simple num den =
     (if den = 0 then 0
      else if den \<le> 0xFFFFFFFF then
        let den32 = ucast den :: u32;
            high = ucast (drop_bit 32 num) :: u32;
            low = ucast num :: u32
        in if high = 0 then ucast (low div den32)
           else let q_high = high div den32;
                    r_high = high mod den32;
                    mid = push_bit 32 (ucast r_high :: u64) OR ucast low
                in if drop_bit 32 mid = 0 then
                     let q_low = (ucast mid :: u32) div den32
                     in push_bit 32 (ucast q_high) OR ucast q_low
                   else
                     let mid_high = ucast (drop_bit 32 mid) :: u32;
                         mid_low = ucast mid :: u32;
                         q_mid = mid_high div den32;
                         r_mid = mid_high mod den32;
                         final = push_bit 32 (ucast r_mid :: u64) OR ucast mid_low;
                         q_low = (ucast final :: u32) div den32
                     in push_bit 32 (ucast q_high) OR push_bit 32 (ucast q_mid) OR ucast q_low
      else if num \<ge> den then 1 else 0)"

definition divdi3_simple :: "u64 \<Rightarrow> u64 \<Rightarrow> u64" where
  "divdi3_simple num den =
     (let (sign, num) = (if sint num < 0 then (True, - num) else (False, num));
          (sign, den) = (if sint den < 0 then (\<not> sign, - den) else (sign, den));
          result = udivdi3_simple num den
      in if sign then - result else result)"

definition umoddi3_simple :: "u64 \<Rightarrow> u64 \<Rightarrow> u64" where
  "umoddi3_simple num den = num - udivdi3_simple num den * den"

definition moddi3_simple :: "u64 \<Rightarrow> u64 \<Rightarrow> u64" where
  "moddi3_simple num den =
     (let (sign, num) = (if sint num < 0 then (True, - num) else (False, num));
          den = (if sint den < 0 then - den else den);
          result = umoddi3_simple num den
      in if sign then - result else result)"

section \<open>Long division computes the quotient\<close>

lemma mod_loop_snd: "snd (div_loop i n d q r) = mod_loop i n d r"
  by (induction i n d q r rule: div_loop.induct) (simp_all add: Let_def)

lemma unat64_bound: "unat (n :: u64) < 2 ^ 64"
  using unsigned_less [of n] by simp

lemma unat_drop_bit: "unat (drop_bit i (n :: u64)) = unat n div 2 ^ i"
  using unat64_bound [of n] by (subst unsigned_drop_bit_eq) (simp add: drop_bit_eq_div take_bit_nat_eq_self)

lemma double_add_bit:
  fixes r n :: u64
  assumes "2 * unat r + 1 < 2 ^ 64"
  shows "unat (push_bit 1 r OR (drop_bit i n AND 1)) = 2 * unat r + unat n div 2 ^ i mod 2"
proof -
  have d: "push_bit 1 r OR (drop_bit i n AND 1) = push_bit 1 r + (drop_bit i n AND 1)"
    by (rule disjunctive_add [symmetric]) (auto simp: bit_push_bit_iff bit_and_iff bit_1_iff simp del: push_bit_Suc)
  have p: "unat (push_bit 1 r) = 2 * unat r"
    using assms by (simp add: push_bit_eq_mult unat_mult_bounded)
  have b: "unat (drop_bit i n AND 1) = unat n div 2 ^ i mod 2"
    by (simp only: and_one_eq unat_mod unat_drop_bit) simp
  show ?thesis
    unfolding d by (subst unat_add_bounded; simp only: p b)
      (use assms in \<open>simp_all add: add_less_le_mono less_Suc_eq_le\<close>)
qed


lemma set_quotient_bit:
  fixes q :: u64
  assumes "unat q = Q * 2 ^ Suc i" "i < 64" "Q * 2 ^ Suc i + 2 ^ i < 2 ^ 64"
  shows "unat (q OR push_bit i 1) = (2 * Q + 1) * 2 ^ i"
proof -
  have "even (unat q div 2 ^ i)"
    by (simp add: assms(1))
  then have "\<not> bit q i"
    using assms(2) bit_unsigned_iff [of q i, where 'a = nat] by (simp add: bit_iff_odd)
  then have "q OR push_bit i 1 = q + push_bit i 1"
    by (intro disjunctive_add [symmetric]) (auto simp: bit_simps)
  moreover have p: "unat (push_bit i 1 :: u64) = 2 ^ i"
    using assms(2) power_strict_increasing [of i 64 "2 :: nat"]
    by (subst unsigned_push_bit_eq) (simp add: push_bit_eq_mult take_bit_nat_eq_self)
  moreover have "unat (q + push_bit i 1) = unat q + unat (push_bit i 1 :: u64)"
    using assms(3) by (intro unat_add_bounded) (simp only: p assms(1), simp)
  ultimately show ?thesis
    using assms(1) by (simp only: add_mult_distrib) simp
qed

text \<open>
  The loop invariant: the bits above \<open>i\<close> of the dividend have been divided, the quotient stands in
  the upper bits of \<open>q\<close>, and the remainder is so small that shifting it loses no bit, for every
  divisor.
\<close>

lemma div_loop_correct:
  assumes "i \<le> 64" "unat n div 2 ^ i = Q * unat d + unat r" "unat r < unat d" "unat q = Q * 2 ^ i"
  shows "unat (fst (div_loop i n d q r)) = unat n div unat d \<and>
         unat (snd (div_loop i n d q r)) = unat n mod unat d"
  using assms
proof (induction i n d q r arbitrary: Q rule: div_loop.induct)
  case (1 n d q r)
  then show ?case
    by (simp add: div_eq_bounds)
next
  case (2 i n d q r)
  let ?b = "unat n div 2 ^ i mod 2"
  define r' where "r' = push_bit 1 r OR (drop_bit i n AND 1)"
  have loop: "div_loop (Suc i) n d q r =
      (if d \<le> r' then div_loop i n d (q OR push_bit i 1) (r' - d) else div_loop i n d q r')"
    by (simp only: div_loop.simps Let_def r'_def)
  note IH = "2.IH" [OF refl, folded r'_def]
  have step: "unat n div 2 ^ i = 2 * (unat n div 2 ^ Suc i) + ?b"
    by (simp add: div_mult2_eq mult.commute [of 2])
  have n64: "unat n < 2 ^ 64"
    by (rule unat64_bound)
  have "unat r \<le> unat n div 2 ^ Suc i"
    using 2(4) by simp
  also have "\<dots> \<le> unat n div 2"
    by (simp add: div_le_mono2)
  finally have "unat r \<le> unat n div 2" .
  moreover have "unat n div 2 < 2 ^ 63"
    using n64 by (simp add: less_mult_imp_div_less)
  ultimately have "2 * unat r + 1 < 2 ^ 64"
    by simp
  then have r: "unat r' = 2 * unat r + ?b"
    unfolding r'_def by (rule double_add_bit)
  have dv: "unat n div 2 ^ i = 2 * Q * unat d + unat r'"
    using step 2(4) by (simp add: r algebra_simps)
  have b: "?b \<le> 1"
    by simp
  show ?case
  proof (cases "d \<le> r'")
    case True
    then have s: "unat (r' - d) = unat r' - unat d" and le: "unat d \<le> unat r'"
      by (simp_all add: unat_sub word_le_nat_alt)
    have "2 * Q + 1 \<le> 2 * Q * unat d + unat d"
      using 2(5) by (cases "unat d") auto
    then have "2 * Q + 1 \<le> unat n div 2 ^ i"
      using dv le by linarith
    then have "(2 * Q + 1) * 2 ^ i \<le> unat n"
      by (simp add: less_eq_div_iff_mult_less_eq)
    then have q: "unat (q OR push_bit i 1) = (2 * Q + 1) * 2 ^ i"
      using 2(3,6) n64 by (intro set_quotient_bit) (auto simp: algebra_simps)
    show ?thesis
      unfolding loop if_P [OF True]
    proof (rule IH(1) [where Q = "2 * Q + 1"])
      show "unat n div 2 ^ i = (2 * Q + 1) * unat d + unat (r' - d)"
        using dv s le by (simp add: algebra_simps)
      show "unat (r' - d) < unat d"
        using s r 2(5) le b by linarith
    qed (use True q 2(3) in auto)
  next
    case False
    then have "unat r' < unat d"
      by (simp add: word_le_nat_alt)
    then show ?thesis
      unfolding loop if_not_P [OF False]
      by (intro IH(2) [where Q = "2 * Q"]) (use False 2(3,6) dv in auto)
  qed
qed

text \<open>Both fast paths and the loop agree with the quotient and the remainder of the naturals.\<close>

lemma fast_path:
  fixes n d :: u64
  assumes "drop_bit 32 n = 0"
  shows "unat (ucast n :: u32) = unat n"
proof -
  have "unat n div 2 ^ 32 = 0"
    using assms by (metis unat_drop_bit unat_0)
  then show ?thesis
    by (simp add: unsigned_ucast_eq take_bit_nat_eq_self div_eq_0_iff)
qed

lemma unat_ucast_up: "unat (ucast (x :: u32) :: u64) = unat x"
  using unat32_bound [of x] by (simp add: unsigned_ucast_eq take_bit_nat_eq_self)

lemma unat_div_self: "n \<noteq> 0 \<Longrightarrow> unat (n :: u64) div unat n = Suc 0"
  by (simp add: unat_eq_zero)

lemma div_loop_start:
  "d \<noteq> 0 \<Longrightarrow> unat (fst (div_loop 64 n d 0 0)) = unat n div unat d \<and> unat (mod_loop 64 n d 0) = unat n mod unat d"
  using div_loop_correct [of 64 n 0 d 0 0] unat64_bound [of n]
  by (simp add: mod_loop_snd word_neq_0_conv [symmetric] unat_gt_0)

lemma unat_udivdi3: "unat (udivdi3 n d) = unat n div unat d"
  by (auto simp: udivdi3_def fast_path unat_ucast_up unat_div div_loop_start unat_div_self word_less_nat_alt)

lemma unat_umoddi3: "d \<noteq> 0 \<Longrightarrow> unat (umoddi3 n d) = unat n mod unat d"
  by (auto simp: umoddi3_def fast_path unat_ucast_up unat_mod div_loop_start word_less_nat_alt)


section \<open>The signed operations truncate toward zero\<close>

text \<open>The magnitude of a signed operand, as the code computes it, is exact, the minimum included.\<close>

definition magnitude :: "u64 \<Rightarrow> u64" where
  "magnitude x = (if sint x < 0 then - x else x)"

lemma sint64_cases:
  fixes x :: u64
  shows "sint x = (if uint x < 2 ^ 63 then uint x else uint x - 2 ^ 64)"
proof -
  have x: "uint x < 2 ^ 64" "0 \<le> uint x"
    using uint_lt2p [of x] by auto
  have s: "sint x = (uint x + 2 ^ 63) mod 2 ^ 64 - 2 ^ 63"
    by (simp add: sint_uint signed_take_bit_eq_take_bit_shift take_bit_eq_mod)
  show ?thesis
  proof (cases "uint x < 2 ^ 63")
    case True
    then show ?thesis
      unfolding s using x by (subst mod_pos_pos_trivial) auto
  next
    case False
    have "(uint x + 2 ^ 63) mod 2 ^ 64 = (uint x + 2 ^ 63 - 2 ^ 64) mod 2 ^ 64"
      by (simp only: minus_mod_self2)
    also have "\<dots> = uint x - 2 ^ 63"
      using x False by (subst mod_pos_pos_trivial) auto
    finally show ?thesis
      unfolding s using False by simp
  qed
qed

lemma len64: "LENGTH(64) = 64"
  by simp

lemma uint_magnitude: "uint (magnitude x) = \<bar>sint x\<bar>"
proof -
  have x: "uint x < 2 ^ 64" "0 \<le> uint x"
    using uint_lt2p [of x] by auto
  have "uint (- x) = 2 ^ 64 - uint x" if "uint x > 0"
  proof -
    have "- x = word_of_int (2 ^ 64 - uint x)"
      by simp
    then have "uint (- x) = take_bit 64 (2 ^ 64 - uint x)"
      by (metis uint_word_of_int_eq len64)
    then show ?thesis
      using x that take_bit_int_eq_self [of "2 ^ 64 - uint x" 64] by simp
  qed
  then show ?thesis
    using x by (simp add: magnitude_def sint64_cases)
qed

lemma divdi3_magnitude:
  "b \<noteq> 0 \<Longrightarrow> divdi3 a b =
     (if (sint a < 0) = (sint b < 0) then udivdi3 (magnitude a) (magnitude b)
      else - udivdi3 (magnitude a) (magnitude b))"
  by (simp add: divdi3_def magnitude_def)

lemma moddi3_magnitude:
  "b \<noteq> 0 \<Longrightarrow> moddi3 a b =
     (if sint a < 0 then - umoddi3 (magnitude a) (magnitude b) else umoddi3 (magnitude a) (magnitude b))"
  by (simp add: moddi3_def magnitude_def)

lemma udivdi3_eq_div: "udivdi3 n d = n div d"
  by (simp add: word_unat_eq_iff unat_udivdi3 unat_div)

lemma umoddi3_eq_mod: "d \<noteq> 0 \<Longrightarrow> umoddi3 n d = n mod d"
  by (simp add: word_unat_eq_iff unat_umoddi3 unat_mod)

lemma magnitude_zero: "magnitude x = 0 \<longleftrightarrow> x = 0"
  by (simp add: magnitude_def)

section \<open>Properties\<close>

text \<open>
  \<^bold>\<open>C15.\<close> The kernel's 64-bit division helpers compute C division on all inputs: the unsigned ones
  the quotient and remainder, the signed ones the quotient truncated toward zero and the remainder
  with the sign of the dividend (reduced to 64 bits, which matters only for the minimum divided by
  minus one).
\<close>

theorem libgcc_division_correct:
  assumes "d \<noteq> 0"
  shows "udivdi3 n d = n div d \<and> umoddi3 n d = n mod d \<and>
         divdi3 n d = word_of_int (sint n sdiv sint d) \<and>
         moddi3 n d = word_of_int (sint n smod sint d)"
proof (intro conjI)
  show "udivdi3 n d = n div d" "umoddi3 n d = n mod d"
    using assms by (simp_all add: udivdi3_eq_div umoddi3_eq_mod)
  have q: "udivdi3 (magnitude n) (magnitude d) = word_of_int (\<bar>sint n\<bar> div \<bar>sint d\<bar>)"
    by (simp add: udivdi3_eq_div word_div_def uint_magnitude)
  have m: "umoddi3 (magnitude n) (magnitude d) = word_of_int (\<bar>sint n\<bar> mod \<bar>sint d\<bar>)"
    using assms by (simp add: umoddi3_eq_mod magnitude_zero word_mod_def uint_magnitude)
  have nz: "sint d \<noteq> 0"
    using assms by (simp add: signed_eq_0_iff)
  show "divdi3 n d = word_of_int (sint n sdiv sint d)"
    using assms nz
    by (cases "sint n" "0 :: int" rule: linorder_cases; cases "sint d" "0 :: int" rule: linorder_cases)
      (simp_all add: divdi3_magnitude q signed_divide_int_def sgn_if)
  show "moddi3 n d = word_of_int (sint n smod sint d)"
    using assms nz
    by (cases "sint n" "0 :: int" rule: linorder_cases)
      (simp_all add: moddi3_magnitude m signed_modulo_int_def sgn_if minus_mult_div_eq_mod)
qed

theorem libgcc_division_correct_witness:
  "divdi3 (- 7) 2 = - 3 \<and> moddi3 (- 7) 2 = - 1 \<and> udivdi3 0x600000000 0x200000000 = 3"
  using libgcc_division_correct [of 2 "- 7"] libgcc_division_correct [of "0x200000000" "0x600000000"]
  by (simp add: signed_divide_int_def signed_modulo_int_def)

text \<open>
  The older helper returns one for every quotient above one whose divisor needs more than
  32 bits, so it differs from division there.
\<close>

theorem udivdi3_simple_wrong:
  assumes "d > 0xFFFFFFFF" "uint n \<ge> 2 * uint d"
  shows "udivdi3_simple n d = 1 \<and> n div d > 1"
proof -
  have pos: "uint d > 0"
    using assms(1) by (simp add: word_less_def)
  then have "d \<le> n"
    using assms(2) by (simp add: word_le_def)
  moreover have "2 \<le> uint n div uint d"
    using zdiv_mono1 [OF assms(2) pos] pos by simp
  moreover have "\<not> d \<le> 0xFFFFFFFF" "d \<noteq> 0"
    using assms(1) by auto
  ultimately show ?thesis
    by (simp add: udivdi3_simple_def word_less_def uint_div)
qed

theorem udivdi3_simple_wrong_witness:
  "udivdi3_simple 0x600000000 0x200000000 = 1 \<and> (0x600000000 :: u64) div 0x200000000 > 1"
  by (rule udivdi3_simple_wrong) simp_all

end
