(* ===== verification/Cstring.thy ===== *)
theory Cstring
  imports Kheap_Spec
begin

text \<open>
  The memory and string functions of \<^verbatim>\<open>lib/string.c\<close> over a byte memory.  A \<^verbatim>\<open>while (count--)\<close> loop is
  a recursion on the natural number \<open>unat count\<close>; a loop that runs up to a terminator is a partial
  function whose \<open>None\<close> means that it never ends.  The functions that return their destination
  return here the new memory only.  \<^verbatim>\<open>char\<close> is signed, as it is on i386.
\<close>

type_synonym bytes = "addr \<Rightarrow> u8"

section \<open>Memory\<close>

definition memset :: "addr \<Rightarrow> int \<Rightarrow> u32 \<Rightarrow> bytes \<Rightarrow> bytes" where
  "memset dest val count m = fill_bytes (unat count) dest (word_of_int val) m"

definition memcpy :: "addr \<Rightarrow> addr \<Rightarrow> u32 \<Rightarrow> bytes \<Rightarrow> bytes" where
  "memcpy dest src count m = copy_bytes (unat count) dest src m"

fun copy_down :: "nat \<Rightarrow> addr \<Rightarrow> addr \<Rightarrow> bytes \<Rightarrow> bytes" where
  "copy_down 0 d s m = m"
| "copy_down (Suc n) d s m = copy_down n (d - 1) (s - 1) (m(d - 1 := m (s - 1)))"

definition memmove :: "addr \<Rightarrow> addr \<Rightarrow> u32 \<Rightarrow> bytes \<Rightarrow> bytes" where
  "memmove dest src count m =
     (if dest < src then copy_bytes (unat count) dest src m
      else copy_down (unat count) (dest + count) (src + count) m)"

fun memcmp_loop :: "nat \<Rightarrow> addr \<Rightarrow> addr \<Rightarrow> bytes \<Rightarrow> int" where
  "memcmp_loop 0 p1 p2 m = 0"
| "memcmp_loop (Suc n) p1 p2 m =
     (if m p1 \<noteq> m p2 then uint (m p1) - uint (m p2) else memcmp_loop n (p1 + 1) (p2 + 1) m)"

definition memcmp :: "addr \<Rightarrow> addr \<Rightarrow> u32 \<Rightarrow> bytes \<Rightarrow> int" where
  "memcmp s1 s2 n m = memcmp_loop (unat n) s1 s2 m"

section \<open>Strings\<close>

partial_function (option) strlen_loop :: "bytes \<Rightarrow> addr \<Rightarrow> u32 \<Rightarrow> u32 option" where
  "strlen_loop m str len = (if m (str + len) \<noteq> 0 then strlen_loop m str (len + 1) else Some len)"

definition strlen :: "bytes \<Rightarrow> addr \<Rightarrow> u32 option" where
  "strlen m str = strlen_loop m str 0"

partial_function (option) strcpy :: "addr \<Rightarrow> addr \<Rightarrow> bytes \<Rightarrow> bytes option" where
  "strcpy d src m =
     (let c = m src; m = m(d := c) in if c \<noteq> 0 then strcpy (d + 1) (src + 1) m else Some m)"

text \<open>The two loops of \<^verbatim>\<open>strncpy\<close>: \<open>k\<close> is the number of bytes left, \<open>i\<close> the index.\<close>

fun strncpy_copy :: "nat \<Rightarrow> u32 \<Rightarrow> addr \<Rightarrow> addr \<Rightarrow> bytes \<Rightarrow> nat \<times> u32 \<times> bytes" where
  "strncpy_copy 0 i dest src m = (0, i, m)"
| "strncpy_copy (Suc k) i dest src m =
     (if m (src + i) \<noteq> 0 then strncpy_copy k (i + 1) dest src (m(dest + i := m (src + i)))
      else (Suc k, i, m))"

fun strncpy_pad :: "nat \<Rightarrow> u32 \<Rightarrow> addr \<Rightarrow> bytes \<Rightarrow> bytes" where
  "strncpy_pad 0 i dest m = m"
| "strncpy_pad (Suc k) i dest m = strncpy_pad k (i + 1) dest (m(dest + i := 0))"

definition strncpy :: "addr \<Rightarrow> addr \<Rightarrow> u32 \<Rightarrow> bytes \<Rightarrow> bytes" where
  "strncpy dest src n m =
     (case strncpy_copy (unat n) 0 dest src m of (k, i, m) \<Rightarrow> strncpy_pad k i dest m)"

partial_function (option) strcmp :: "bytes \<Rightarrow> addr \<Rightarrow> addr \<Rightarrow> int option" where
  "strcmp m s1 s2 =
     (if m s1 \<noteq> 0 \<and> m s1 = m s2 then strcmp m (s1 + 1) (s2 + 1)
      else Some (uint (m s1) - uint (m s2)))"

fun strncmp_loop :: "nat \<Rightarrow> bytes \<Rightarrow> addr \<Rightarrow> addr \<Rightarrow> int" where
  "strncmp_loop 0 m s1 s2 = 0"
| "strncmp_loop (Suc n) m s1 s2 =
     (if m s1 \<noteq> 0 \<and> m s1 = m s2 then strncmp_loop n m (s1 + 1) (s2 + 1)
      else uint (m s1) - uint (m s2))"

definition strncmp :: "bytes \<Rightarrow> addr \<Rightarrow> addr \<Rightarrow> u32 \<Rightarrow> int" where
  "strncmp m s1 s2 n = strncmp_loop (unat n) m s1 s2"

partial_function (option) find_end :: "bytes \<Rightarrow> addr \<Rightarrow> addr option" where
  "find_end m d = (if m d \<noteq> 0 then find_end m (d + 1) else Some d)"

definition strcat :: "addr \<Rightarrow> addr \<Rightarrow> bytes \<Rightarrow> bytes option" where
  "strcat dest src m = do { d \<leftarrow> find_end m dest; strcpy d src m }"

text \<open>The loop \<^verbatim>\<open>while (n-- && (*d++ = *src++));\<close> returns the final values of \<open>n\<close> and \<open>d\<close>.\<close>

function strncat_loop :: "u32 \<Rightarrow> addr \<Rightarrow> addr \<Rightarrow> bytes \<Rightarrow> u32 \<times> addr \<times> bytes" where
  "strncat_loop n d src m =
     (if n = 0 then (n - 1, d, m)
      else let c = m src; m = m(d := c) in
           if c \<noteq> 0 then strncat_loop (n - 1) (d + 1) (src + 1) m else (n - 1, d + 1, m))"
  by pat_completeness auto
termination
  by (relation "measure (\<lambda>(n, d, src, m). unat n)") (auto simp: unat_minus_one unat_gt_0)

declare strncat_loop.simps [simp del]

definition strncat :: "addr \<Rightarrow> addr \<Rightarrow> u32 \<Rightarrow> bytes \<Rightarrow> bytes option" where
  "strncat dest src n m =
     do {
       d \<leftarrow> find_end m dest;
       Some (case strncat_loop n d src m of (n, d, m) \<Rightarrow> if n = - 1 then m(d := 0) else m)
     }"

partial_function (option) strchr :: "bytes \<Rightarrow> addr \<Rightarrow> int \<Rightarrow> addr option" where
  "strchr m s c =
     (if m s \<noteq> 0 then if m s = word_of_int c then Some s else strchr m (s + 1) c
      else if c = 0 then Some s else Some NULL)"

partial_function (option) strrchr_loop :: "bytes \<Rightarrow> addr \<Rightarrow> int \<Rightarrow> addr \<Rightarrow> addr option" where
  "strrchr_loop m s c lst =
     (if m s \<noteq> 0 then strrchr_loop m (s + 1) c (if m s = word_of_int c then s else lst)
      else if c = 0 then Some s else Some lst)"

definition strrchr :: "bytes \<Rightarrow> addr \<Rightarrow> int \<Rightarrow> addr option" where
  "strrchr m s c = strrchr_loop m s c NULL"

definition upcase :: "u8 \<Rightarrow> u8" where
  "upcase c = (if sint c \<ge> 97 \<and> sint c \<le> 122 then c - 32 else c)"

partial_function (option) strcasecmp :: "bytes \<Rightarrow> addr \<Rightarrow> addr \<Rightarrow> int option" where
  "strcasecmp m s1 s2 =
     (if m s1 \<noteq> 0 \<and> m s2 \<noteq> 0 then
        let c1 = upcase (m s1); c2 = upcase (m s2) in
        if c1 \<noteq> c2 then Some (sint c1 - sint c2) else strcasecmp m (s1 + 1) (s2 + 1)
      else Some (sint (m s1) - sint (m s2)))"

definition strdup :: "addr \<Rightarrow> kheap \<Rightarrow> (kheap \<times> addr) option" where
  "strdup s h =
     (if s = NULL then Some (h, NULL)
      else do {
        n \<leftarrow> strlen (payload h) s;
        let len = n + 1;
        (h, new_str) \<leftarrow> kmalloc len h;
        if new_str = NULL then Some (h, NULL)
        else Some (h\<lparr>payload := memcpy new_str s len (payload h)\<rparr>, new_str)
      })"

section \<open>Tokens\<close>

text \<open>\<^verbatim>\<open>strtok\<close> threads the static pointer \<open>strtok_saveptr\<close>; the third component is the result.\<close>

partial_function (option) skip_delims :: "bytes \<Rightarrow> addr \<Rightarrow> addr \<Rightarrow> addr option" where
  "skip_delims m delim p =
     (if m p \<noteq> 0 then Option.bind (strchr m delim (sint (m p)))
        (\<lambda>q. if q \<noteq> NULL then skip_delims m delim (p + 1) else Some p)
      else Some p)"

partial_function (option) skip_token :: "bytes \<Rightarrow> addr \<Rightarrow> addr \<Rightarrow> addr option" where
  "skip_token m delim p =
     (if m p \<noteq> 0 then Option.bind (strchr m delim (sint (m p)))
        (\<lambda>q. if q = NULL then skip_token m delim (p + 1) else Some p)
      else Some p)"

definition strtok :: "addr \<Rightarrow> addr \<Rightarrow> bytes \<Rightarrow> addr \<Rightarrow> (bytes \<times> addr \<times> addr) option" where
  "strtok str delim m strtok_saveptr =
     (let strtok_saveptr = (if str \<noteq> NULL then str else strtok_saveptr) in
      if strtok_saveptr = NULL then Some (m, strtok_saveptr, NULL)
      else do {
        strtok_saveptr \<leftarrow> skip_delims m delim strtok_saveptr;
        if m strtok_saveptr = 0 then Some (m, NULL, NULL)
        else do {
          let token_start = strtok_saveptr;
          strtok_saveptr \<leftarrow> skip_token m delim strtok_saveptr;
          if m strtok_saveptr \<noteq> 0 then Some (m(strtok_saveptr := 0), strtok_saveptr + 1, token_start)
          else Some (m, NULL, token_start)
        }
      })"

section \<open>Character classes\<close>

definition toupper :: "int \<Rightarrow> int" where "toupper c = (if c \<ge> 97 \<and> c \<le> 122 then c - 32 else c)"
definition tolower :: "int \<Rightarrow> int" where "tolower c = (if c \<ge> 65 \<and> c \<le> 90 then c + 32 else c)"
definition islower :: "int \<Rightarrow> bool" where "islower c \<longleftrightarrow> c \<ge> 97 \<and> c \<le> 122"
definition isupper :: "int \<Rightarrow> bool" where "isupper c \<longleftrightarrow> c \<ge> 65 \<and> c \<le> 90"
definition isalpha :: "int \<Rightarrow> bool" where "isalpha c \<longleftrightarrow> islower c \<or> isupper c"
definition isdigit :: "int \<Rightarrow> bool" where "isdigit c \<longleftrightarrow> c \<ge> 48 \<and> c \<le> 57"
definition isalnum :: "int \<Rightarrow> bool" where "isalnum c \<longleftrightarrow> isalpha c \<or> isdigit c"
definition isspace :: "int \<Rightarrow> bool" where
  "isspace c \<longleftrightarrow> c = 32 \<or> c = 9 \<or> c = 10 \<or> c = 13 \<or> c = 12 \<or> c = 11"

section \<open>Strings in memory\<close>

text \<open>
  \<open>cstr m s xs\<close>: the bytes \<open>xs\<close>, none of them zero, stand at \<open>s\<close> with a terminator after them, and
  the string does not cross the end of the address space.
\<close>

fun cstr :: "bytes \<Rightarrow> addr \<Rightarrow> u8 list \<Rightarrow> bool" where
  "cstr m s [] \<longleftrightarrow> s \<noteq> NULL \<and> m s = 0"
| "cstr m s (c # cs) \<longleftrightarrow> s \<noteq> NULL \<and> m s = c \<and> c \<noteq> 0 \<and> cstr m (s + 1) cs"

lemma cstr_start: "cstr m s xs \<Longrightarrow> s \<noteq> NULL"
  by (cases xs) auto

lemma unat_Suc_nz: "s + 1 \<noteq> 0 \<Longrightarrow> unat (s + 1) = Suc (unat (s :: u32))"
  by (simp add: unatSuc add.commute)

lemma cstr_bound: "cstr m s xs \<Longrightarrow> unat s + length xs < 2 ^ 32"
proof (induction xs arbitrary: s)
  case Nil
  then show ?case using unat32_bound [of s] by simp
next
  case (Cons c cs)
  then show ?case
    using unat_Suc_nz [of s] cstr_start [of m "s + 1" cs] by fastforce
qed

lemma cstr_cong:
  assumes "cstr m s xs" "\<And>a. unat s \<le> unat a \<Longrightarrow> unat a \<le> unat s + length xs \<Longrightarrow> m' a = m a"
  shows "cstr m' s xs"
  using assms
proof (induction xs arbitrary: s)
  case (Cons c cs)
  have "unat (s + 1) = Suc (unat s)"
    using Cons.prems(1) by (intro unat_Suc_nz) (auto dest: cstr_start)
  then show ?case
    using Cons by auto
qed auto

lemma cstr_nth: "cstr m s xs \<Longrightarrow> i < length xs \<Longrightarrow> m (s + of_nat i) = xs ! i"
proof (induction xs arbitrary: s i)
  case (Cons c cs)
  then show ?case
    using Cons.IH [of "s + 1" "i - 1"] by (cases i) (auto simp: ac_simps)
qed simp

lemma cstr_shift:
  assumes "cstr m s xs" "d \<noteq> NULL" "unat d + length xs < 2 ^ 32"
    "\<And>i. i \<le> length xs \<Longrightarrow> m' (d + of_nat i) = m (s + of_nat i)"
  shows "cstr m' d xs"
  using assms
proof (induction xs arbitrary: d s)
  case Nil
  then show ?case using Nil(4) [of 0] by simp
next
  case (Cons c cs)
  have d1: "unat (d + 1) = Suc (unat d)"
    using Cons.prems(3) by (simp add: unat_add_bounded)
  have "cstr m' (d + 1) cs"
  proof (rule Cons.IH [of "s + 1"])
    show "m' (d + 1 + of_nat i) = m (s + 1 + of_nat i)" if "i \<le> length cs" for i
      using Cons.prems(4) [of "Suc i"] that by (simp add: ac_simps)
  qed (use Cons.prems d1 in auto)
  then show ?case
    using Cons.prems(1,2) Cons.prems(4) [of 0] by simp
qed

lemma cstr_append:
  "cstr m s (xs @ ys) \<Longrightarrow> cstr m (s + of_nat (length xs)) ys"
proof (induction xs arbitrary: s)
  case (Cons x xs)
  then show ?case using Cons.IH [of "s + 1"] by (simp add: ac_simps)
qed simp

lemma cstr_end: "cstr m s xs \<Longrightarrow> m (s + of_nat (length xs)) = 0"
  using cstr_append [of m s xs "[]"] by simp

lemma cstr_prefix:
  "cstr m s (xs @ ys) \<Longrightarrow> m' (s + of_nat (length xs)) = 0 \<Longrightarrow>
   (\<And>a. unat s \<le> unat a \<Longrightarrow> unat a < unat s + length xs \<Longrightarrow> m' a = m a) \<Longrightarrow> cstr m' s xs"
proof (induction xs arbitrary: s)
  case Nil
  then show ?case by (auto dest: cstr_start)
next
  case (Cons c cs)
  have u: "unat (s + 1) = Suc (unat s)"
    using Cons.prems(1) by (intro unat_Suc_nz) (auto dest: cstr_start)
  have "cstr m' (s + 1) cs"
    using Cons.prems u by (intro Cons.IH) (auto simp: ac_simps)
  then show ?case
    using Cons.prems(1,3) by auto
qed

subsection \<open>Scanning\<close>

lemma strlen_loop_cstr: "cstr m (s + len) xs \<Longrightarrow> strlen_loop m s len = Some (len + of_nat (length xs))"
proof (induction xs arbitrary: len)
  case Nil
  then show ?case by (subst strlen_loop.simps) simp
next
  case (Cons c cs)
  then show ?case by (subst strlen_loop.simps) (simp add: ac_simps)
qed

lemma strlen_cstr: "cstr m s xs \<Longrightarrow> strlen m s = Some (of_nat (length xs))"
  using strlen_loop_cstr [of m s 0 xs] by (simp add: strlen_def)

lemma find_end_cstr: "cstr m s xs \<Longrightarrow> find_end m s = Some (s + of_nat (length xs))"
proof (induction xs arbitrary: s)
  case Nil
  then show ?case by (subst find_end.simps) simp
next
  case (Cons c cs)
  then show ?case by (subst find_end.simps) (simp add: ac_simps)
qed

text \<open>The first difference of two terminated byte strings, the reference for the comparisons.\<close>

fun byte_diff :: "u8 list \<Rightarrow> u8 list \<Rightarrow> int" where
  "byte_diff [] [] = 0"
| "byte_diff [] (y # ys) = - uint y"
| "byte_diff (x # xs) [] = uint x"
| "byte_diff (x # xs) (y # ys) = (if x = y then byte_diff xs ys else uint x - uint y)"

lemma strcmp_cstr: "cstr m s xs \<Longrightarrow> cstr m t ys \<Longrightarrow> strcmp m s t = Some (byte_diff xs ys)"
proof (induction xs ys arbitrary: s t rule: byte_diff.induct)
  case 1
  then show ?case by (subst strcmp.simps) simp
next
  case (2 y ys)
  then show ?case by (subst strcmp.simps) auto
next
  case (3 x xs)
  then show ?case by (subst strcmp.simps) auto
next
  case (4 x xs y ys)
  then show ?case by (subst strcmp.simps) auto
qed

lemma strncmp_cstr:
  "cstr m s xs \<Longrightarrow> cstr m t ys \<Longrightarrow> strncmp_loop n m s t = byte_diff (take n xs) (take n ys)"
proof (induction xs ys arbitrary: s t n rule: byte_diff.induct)
  case (4 x xs y ys)
  then show ?case by (cases n) auto
qed (case_tac n; auto)+

lemma uint_pos: "0 < uint x \<longleftrightarrow> x \<noteq> (0 :: u8)"
  using word_less_def [of 0 x] by (simp add: word_gt_0)

lemma uint_not_neg: "\<not> uint (x :: u8) < 0"
  by (simp add: not_less)

lemma byte_diff_zero: "0 \<notin> set xs \<Longrightarrow> 0 \<notin> set ys \<Longrightarrow> byte_diff xs ys = 0 \<longleftrightarrow> xs = ys"
  by (induction xs ys rule: byte_diff.induct) (auto simp: uint_0_iff simp flip: word_uint_eq_iff)

lemma byte_diff_neg:
  "0 \<notin> set xs \<Longrightarrow> 0 \<notin> set ys \<Longrightarrow> byte_diff xs ys < 0 \<longleftrightarrow> (xs, ys) \<in> lexord {(x, y). x < y}"
  by (induction xs ys rule: byte_diff.induct) (auto simp: word_less_def uint_pos uint_not_neg)

lemma cstr_nonzero: "cstr m s xs \<Longrightarrow> 0 \<notin> set xs"
  by (induction xs arbitrary: s) auto

lemma strchr_cstr:
  "cstr m s ds \<Longrightarrow> c \<noteq> 0 \<Longrightarrow> \<exists>q. strchr m s (sint c) = Some q \<and> (q = NULL \<longleftrightarrow> c \<notin> set ds)"
proof (induction ds arbitrary: s)
  case Nil
  then show ?case by (subst strchr.simps) (simp add: signed_eq_0_iff)
next
  case (Cons d ds)
  then show ?case by (subst strchr.simps) auto
qed


subsection \<open>Copying\<close>

lemma copy_down_spec:
  assumes "n \<le> unat d" "n \<le> unat s" "unat s \<le> unat d"
  shows "copy_down n d s m x =
    (if unat d - n \<le> unat x \<and> unat x < unat d then m (s - (d - x)) else m x)"
  using assms
proof (induction n arbitrary: d s m)
  case 0
  then show ?case by auto
next
  case (Suc n)
  have d1: "unat (d - 1) = unat d - 1" and s1: "unat (s - 1) = unat s - 1"
    using Suc.prems by (simp_all add: unat_diff_le word_le_nat_alt)
  have IH: "copy_down n (d - 1) (s - 1) (m(d - 1 := m (s - 1))) x =
    (if unat (d - 1) - n \<le> unat x \<and> unat x < unat (d - 1)
     then (m(d - 1 := m (s - 1))) (s - 1 - (d - 1 - x)) else (m(d - 1 := m (s - 1))) x)"
    using Suc.prems by (intro Suc.IH) (auto simp: d1 s1)
  have e: "s - 1 - (d - 1 - x) = s - (d - x)"
    by simp
  have ne: "s - (d - x) \<noteq> d - 1" if "unat d - Suc n \<le> unat x" "unat x < unat d - 1"
  proof -
    have "unat (d - x) = unat d - unat x"
      using that(2) by (simp add: unat_diff_le word_le_nat_alt)
    then have "unat (s - (d - x)) = unat s - (unat d - unat x)"
      using that Suc.prems by (subst unat_diff_le) (auto simp: word_le_nat_alt)
    then have "unat (s - (d - x)) < unat (d - 1)"
      using that Suc.prems(3) d1 by linarith
    then show ?thesis
      by (metis less_irrefl)
  qed
  have eq: "x = d - 1 \<longleftrightarrow> unat x = unat d - 1"
    by (simp add: unat_inj d1)
  show ?case
    using IH ne eq Suc.prems(1) by (auto simp: d1 e)
qed

lemma strcpy_cstr:
  assumes "cstr m src xs" "d \<noteq> NULL" "unat d + length xs < 2 ^ 32"
    "unat d + length xs < unat src \<or> unat src + length xs < unat d"
  shows "\<exists>m'. strcpy d src m = Some m' \<and> cstr m' d xs \<and>
    (\<forall>a. (unat a < unat d \<or> unat d + length xs < unat a) \<longrightarrow> m' a = m a)"
  using assms
proof (induction xs arbitrary: d src m)
  case Nil
  then show ?case by (subst strcpy.simps) (auto simp: Let_def)
next
  case (Cons c cs)
  let ?m = "m(d := c)"
  have d1: "unat (d + 1) = Suc (unat d)"
    using Cons.prems(3) by (simp add: unat_add_bounded)
  have s1: "unat (src + 1) = Suc (unat src)"
    using Cons.prems(1) by (intro unat_Suc_nz) (auto dest: cstr_start)
  have "cstr ?m (src + 1) cs"
  proof (rule cstr_cong)
    show "cstr m (src + 1) cs"
      using Cons.prems(1) by simp
    show "?m a = m a" if "unat (src + 1) \<le> unat a" "unat a \<le> unat (src + 1) + length cs" for a
      using that s1 Cons.prems(4) by auto
  qed
  moreover have "d + 1 \<noteq> NULL" "unat (d + 1) + length cs < 2 ^ 32"
    "unat (d + 1) + length cs < unat (src + 1) \<or> unat (src + 1) + length cs < unat (d + 1)"
    using Cons.prems(3,4) d1 s1 by auto
  ultimately obtain m' where m': "strcpy (d + 1) (src + 1) ?m = Some m'" "cstr m' (d + 1) cs"
    "\<And>a. unat a < unat (d + 1) \<or> unat (d + 1) + length cs < unat a \<Longrightarrow> m' a = ?m a"
    using Cons.IH by blast
  have "m' d = c"
    using m'(3) [of d] d1 by simp
  moreover have "strcpy d src m = Some m'"
    using Cons.prems(1) m'(1) by (subst strcpy.simps) (simp add: Let_def)
  moreover have "m' a = m a" if "unat a < unat d \<or> unat d + length (c # cs) < unat a" for a
    using m'(3) [of a] that d1 by auto
  ultimately show ?case
    using Cons.prems(1,2) m'(2) by auto
qed


subsection \<open>Tokens\<close>

lemma skip_delims_cstr:
  "cstr m p xs \<Longrightarrow> cstr m delim ds \<Longrightarrow>
   skip_delims m delim p = Some (p + of_nat (length (takeWhile (\<lambda>c. c \<in> set ds) xs)))"
proof (induction xs arbitrary: p)
  case Nil
  then show ?case by (subst skip_delims.simps) simp
next
  case (Cons c cs)
  obtain q where "strchr m delim (sint c) = Some q" "q = NULL \<longleftrightarrow> c \<notin> set ds"
    using strchr_cstr [OF Cons.prems(2), of c] Cons.prems(1) by auto
  then show ?case
    using Cons.prems Cons.IH [of "p + 1"] by (subst skip_delims.simps) (auto simp: ac_simps)
qed

lemma skip_token_cstr:
  "cstr m p xs \<Longrightarrow> cstr m delim ds \<Longrightarrow>
   skip_token m delim p = Some (p + of_nat (length (takeWhile (\<lambda>c. c \<notin> set ds) xs)))"
proof (induction xs arbitrary: p)
  case Nil
  then show ?case by (subst skip_token.simps) simp
next
  case (Cons c cs)
  obtain q where "strchr m delim (sint c) = Some q" "q = NULL \<longleftrightarrow> c \<notin> set ds"
    using strchr_cstr [OF Cons.prems(2), of c] Cons.prems(1) by auto
  then show ?case
    using Cons.prems Cons.IH [of "p + 1"] by (subst skip_token.simps) (auto simp: ac_simps)
qed

lemma unat_cstr_offset: "cstr m s xs \<Longrightarrow> k \<le> length xs \<Longrightarrow> unat (s + of_nat k) = unat s + k"
  using cstr_bound [of m s xs] by (subst unat_add_bounded) (auto simp: unat_of_nat)

text \<open>The bytes before the token, the token and the bytes after it.\<close>

definition token_parts :: "u8 set \<Rightarrow> u8 list \<Rightarrow> nat \<times> u8 list \<times> u8 list" where
  "token_parts D xs =
     (let ys = dropWhile (\<lambda>c. c \<in> D) xs
      in (length (takeWhile (\<lambda>c. c \<in> D) xs), takeWhile (\<lambda>c. c \<notin> D) ys, dropWhile (\<lambda>c. c \<notin> D) ys))"

lemma cstr_dropWhile: "cstr m s xs \<Longrightarrow> cstr m (s + of_nat (length (takeWhile P xs))) (dropWhile P xs)"
  using cstr_append [of m s "takeWhile P xs" "dropWhile P xs"] by simp

lemma strtok_step:
  assumes s: "cstr m p xs" and d: "cstr m delim ds" and t: "token_parts (set ds) xs = (k, tok, rest)"
    and str: "str = p \<or> str = NULL \<and> saved = p"
  shows "tok = [] \<Longrightarrow> strtok str delim m saved = Some (m, NULL, NULL)"
    and "tok \<noteq> [] \<Longrightarrow> rest = [] \<Longrightarrow> strtok str delim m saved = Some (m, NULL, p + of_nat k)"
    and "tok \<noteq> [] \<Longrightarrow> rest \<noteq> [] \<Longrightarrow>
      strtok str delim m saved =
        Some (m(p + of_nat (k + length tok) := 0), p + of_nat (k + length tok) + 1, p + of_nat k)"
proof -
  have sv: "(if str \<noteq> NULL then str else saved) = p" "p \<noteq> NULL"
    using str cstr_start [OF s] by auto
  let ?ys = "dropWhile (\<lambda>c. c \<in> set ds) xs"
  have k: "skip_delims m delim p = Some (p + of_nat k)" "cstr m (p + of_nat k) ?ys"
    using skip_delims_cstr [OF s d] cstr_dropWhile [OF s, of "\<lambda>c. c \<in> set ds"] t by (auto simp: token_parts_def Let_def)
  have ys: "tok = takeWhile (\<lambda>c. c \<notin> set ds) ?ys" "rest = dropWhile (\<lambda>c. c \<notin> set ds) ?ys"
    using t by (auto simp: token_parts_def Let_def)
  have y0: "m (p + of_nat k) = 0 \<longleftrightarrow> ?ys = []"
    using k(2) by (cases ?ys) auto
  have t0: "tok = [] \<longleftrightarrow> ?ys = []"
    using ys(1) hd_dropWhile [of "\<lambda>c. c \<in> set ds" xs] by (cases ?ys) auto
  with y0 have y: "m (p + of_nat k) = 0 \<longleftrightarrow> tok = []"
    by simp
  let ?q = "p + of_nat k + of_nat (length tok)"
  have q: "skip_token m delim (p + of_nat k) = Some ?q" "cstr m ?q rest"
    using skip_token_cstr [OF k(2) d] cstr_dropWhile [OF k(2), of "\<lambda>c. c \<notin> set ds"] ys by auto
  have r0: "m ?q = 0 \<longleftrightarrow> rest = []"
    using q(2) by (cases rest) auto
  show "tok = [] \<Longrightarrow> strtok str delim m saved = Some (m, NULL, NULL)"
    using y sv k(1) by (simp add: strtok_def)
  show "tok \<noteq> [] \<Longrightarrow> rest = [] \<Longrightarrow> strtok str delim m saved = Some (m, NULL, p + of_nat k)"
    using y r0 sv k(1) q(1) by (simp add: strtok_def)
  show "tok \<noteq> [] \<Longrightarrow> rest \<noteq> [] \<Longrightarrow> strtok str delim m saved =
        Some (m(p + of_nat (k + length tok) := 0), p + of_nat (k + length tok) + 1, p + of_nat k)"
    using y r0 sv k(1) q(1) by (simp add: strtok_def add.assoc)
qed

text \<open>The nonempty pieces of a byte string between delimiters.\<close>

fun pieces :: "u8 set \<Rightarrow> u8 list \<Rightarrow> u8 list list" where
  "pieces D [] = [[]]"
| "pieces D (c # cs) =
     (if c \<in> D then [] # pieces D cs else (c # hd (pieces D cs)) # tl (pieces D cs))"

definition tokens :: "u8 set \<Rightarrow> u8 list \<Rightarrow> u8 list list" where
  "tokens D xs = filter (\<lambda>w. w \<noteq> []) (pieces D xs)"

lemma pieces_step:
  "pieces D xs = takeWhile (\<lambda>c. c \<notin> D) xs #
     (if dropWhile (\<lambda>c. c \<notin> D) xs = [] then [] else pieces D (tl (dropWhile (\<lambda>c. c \<notin> D) xs)))"
  by (induction xs) auto

lemma tokens_skip: "tokens D (dropWhile (\<lambda>c. c \<in> D) xs) = tokens D xs"
  by (induction xs) (auto simp: tokens_def)

lemma tokens_parts:
  assumes "token_parts D xs = (k, tok, rest)"
  shows "tokens D xs = (if tok = [] then [] else tok # (if rest = [] then [] else tokens D (tl rest)))"
proof -
  let ?ys = "dropWhile (\<lambda>c. c \<in> D) xs"
  have t: "tok = takeWhile (\<lambda>c. c \<notin> D) ?ys" "rest = dropWhile (\<lambda>c. c \<notin> D) ?ys"
    using assms by (auto simp: token_parts_def Let_def)
  have "rest = []" if "tok = []"
    using that t hd_dropWhile [of "\<lambda>c. c \<in> D" xs] by (cases ?ys) auto
  moreover have "pieces D ?ys = tok # (if rest = [] then [] else pieces D (tl rest))"
    unfolding t by (rule pieces_step)
  then have "tokens D ?ys = filter (\<lambda>w. w \<noteq> []) (tok # (if rest = [] then [] else pieces D (tl rest)))"
    by (simp only: tokens_def)
  ultimately show ?thesis
    unfolding tokens_skip by (auto simp: tokens_def)
qed

text \<open>
  A caller that passes the string once and \<open>NULL\<close> afterwards, as the command line parsers do,
  and collects the tokens.
\<close>

partial_function (option) all_tokens :: "addr \<Rightarrow> addr \<Rightarrow> bytes \<Rightarrow> addr \<Rightarrow> (bytes \<times> addr list) option" where
  "all_tokens str delim m saved =
     Option.bind (strtok str delim m saved)
       (\<lambda>(m, saved, tok). if tok = NULL then Some (m, [])
          else Option.bind (all_tokens NULL delim m saved) (\<lambda>(m, toks). Some (m, tok # toks)))"

lemma parts_append:
  assumes "token_parts D xs = (k, tok, rest)"
  shows "\<exists>pre. xs = pre @ tok @ rest \<and> length pre = k"
  using assms by (intro exI [of _ "takeWhile (\<lambda>c. c \<in> D) xs"]) (auto simp: token_parts_def Let_def)

lemma all_tokens_cstr:
  assumes "cstr m p xs" "cstr m delim ds" "str = p \<or> str = NULL \<and> saved = p"
    "unat p + length xs < unat delim \<or> unat delim + length ds < unat p"
  shows "\<exists>m' ps. all_tokens str delim m saved = Some (m', ps) \<and> list_all2 (cstr m') ps (tokens (set ds) xs) \<and>
    (\<forall>a. unat a < unat p \<or> unat p + length xs < unat a \<longrightarrow> m' a = m a)"
  using assms
proof (induction "length xs" arbitrary: xs m p str saved rule: less_induct)
  case less
  obtain k tok rest where t: "token_parts (set ds) xs = (k, tok, rest)"
    using prod_cases3 by blast
  obtain pre where pre: "xs = pre @ tok @ rest" "length pre = k"
    using parts_append [OF t] by blast
  note step = strtok_step [OF less.prems(1,2) t less.prems(3)]
  have off: "unat (p + of_nat (k + j)) = unat p + k + j" if "j \<le> length tok" for j
    using unat_cstr_offset [OF less.prems(1), of "k + j"] that pre by simp
  show ?case
  proof (cases "tok = []")
    case True
    with step(1) tokens_parts [OF t] show ?thesis
      by (subst all_tokens.simps) simp
  next
    case tok: False
    have tnz: "p + of_nat k \<noteq> NULL"
      using off [of 0] cstr_start [OF less.prems(1)] by (auto simp: unat_eq_zero dest: sym)
    have ctok: "cstr m (p + of_nat k) (tok @ rest)"
      using cstr_append [of m p pre] less.prems(1) pre by simp
    show ?thesis
    proof (cases "rest = []")
      case True
      have e: "all_tokens NULL delim m NULL = Some (m, [])"
        by (subst all_tokens.simps) (simp add: strtok_def)
      show ?thesis
        using step(2) [OF tok True] e tokens_parts [OF t] tok True ctok tnz
        by (subst all_tokens.simps) (simp)
    next
      case False
      define q where "q = p + of_nat (k + length tok)"
      let ?m = "m(q := 0)"
      have q: "unat q = unat p + k + length tok"
        using off [of "length tok"] by (simp add: q_def)
      have len: "length xs = k + length tok + Suc (length (tl rest))"
        using pre False by (auto simp: neq_Nil_conv)
      have crest: "cstr m (q + 1) (tl rest)"
        using cstr_append [of m p "pre @ tok @ [hd rest]" "tl rest"] less.prems(1) pre False
        by (simp add: q_def ac_simps)
      have q1: "unat (q + 1) = Suc (unat q)"
        using cstr_start [OF crest] by (rule unat_Suc_nz)
      have same: "?m a = m a" if "unat a \<noteq> unat q" for a
        using that by auto
      have 1: "cstr ?m (q + 1) (tl rest)"
        using crest by (rule cstr_cong) (rule same, use q1 in linarith)
      have 2: "cstr ?m delim ds"
        using less.prems(2) by (rule cstr_cong) (rule same, use q less.prems(4) len in linarith)
      have 3: "unat (q + 1) + length (tl rest) < unat delim \<or> unat delim + length ds < unat (q + 1)"
        using less.prems(4) q q1 len by linarith
      obtain m' ps where m': "all_tokens NULL delim ?m (q + 1) = Some (m', ps)"
        "list_all2 (cstr m') ps (tokens (set ds) (tl rest))"
        "\<And>a. unat a < unat (q + 1) \<or> unat (q + 1) + length (tl rest) < unat a \<Longrightarrow> m' a = ?m a"
        using less.hyps [OF _ 1 2 _ 3, of NULL "q + 1"] len by auto
      have "cstr m' (p + of_nat k) tok"
        using ctok
      proof (rule cstr_prefix)
        show "m' (p + of_nat k + of_nat (length tok)) = 0"
          using m'(3) [of q] q1 by (simp add: q_def add.assoc)
        show "m' a = m a" if "unat (p + of_nat k) \<le> unat a" "unat a < unat (p + of_nat k) + length tok" for a
          using m'(3) [of a] same [of a] that q q1 off [of 0] by auto
      qed
      moreover have "all_tokens str delim m saved = Some (m', (p + of_nat k) # ps)"
        using step(3) [OF tok False] m'(1) tnz by (subst all_tokens.simps) (simp add: q_def)
      moreover have "m' a = m a" if "unat a < unat p \<or> unat p + length xs < unat a" for a
      proof -
        have "unat a \<noteq> unat q" "unat a < unat (q + 1) \<or> unat (q + 1) + length (tl rest) < unat a"
          using that q q1 len by linarith+
        then show ?thesis
          using m'(3) same by simp
      qed
      ultimately show ?thesis
        using m'(2) tokens_parts [OF t] tok False by auto
    qed
  qed
qed


section \<open>Properties\<close>

text \<open>
  \<^bold>\<open>C16.\<close> \<^verbatim>\<open>memmove\<close> copies the old contents of the source for every overlap of the two areas and
  changes no other byte.
\<close>

theorem memmove_correct:
  assumes "unat dest + unat n < 2 ^ 32" "unat src + unat n < 2 ^ 32"
  shows "memmove dest src n m x =
    (if unat dest \<le> unat x \<and> unat x < unat dest + unat n then m (src + (x - dest)) else m x)"
proof (cases "dest < src")
  case True
  then show ?thesis
    using copy_bytes_spec [OF assms] by (simp add: memmove_def word_less_nat_alt)
next
  case False
  have u: "unat (dest + n) = unat dest + unat n" "unat (src + n) = unat src + unat n"
    using assms by (simp_all add: unat_add_bounded)
  have "src + n - (dest + n - x) = src + (x - dest)"
    by simp
  then show ?thesis
    using False copy_down_spec [of "unat n" "dest + n" "src + n" m x]
    by (simp add: memmove_def u word_less_nat_alt)
qed

theorem memmove_correct_witness:
  "memmove 101 100 3 (\<lambda>a. ucast a) 103 = 102 \<and> memmove 100 101 3 (\<lambda>a. ucast a) 100 = 101"
  using memmove_correct [of 101 3 100 "\<lambda>a. ucast a" 103] memmove_correct [of 100 3 101 "\<lambda>a. ucast a" 100]
  by simp

text \<open>
  \<^verbatim>\<open>strcmp\<close> returns on all strings; its result is zero exactly on equal strings and negative
  exactly when the first string precedes the second in the lexicographic order of unsigned bytes.
  \<^verbatim>\<open>strncmp\<close> compares the prefixes of the given length in the same way.
\<close>

theorem strcmp_lexicographic:
  assumes "cstr m s xs" "cstr m t ys"
  shows "\<exists>r. strcmp m s t = Some r \<and> (r = 0 \<longleftrightarrow> xs = ys) \<and> (r < 0 \<longleftrightarrow> (xs, ys) \<in> lexord {(x, y). x < y}) \<and>
    (strncmp m s t n = 0 \<longleftrightarrow> take (unat n) xs = take (unat n) ys) \<and>
    (strncmp m s t n < 0 \<longleftrightarrow> (take (unat n) xs, take (unat n) ys) \<in> lexord {(x, y). x < y})"
proof -
  have nz: "0 \<notin> set xs" "0 \<notin> set ys" "0 \<notin> set (take (unat n) xs)" "0 \<notin> set (take (unat n) ys)"
    using cstr_nonzero assms by (auto dest: in_set_takeD)
  show ?thesis
    using strcmp_cstr [OF assms] strncmp_cstr [OF assms, of "unat n"]
      byte_diff_zero [OF nz(1,2)] byte_diff_neg [OF nz(1,2)] byte_diff_zero [OF nz(3,4)] byte_diff_neg [OF nz(3,4)]
    by (simp add: strncmp_def)
qed

definition demo_bytes :: bytes where
  "demo_bytes = (\<lambda>_. 0)(16 := 44, 17 := 97, 18 := 44, 19 := 44, 20 := 98, 21 := 200, 32 := 44)"

lemma demo_strings:
  "cstr demo_bytes 16 [44, 97, 44, 44, 98, 200]" "cstr demo_bytes 20 [98, 200]" "cstr demo_bytes 32 [44]"
  by (simp_all add: demo_bytes_def)

theorem strcmp_lexicographic_witness: "\<exists>r. strcmp demo_bytes 16 20 = Some r \<and> r < 0"
  using strcmp_lexicographic [OF demo_strings(1,2), of 0] by auto

text \<open>
  \<^bold>\<open>C39.\<close> Calling \<^verbatim>\<open>strtok\<close> on a string and then with \<open>NULL\<close> until it returns \<open>NULL\<close> ends, and the
  pointers returned are, in the final memory, the nonempty pieces of the string between delimiters,
  in order; only the bytes of the string change.
\<close>

theorem strtok_tokens:
  assumes "cstr m p xs" "cstr m delim ds"
    "unat p + length xs < unat delim \<or> unat delim + length ds < unat p"
  shows "\<exists>m' ps. all_tokens p delim m saved = Some (m', ps) \<and> list_all2 (cstr m') ps (tokens (set ds) xs) \<and>
    (\<forall>a. unat a < unat p \<or> unat p + length xs < unat a \<longrightarrow> m' a = m a)"
  using all_tokens_cstr [OF assms(1,2) _ assms(3), of p saved] by simp

theorem strtok_tokens_witness:
  "\<exists>m' p q. all_tokens 16 32 demo_bytes 0 = Some (m', [p, q]) \<and> cstr m' p [97] \<and> cstr m' q [98, 200]"
proof -
  have "tokens {44} [44, 97, 44, 44, 98, 200] = [[97], [98, 200]]"
    by (simp add: tokens_def)
  then show ?thesis
    using strtok_tokens [OF demo_strings(1,3), of 0] by (auto simp: list_all2_Cons2 simp del: cstr.simps)
qed

text \<open>
  \<^verbatim>\<open>strdup\<close> of a string that lies in a live area of the kernel heap returns, when it does not
  return \<open>NULL\<close>, a new live area that holds the same string; the source string is unchanged.
\<close>

theorem strdup_copies:
  assumes "heap_live h L" "cstr (payload h) s xs" "length xs < 1048576"
    "L p = Some k" "unat p \<le> unat s" "unat s + length xs < unat p + k"
    "strdup s h = Some (h', q)" "q \<noteq> NULL"
  shows "\<exists>j. length xs < j \<and> L q = None \<and> heap_live h' (L(q \<mapsto> j)) \<and>
    cstr (payload h') q xs \<and> cstr (payload h') s xs"
proof -
  let ?n = "of_nat (length xs) + 1 :: u32"
  have un: "unat ?n = length xs + 1"
    using assms(3) by (subst unat_add_bounded) (auto simp: unat_of_nat)
  obtain g where g: "kmalloc ?n h = Some (g, q)" "h' = g\<lparr>payload := copy_bytes (length xs + 1) q s (payload g)\<rparr>"
    using assms(7,8) cstr_start [OF assms(2)] un
    by (auto simp: strdup_def strlen_cstr [OF assms(2)] Let_def bind_eq_Some_conv memcpy_def
        simp del: copy_bytes.simps split: if_splits)
  have le: "unat ?n \<le> 1048576"
    using assms(3) un by simp
  obtain j where j: "unat ?n \<le> j" "L q = None" "heap_live g (L(q \<mapsto> j))"
    using kheap.alloc_new [OF assms(1) le g(1) assms(8)] by blast
  have pq: "p \<noteq> q" "(L(q \<mapsto> j)) p = Some k"
    using assms(4) j(2) by auto
  have sep: "unat p + k \<le> unat q \<or> unat q + j \<le> unat p" "unat q + j < 2 ^ 32" "unat p + k < 2 ^ 32"
    using kheap.live_disjoint [OF j(3) pq(2), of q j] kheap.live_range [OF j(3), of q j]
      kheap.live_range [OF j(3) pq(2)] pq(1) by auto
  have pay: "payload g = payload h"
    by (rule kmalloc_payload [OF assms(1) le g(1)])
  have copy: "payload h' a = (if unat q \<le> unat a \<and> unat a < unat q + (length xs + 1)
      then payload h (s + (a - q)) else payload h a)" for a
    unfolding g(2) pay using copy_bytes_spec [of q "length xs + 1" s "payload h" a] sep j(1) un assms(5,6)
    by auto
  have "cstr (payload h') s xs"
    using assms(2) by (rule cstr_cong) (use copy sep j(1) un assms(5,6) in auto)
  moreover have "cstr (payload h') q xs"
  proof (rule cstr_shift [OF assms(2,8)])
    show "unat q + length xs < 2 ^ 32"
      using sep(2) j(1) un by linarith
    then show "payload h' (q + of_nat i) = payload h (s + of_nat i)" if "i \<le> length xs" for i
      using that copy [of "q + of_nat i"] by (simp add: unat_add_bounded unat_of_nat)
  qed
  moreover have "heap_live h' (L(q \<mapsto> j))"
    using j(3) g(2) by simp
  ultimately show ?thesis
    using j(1,2) un by (intro exI [of _ j]) simp
qed

lemma heap_rel_payload: "heap_rel (h\<lparr>payload := f\<rparr>) bs = heap_rel h bs"
  by (simp add: heap_rel_def heap_shape_def heap_ok_def)

definition demo_heap4 :: kheap where
  "demo_heap4 = demo_heap3\<lparr>payload := (\<lambda>_. 0)(0xD0000014 := 104, 0xD0000015 := 105)\<rparr>"

theorem strdup_copies_witness:
  "\<exists>h' q. strdup 0xD0000014 demo_heap4 = Some (h', q) \<and> q \<noteq> NULL \<and> cstr (payload h') q [104, 105]"
proof -
  let ?L = "[0xD0000014 \<mapsto> 104] :: addr \<rightharpoonup> nat"
  have rel: "heap_rel demo_heap4 [(0xD0000000, 124, True), (0xD000007C, 3972, False)]"
    using demo_heap3_rel by (simp add: demo_heap4_def heap_rel_payload)
  then have lv: "heap_live demo_heap4 ?L"
    by (auto simp: heap_live_def live_map_def)
  have s: "cstr (payload demo_heap4) 0xD0000014 [104, 105]"
    by (simp add: demo_heap4_def)
  have e: "request 3 = 28"
    by (simp add: request_def)
  have "alloc_list 28 [(0xD0000000, 124, True), (0xD000007C, 3972, False)] =
      Some (0xD0000090, [(0xD0000000, 124, True), (0xD000007C, 28, True), (0xD0000098, 3944, False)])"
    by (simp add: fits_def carve_def)
  then obtain g where "kmalloc 3 demo_heap4 = Some (g, 0xD0000090)"
    using kmalloc_fit [OF rel, of 3 "0xD0000090"] by (auto simp: e simp del: alloc_list.simps)
  then obtain h' where d: "strdup 0xD0000014 demo_heap4 = Some (h', 0xD0000090)"
    by (simp add: strdup_def strlen_cstr [OF s])
  have "\<exists>j. length [104, 105 :: u8] < j \<and> ?L 0xD0000090 = None \<and> heap_live h' (?L(0xD0000090 \<mapsto> j)) \<and>
    cstr (payload h') 0xD0000090 [104, 105] \<and> cstr (payload h') 0xD0000014 [104, 105]"
    by (rule strdup_copies [OF lv s _ _ _ _ d, of "0xD0000014" 104]) simp_all
  then show ?thesis
    using d by (auto simp del: cstr.simps)
qed

text \<open>The bytes of a buffer in memory.\<close>

definition bytes_at :: "bytes \<Rightarrow> addr \<Rightarrow> nat \<Rightarrow> u8 list" where
  "bytes_at m a n = map (\<lambda>i. m (a + of_nat i)) [0..<n]"

lemma bytes_at_Suc: "bytes_at m a (Suc n) = m a # bytes_at m (a + 1) n"
  unfolding bytes_at_def by (subst upt_conv_Cons) (auto simp: map_Suc_upt [symmetric] ac_simps simp del: upt_Suc)

lemma bytes_at_length [simp]: "length (bytes_at m a n) = n"
  by (simp add: bytes_at_def)

lemma bytes_at_cong: "(\<And>i. i < n \<Longrightarrow> m' (a' + of_nat i) = m (a + of_nat i)) \<Longrightarrow> bytes_at m' a' n = bytes_at m a n"
  by (simp add: bytes_at_def)

text \<open>Copying between ranges that do not overlap.\<close>

lemma memcpy_bytes_at:
  assumes "unat d + unat n < 2 ^ 32" "unat s + unat n < 2 ^ 32" "unat d + unat n \<le> unat s \<or> unat s + unat n \<le> unat d"
  shows "bytes_at (memcpy d s n m) d (unat n) = bytes_at m s (unat n)"
    "unat a + k < 2 ^ 32 \<Longrightarrow> unat d + unat n \<le> unat a \<or> unat a + k \<le> unat d \<Longrightarrow> bytes_at (memcpy d s n m) a k = bytes_at m a k"
proof -
  have c: "memcpy d s n m x = (if unat d \<le> unat x \<and> unat x < unat d + unat n then m (s + (x - d)) else m x)" for x
    unfolding memcpy_def by (rule copy_bytes_spec) (use assms in auto)
  have u: "unat (b + of_nat i) = unat b + i" if "unat b + l < 2 ^ 32" "i < l" for b :: u32 and i l
    using that by (simp add: unat_add_bounded unat_of_nat)
  show "bytes_at (memcpy d s n m) d (unat n) = bytes_at m s (unat n)"
    by (rule bytes_at_cong) (simp add: c u [OF assms(1)])
  show "bytes_at (memcpy d s n m) a k = bytes_at m a k" if "unat a + k < 2 ^ 32" "unat d + unat n \<le> unat a \<or> unat a + k \<le> unat d"
    by (rule bytes_at_cong) (use that in \<open>auto simp: c u [OF that(1)]\<close>)
qed

end
