(* ===== verification/Uaccess.thy ===== *)
theory Uaccess
  imports Cstring
begin

text \<open>
  Access to user memory, \<^verbatim>\<open>mm/uaccess.c\<close>: the range checks and the copies guarded by them.
  A \<^verbatim>\<open>long\<close> count is an \<open>int\<close>.
\<close>

definition is_user_address :: "addr \<Rightarrow> bool" where
  "is_user_address a \<longleftrightarrow> a < 0xC0000000"

definition is_user_buffer :: "addr \<Rightarrow> u32 \<Rightarrow> bool" where
  "is_user_buffer start sz =
     (let fin = start + sz in
      if fin < start then False else start < 0xC0000000 \<and> fin \<le> 0xC0000000)"

definition copy_from_user :: "addr \<Rightarrow> addr \<Rightarrow> u32 \<Rightarrow> bytes \<Rightarrow> bytes \<times> int" where
  "copy_from_user to from n m =
     (if \<not> is_user_buffer from n then (m, - EFAULT) else (memcpy to from n m, 0))"

definition copy_to_user :: "addr \<Rightarrow> addr \<Rightarrow> u32 \<Rightarrow> bytes \<Rightarrow> bytes \<times> int" where
  "copy_to_user to from n m =
     (if \<not> is_user_buffer to n then (m, - EFAULT) else (memcpy to from n m, 0))"

fun strncpy_user_loop :: "nat \<Rightarrow> u32 \<Rightarrow> addr \<Rightarrow> addr \<Rightarrow> bytes \<Rightarrow> bytes \<times> int" where
  "strncpy_user_loop 0 copied dst src m = (m, uint copied)"
| "strncpy_user_loop (Suc n) copied dst src m =
     (if \<not> is_user_address (src + copied) then (m, - EFAULT)
      else let m = m(dst + copied := m (src + copied)) in
           if m (dst + copied) = 0 then (m, uint copied)
           else strncpy_user_loop n (copied + 1) dst src m)"

definition strncpy_from_user :: "addr \<Rightarrow> addr \<Rightarrow> int \<Rightarrow> bytes \<Rightarrow> bytes \<times> int" where
  "strncpy_from_user dst src count m =
     (if \<not> is_user_address src then (m, - EFAULT)
      else strncpy_user_loop (nat count) 0 dst src m)"

fun strnlen_user_loop :: "nat \<Rightarrow> u32 \<Rightarrow> addr \<Rightarrow> int \<Rightarrow> bytes \<Rightarrow> int" where
  "strnlen_user_loop 0 len str count m = count"
| "strnlen_user_loop (Suc n) len str count m =
     (if \<not> is_user_address (str + len) then - EFAULT
      else if m (str + len) = 0 then uint len + 1
      else strnlen_user_loop n (len + 1) str count m)"

definition strnlen_user :: "addr \<Rightarrow> int \<Rightarrow> bytes \<Rightarrow> int" where
  "strnlen_user str count m =
     (if \<not> is_user_address str then - EFAULT else strnlen_user_loop (nat count) 0 str count m)"

definition clear_user :: "addr \<Rightarrow> u32 \<Rightarrow> bytes \<Rightarrow> bytes \<times> int" where
  "clear_user a n m = (if \<not> is_user_buffer a n then (m, - EFAULT) else (memset a 0 n m, 0))"

section \<open>The range check\<close>

text \<open>The check with its wrap-around test accepts exactly the ranges below the kernel.\<close>

lemma is_user_buffer_iff:
  "is_user_buffer a n \<longleftrightarrow> unat a < 0xC0000000 \<and> unat a + unat n \<le> 0xC0000000"
proof (cases "unat a + unat n < 4294967296")
  case True
  then have "unat (a + n) = unat a + unat n"
    by (simp add: unat_add_bounded)
  then show ?thesis
    by (auto simp: is_user_buffer_def word_less_nat_alt word_le_nat_alt)
next
  case False
  then have "unat (a + n) = unat a + unat n - 4294967296"
    using unat_word_ariths(1) [of a n] unat32_bound [of a] unat32_bound [of n]
    by (simp add: le_mod_geq)
  moreover have "unat a + unat n - 4294967296 < unat a"
    using False unat32_bound [of n] by linarith
  ultimately have "a + n < a"
    by (simp add: word_less_nat_alt)
  then show ?thesis
    using False by (simp add: is_user_buffer_def)
qed

lemma fill_bytes_spec:
  "unat d + n < 2 ^ 32 \<Longrightarrow>
   fill_bytes n d c m x = (if unat d \<le> unat x \<and> unat x < unat d + n then c else m x)"
proof (induction n arbitrary: d m)
  case (Suc n)
  have d1: "unat (d + 1) = unat d + 1"
    using Suc.prems by (simp add: unat_add_bounded)
  have "fill_bytes n (d + 1) c (m(d := c)) x =
      (if unat (d + 1) \<le> unat x \<and> unat x < unat (d + 1) + n then c else (m(d := c)) x)"
    using Suc.prems d1 by (intro Suc.IH) simp
  then show ?case
    by (auto simp: d1 unat_inj)
qed auto

lemma copy_bytes_outside:
  "unat d + n < 2 ^ 32 \<Longrightarrow> \<not> (unat d \<le> unat x \<and> unat x < unat d + n) \<Longrightarrow> copy_bytes n d s m x = m x"
proof (induction n arbitrary: d s m)
  case (Suc n)
  have "unat (d + 1) = unat d + 1"
    using Suc.prems by (simp add: unat_add_bounded)
  then have "copy_bytes n (d + 1) (s + 1) (m(d := m s)) x = (m(d := m s)) x"
    using Suc.prems by (intro Suc.IH) auto
  then show ?case
    using Suc.prems(2) by auto
qed simp

section \<open>Strings from user space\<close>

lemma strncpy_user_loop_cstr:
  assumes "cstr m (src + k) xs" "unat dst + unat k + n < 2 ^ 32" "0xC0000000 \<le> unat dst"
    "unat src + unat k + length xs < 0xC0000000" "length xs < n"
  shows "\<exists>m'. strncpy_user_loop n k dst src m = (m', uint k + int (length xs)) \<and>
    cstr m' (dst + k) xs \<and> (\<forall>a. unat a < unat dst + unat k \<or> unat dst + unat k + length xs < unat a \<longrightarrow> m' a = m a)"
  using assms
proof (induction xs arbitrary: k m n)
  case Nil
  obtain j where j: "n = Suc j"
    using Nil.prems(5) by (cases n) auto
  have u: "unat (src + k) = unat src + unat k" "unat (dst + k) = unat dst + unat k"
    using Nil.prems by (auto simp: unat_add_bounded)
  then have "is_user_address (src + k)" "dst + k \<noteq> NULL"
    using Nil.prems by (auto simp: is_user_address_def word_less_nat_alt)
  then show ?case
    using Nil.prems(1) u by (auto simp: j)
next
  case (Cons c cs)
  obtain j where j: "n = Suc j"
    using Cons.prems(5) by (cases n) auto
  have u: "unat (src + k) = unat src + unat k" "unat (dst + k) = unat dst + unat k"
    "unat (k + 1) = unat k + 1"
    using Cons.prems by (auto simp: unat_add_bounded)
  then have uk: "uint (k + 1) = uint k + 1"
    by (simp only: uint_nat)
  let ?m = "m(dst + k := c)"
  have ua: "is_user_address (src + k)" "dst + k \<noteq> NULL"
    using u Cons.prems by (auto simp: is_user_address_def word_less_nat_alt)
  have "cstr ?m (src + (k + 1)) cs"
  proof (rule cstr_cong)
    show "cstr m (src + (k + 1)) cs"
      using Cons.prems(1) by (simp add: add.assoc)
    have "unat (src + (k + 1)) = unat src + unat k + 1"
      using Cons.prems u by (subst unat_add_bounded) auto
    then show "?m a = m a" if "unat a \<le> unat (src + (k + 1)) + length cs" for a
      using that Cons.prems(3,4) u(2) by auto
  qed
  moreover have "unat dst + unat (k + 1) + j < 2 ^ 32"
    "unat src + unat (k + 1) + length cs < 0xC0000000" "length cs < j"
    using Cons.prems u(3) j by auto
  ultimately obtain m' where m': "strncpy_user_loop j (k + 1) dst src ?m = (m', uint (k + 1) + int (length cs))"
    "cstr m' (dst + (k + 1)) cs"
    "\<And>a. unat a < unat dst + unat (k + 1) \<or> unat dst + unat (k + 1) + length cs < unat a \<Longrightarrow> m' a = ?m a"
    using Cons.IH [of ?m "k + 1" j] Cons.prems(3) by blast
  have "m' (dst + k) = c"
    using m'(3) [of "dst + k"] u by simp
  moreover have "m' a = m a" if "unat a < unat dst + unat k \<or> unat dst + unat k + length (c # cs) < unat a" for a
    using m'(3) [of a] that u by auto
  ultimately show ?case
    using Cons.prems(1) m'(1,2) ua uk by (auto simp: j Let_def add.assoc)
qed

section \<open>Properties\<close>

text \<open>
  \<^bold>\<open>C17.\<close> \<^verbatim>\<open>copy_to_user\<close> and \<^verbatim>\<open>clear_user\<close> never change a byte of the kernel's part of the address
  space, for any arguments; they succeed exactly when the whole range lies below it.
\<close>

theorem user_writes_confined:
  assumes "0xC0000000 \<le> unat a"
  shows "fst (copy_to_user to from n m) a = m a \<and> fst (clear_user to n m) a = m a \<and>
    (snd (copy_to_user to from n m) = 0 \<longleftrightarrow> unat to < 0xC0000000 \<and> unat to + unat n \<le> 0xC0000000) \<and>
    (snd (clear_user to n m) = 0 \<longleftrightarrow> unat to < 0xC0000000 \<and> unat to + unat n \<le> 0xC0000000)"
proof -
  have "copy_bytes (unat n) to from m a = m a" "fill_bytes (unat n) to 0 m a = m a"
    if "unat to + unat n \<le> 0xC0000000"
    using that assms copy_bytes_outside [of to "unat n" a "from" m] fill_bytes_spec [of to "unat n" 0 m a]
    by auto
  then show ?thesis
    by (simp add: copy_to_user_def clear_user_def is_user_buffer_iff memcpy_def memset_def)
qed

theorem user_writes_confined_witness:
  "fst (copy_to_user 0xBFFFFFFF 0xD0000000 0x40000002 (\<lambda>_. 7)) 0xC0000000 = 7 \<and>
   snd (copy_to_user 0xBFFFFFFF 0xD0000000 0x40000002 (\<lambda>_. 7)) \<noteq> 0"
  using user_writes_confined [of "0xC0000000" "0xBFFFFFFF" "0xD0000000" "0x40000002" "\<lambda>_. 7"] by simp

text \<open>
  \<^verbatim>\<open>strncpy_from_user\<close> of a string that lies in user space and is shorter than the limit
  copies it with its terminator into the kernel buffer, returns its length and changes no byte
  beyond the terminator.
\<close>

theorem strncpy_from_user_correct:
  assumes "cstr m src xs" "unat src + length xs < 0xC0000000" "0xC0000000 \<le> unat dst"
    "int (length xs) < count" "unat dst + nat count < 2 ^ 32"
  shows "\<exists>m'. strncpy_from_user dst src count m = (m', int (length xs)) \<and> cstr m' dst xs \<and>
    (\<forall>a. unat a < unat dst \<or> unat dst + length xs < unat a \<longrightarrow> m' a = m a)"
  using strncpy_user_loop_cstr [of m src 0 xs dst "nat count"] assms
  by (simp add: strncpy_from_user_def is_user_address_def word_less_nat_alt)

theorem strncpy_from_user_correct_witness:
  "\<exists>m'. strncpy_from_user 0xD0000000 20 16 demo_bytes = (m', 2) \<and> cstr m' 0xD0000000 [98, 200]"
  using strncpy_from_user_correct [OF demo_strings(2), of "0xD0000000" 16] by auto

end
