(* ===== verification/Vfs.thy ===== *)
theory Vfs
  imports Uaccess
begin

text \<open>
  The virtual file system, \<^verbatim>\<open>fs/vfs_core.c\<close>, and the error number of \<^verbatim>\<open>syscall/errno.c\<close>.  Objects
  that the kernel allocates live in typed stores indexed by their address, and their storage comes
  from the kernel heap of \<open>Kheap\<close>; an operation returns \<open>None\<close> when the allocator panics.
  C strings that are only read are byte lists without terminator, and \<open>None\<close> where the code tests
  for a null pointer.  The tables of function pointers and the lookups of the mounted file systems
  are the argument \<open>env\<close>.
\<close>

section \<open>State\<close>

record vfs_inode =
  ino :: u32
  mode :: u32
  isize :: u32
  rdev :: u32
  iref :: u32
  isb :: addr
  i_op :: addr
  if_op :: addr
  ipriv :: addr

record vfs_dentry =
  dname :: "u8 list"
  dinode :: addr
  parent :: addr
  child :: addr
  sibling :: addr

record vfs_file =
  fdentry :: addr
  finode :: addr
  f_op :: addr
  fflags :: u32
  pos :: u32
  fref :: u32
  fpriv :: addr

record vfs_superblock =
  sroot :: addr

record fd_table =
  files :: "addr list"
  fcount :: u32

record pipe =
  buffer :: "u32 \<Rightarrow> u8"
  read_pos :: u32
  write_pos :: u32
  psize :: u32
  readers :: u32
  writers :: u32

record devfs_device =
  dev_name :: "u8 list"
  major :: u32
  minor :: u32
  dev_inode :: addr
  dev_next :: addr

text \<open>
  The fields from \<open>dev_at\<close> to \<open>devfs_initialized\<close> are the state of the device file system \<open>Devfs\<close>.
  \<open>current\<close> tells whether there is a current process, \<open>cur_fdt\<close> and \<open>errno\<close> are its
  \<^verbatim>\<open>fd_table\<close> and \<^verbatim>\<open>errno\<close> fields.
\<close>

record vst =
  kh :: kheap
  inode_at :: "addr \<Rightarrow> vfs_inode"
  dentry_at :: "addr \<Rightarrow> vfs_dentry"
  file_at :: "addr \<Rightarrow> vfs_file"
  sb_at :: "addr \<Rightarrow> vfs_superblock"
  fdt_at :: "addr \<Rightarrow> fd_table"
  pipe_at :: "addr \<Rightarrow> pipe"
  root_dentry :: addr
  root_sb :: addr
  open_files :: "addr list"
  next_fd :: u32
  vfs_initialized :: bool
  dev_at :: "addr \<Rightarrow> devfs_device"
  device_list :: addr
  devfs_root_inode :: addr
  dev_root :: addr
  next_ino :: u32
  devfs_initialized :: bool
  current :: bool
  cur_fdt :: addr
  errno :: int

type_synonym 'a kop = "vst \<Rightarrow> (vst \<times> 'a) option"

record file_operations =
  fop_open :: "(addr \<Rightarrow> addr \<Rightarrow> int kop) option"
  fop_release :: "(addr \<Rightarrow> int kop) option"
  fop_read :: "(addr \<Rightarrow> addr \<Rightarrow> u32 \<Rightarrow> int kop) option"
  fop_write :: "(addr \<Rightarrow> addr \<Rightarrow> u32 \<Rightarrow> int kop) option"

record vfs_env =
  fops :: "addr \<Rightarrow> file_operations"
  iop_lookup :: "addr \<Rightarrow> (addr \<Rightarrow> u8 list \<Rightarrow> addr kop) option"
  procfs_lookup_path :: "u8 list \<Rightarrow> addr kop"
  fat32_get_fs :: addr
  fat32_lookup :: "addr \<Rightarrow> u8 list \<Rightarrow> addr kop"
  fat_file_size :: "addr \<Rightarrow> u32"
  fat32_file_ops :: addr

definition VFS_MAX_NAME :: nat where "VFS_MAX_NAME = 256"
definition VFS_MAX_OPEN_FILES :: nat where "VFS_MAX_OPEN_FILES = 64"

abbreviation (input) O_RDONLY :: u32 where "O_RDONLY \<equiv> 0"
abbreviation (input) O_WRONLY :: u32 where "O_WRONLY \<equiv> 1"
abbreviation (input) O_RDWR :: u32 where "O_RDWR \<equiv> 2"

definition upd_inode :: "addr \<Rightarrow> (vfs_inode \<Rightarrow> vfs_inode) \<Rightarrow> vst \<Rightarrow> vst" where
  "upd_inode a f s = s\<lparr>inode_at := (inode_at s)(a := f (inode_at s a))\<rparr>"

definition upd_dentry :: "addr \<Rightarrow> (vfs_dentry \<Rightarrow> vfs_dentry) \<Rightarrow> vst \<Rightarrow> vst" where
  "upd_dentry a f s = s\<lparr>dentry_at := (dentry_at s)(a := f (dentry_at s a))\<rparr>"

definition upd_file :: "addr \<Rightarrow> (vfs_file \<Rightarrow> vfs_file) \<Rightarrow> vst \<Rightarrow> vst" where
  "upd_file a f s = s\<lparr>file_at := (file_at s)(a := f (file_at s a))\<rparr>"

definition upd_fdt :: "addr \<Rightarrow> (fd_table \<Rightarrow> fd_table) \<Rightarrow> vst \<Rightarrow> vst" where
  "upd_fdt a f s = s\<lparr>fdt_at := (fdt_at s)(a := f (fdt_at s a))\<rparr>"

definition upd_pipe :: "addr \<Rightarrow> (pipe \<Rightarrow> pipe) \<Rightarrow> vst \<Rightarrow> vst" where
  "upd_pipe a f s = s\<lparr>pipe_at := (pipe_at s)(a := f (pipe_at s a))\<rparr>"

text \<open>\<^verbatim>\<open>kmalloc\<close> and \<^verbatim>\<open>kfree\<close> on the heap of the state.\<close>

definition kalloc :: "u32 \<Rightarrow> addr kop" where
  "kalloc n s = map_option (\<lambda>(h, p). (s\<lparr>kh := h\<rparr>, p)) (kmalloc n (kh s))"

definition krelease :: "addr \<Rightarrow> unit kop" where
  "krelease p s = map_option (\<lambda>h. (s\<lparr>kh := h\<rparr>, ())) (kfree p (kh s))"

text \<open>The byte memory of the state.\<close>

definition set_mem :: "bytes \<Rightarrow> vst \<Rightarrow> vst" where
  "set_mem m s = s\<lparr>kh := (kh s)\<lparr>payload := m\<rparr>\<rparr>"

lemma set_mem_simps [simp]: "payload (kh (set_mem m s)) = m" "pipe_at (set_mem m s) = pipe_at s"
  by (simp_all add: set_mem_def)

section \<open>Error numbers\<close>

definition set_errno :: "int \<Rightarrow> vst \<Rightarrow> vst \<times> int" where
  "set_errno e s = (if current s then s\<lparr>errno := e\<rparr> else s, - 1)"

definition get_errno :: "vst \<Rightarrow> int" where
  "get_errno s = (if current s then errno s else 0)"

definition clear_errno :: "vst \<Rightarrow> vst" where
  "clear_errno s = (if current s then s\<lparr>errno := 0\<rparr> else s)"

definition sys_get_errno :: "vst \<Rightarrow> int" where
  "sys_get_errno s = get_errno s"

section \<open>Inodes, dentries and reference counts\<close>

definition vfs_alloc_inode :: "addr \<Rightarrow> u32 \<Rightarrow> addr kop" where
  "vfs_alloc_inode sb i s = do {
     (s, inode) \<leftarrow> kalloc 36 s;
     if inode = NULL then Some (s, NULL)
     else Some (upd_inode inode (\<lambda>_. \<lparr>ino = i, mode = 0, isize = 0, rdev = 0, iref = 0, isb = sb,
                 i_op = NULL, if_op = NULL, ipriv = NULL\<rparr>) s, inode)
   }"

definition vfs_free_inode :: "addr \<Rightarrow> unit kop" where
  "vfs_free_inode inode s = (if inode \<noteq> NULL then krelease inode s else Some (s, ()))"

definition vfs_alloc_dentry :: "u8 list option \<Rightarrow> addr \<Rightarrow> addr kop" where
  "vfs_alloc_dentry name inode s =
     (case name of None \<Rightarrow> Some (s, NULL)
      | Some name \<Rightarrow> do {
          (s, dentry) \<leftarrow> kalloc 272 s;
          if dentry = NULL then Some (s, NULL)
          else Some (upd_dentry dentry (\<lambda>_. \<lparr>dname = take (VFS_MAX_NAME - 1) name, dinode = inode,
                      parent = NULL, child = NULL, sibling = NULL\<rparr>) s, dentry)
        })"

definition vfs_free_dentry :: "addr \<Rightarrow> unit kop" where
  "vfs_free_dentry dentry s = (if dentry \<noteq> NULL then krelease dentry s else Some (s, ()))"

definition inode_get :: "addr \<Rightarrow> vst \<Rightarrow> vst \<times> addr" where
  "inode_get inode s =
     (if inode \<noteq> NULL then upd_inode inode (\<lambda>i. i\<lparr>iref := iref i + 1\<rparr>) s else s, inode)"

definition inode_put :: "addr \<Rightarrow> unit kop" where
  "inode_put inode s =
     (if inode = NULL then Some (s, ())
      else let s = (if iref (inode_at s inode) > 0
                    then upd_inode inode (\<lambda>i. i\<lparr>iref := iref i - 1\<rparr>) s else s)
           in if iref (inode_at s inode) = 0 then vfs_free_inode inode s else Some (s, ()))"

definition file_get :: "addr \<Rightarrow> vst \<Rightarrow> vst \<times> addr" where
  "file_get file s =
     (if file \<noteq> NULL then upd_file file (\<lambda>f. f\<lparr>fref := fref f + 1\<rparr>) s else s, file)"

definition free_file :: "addr \<Rightarrow> unit kop" where
  "free_file file s = (if file \<noteq> NULL then krelease file s else Some (s, ()))"

definition call_release :: "vfs_env \<Rightarrow> addr \<Rightarrow> unit kop" where
  "call_release env file s =
     (let op = f_op (file_at s file) in
      case (if op \<noteq> NULL then fop_release (fops env op) else None) of
        None \<Rightarrow> Some (s, ())
      | Some rel \<Rightarrow> do { (s, _) \<leftarrow> rel file s; Some (s, ()) })"

definition file_put :: "vfs_env \<Rightarrow> addr \<Rightarrow> unit kop" where
  "file_put env file s =
     (if file = NULL then Some (s, ())
      else let s = (if fref (file_at s file) > 0
                    then upd_file file (\<lambda>f. f\<lparr>fref := fref f - 1\<rparr>) s else s)
           in if fref (file_at s file) = 0 then do {
                (s, _) \<leftarrow> call_release env file s;
                (s, _) \<leftarrow> (if finode (file_at s file) \<noteq> NULL
                           then inode_put (finode (file_at s file)) s else Some (s, ()));
                free_file file s
              } else Some (s, ()))"

definition vfs_add_child_dentry :: "addr \<Rightarrow> addr \<Rightarrow> vst \<Rightarrow> vst \<times> int" where
  "vfs_add_child_dentry par ch s =
     (if par = NULL \<or> ch = NULL then (s, - EINVAL)
      else let s = upd_dentry ch (\<lambda>d. d\<lparr>parent := par\<rparr>) s;
               s = upd_dentry ch (\<lambda>d. d\<lparr>sibling := child (dentry_at s par)\<rparr>) s;
               s = upd_dentry par (\<lambda>d. d\<lparr>child := ch\<rparr>) s
           in (s, 0))"

section \<open>Path resolution\<close>

partial_function (option) find_child :: "(addr \<Rightarrow> vfs_dentry) \<Rightarrow> u8 list \<Rightarrow> addr \<Rightarrow> addr option" where
  "find_child mem name ch =
     (if ch = NULL then Some NULL
      else if dname (mem ch) = name then Some ch
      else find_child mem name (sibling (mem ch)))"

definition lookup_child :: "vfs_env \<Rightarrow> addr \<Rightarrow> u8 list \<Rightarrow> addr kop" where
  "lookup_child env par name s =
     (if par = NULL then Some (s, NULL)
      else if name = [46] then Some (s, par)
      else if name = [46, 46]
      then Some (s, if parent (dentry_at s par) \<noteq> NULL then parent (dentry_at s par) else par)
      else do {
        ch \<leftarrow> find_child (dentry_at s) name (child (dentry_at s par));
        if ch \<noteq> NULL then Some (s, ch)
        else let inode = dinode (dentry_at s par);
                 op = i_op (inode_at s inode)
             in if inode \<noteq> NULL \<and> op \<noteq> NULL then
                  (case iop_lookup env op of None \<Rightarrow> Some (s, NULL)
                   | Some lookup \<Rightarrow> lookup inode name s)
                else Some (s, NULL)
      })"

text \<open>
  One component is at most 255 bytes: the loop \<^verbatim>\<open>while (*p && *p != '/' && i < VFS_MAX_NAME - 1)\<close>.
  The second part of the result is the rest of the path.
\<close>

fun component :: "nat \<Rightarrow> u8 list \<Rightarrow> u8 list \<times> u8 list" where
  "component i [] = ([], [])"
| "component i (c # cs) =
     (if c \<noteq> 47 \<and> i < VFS_MAX_NAME - 1
      then (case component (Suc i) cs of (w, rest) \<Rightarrow> (c # w, rest)) else ([], c # cs))"

lemma component_length: "component i p = (w, rest) \<Longrightarrow> length w + length rest = length p"
  by (induction i p arbitrary: w rest rule: component.induct) (auto split: if_splits prod.splits)

lemma component_shorter:
  "component 0 p = (w, rest) \<Longrightarrow> p \<noteq> [] \<Longrightarrow> hd p \<noteq> 47 \<Longrightarrow> length rest < length p"
  using component_length [of 0 p w rest] by (cases p) (auto simp: VFS_MAX_NAME_def split: prod.splits)

text \<open>
  The loop over the components; the result is the dentry, or \<open>NULL\<close> where the code jumps to
  \<^verbatim>\<open>try_fat32\<close>.
\<close>

function walk :: "vfs_env \<Rightarrow> addr \<Rightarrow> u8 list \<Rightarrow> addr kop" where
  "walk env cur p s =
     (let p = dropWhile (\<lambda>c. c = 47) p in
      if p = [] then Some (s, cur)
      else case component 0 p of (w, rest) \<Rightarrow>
        Option.bind (lookup_child env cur w s)
          (\<lambda>(s, nxt). if nxt = NULL then Some (s, NULL) else walk env nxt rest s))"
  by pat_completeness auto
termination
proof (relation "measure (\<lambda>(env, cur, p, s). length p)", goal_cases)
  case (2 env cur p s p' x y z a b)
  let ?p = "dropWhile (\<lambda>c. c = 47) p"
  have "hd ?p \<noteq> 47"
    using 2(1,2) hd_dropWhile [of "\<lambda>c. c = 47" p] by auto
  then have "length y < length ?p"
    using 2(1,2,3) by (intro component_shorter [of _ x]) auto
  also have "\<dots> \<le> length p"
    by (rule length_dropWhile_le)
  finally show ?case
    by simp
qed simp

declare walk.simps [simp del]

text \<open>\<^verbatim>\<open>strrchr(path, '/')\<close> plus one: the bytes after the last slash.\<close>

definition base_name :: "u8 list \<Rightarrow> u8 list" where
  "base_name p = rev (takeWhile (\<lambda>c. c \<noteq> 47) (rev p))"

definition try_fat32 :: "vfs_env \<Rightarrow> u8 list \<Rightarrow> addr kop" where
  "try_fat32 env path s =
     (if fat32_get_fs env = NULL then Some (s, NULL)
      else do {
        (s, fat_entry) \<leftarrow> fat32_lookup env (fat32_get_fs env) path s;
        if fat_entry = NULL then Some (s, NULL)
        else do {
          (s, inode) \<leftarrow> vfs_alloc_inode NULL 0 s;
          if inode \<noteq> NULL then
            let s = upd_inode inode (\<lambda>i. i\<lparr>isize := fat_file_size env fat_entry, ipriv := fat_entry,
                      if_op := fat32_file_ops env\<rparr>) s
            in vfs_alloc_dentry (Some (base_name path)) inode s
          else do { (s, _) \<leftarrow> krelease fat_entry s; Some (s, NULL) }
        }
      })"

definition vfs_lookup :: "vfs_env \<Rightarrow> u8 list option \<Rightarrow> addr kop" where
  "vfs_lookup env path s =
     (case path of None \<Rightarrow> Some (s, NULL)
      | Some path \<Rightarrow>
        if \<not> vfs_initialized s \<or> root_dentry s = NULL then Some (s, NULL)
        else if path = [] \<or> path = [47] then Some (s, root_dentry s)
        else if hd path \<noteq> 47 then Some (s, NULL)
        else if take 5 path = [47, 112, 114, 111, 99] then procfs_lookup_path env path s
        else do {
          (s, d) \<leftarrow> walk env (root_dentry s) (tl path) s;
          if d = NULL then try_fat32 env path s else Some (s, d)
        })"

section \<open>The table of open files\<close>

text \<open>The first index of a null entry, or \<open>-1\<close>.\<close>

fun first_free :: "nat \<Rightarrow> addr list \<Rightarrow> int" where
  "first_free i [] = - 1"
| "first_free i (f # fs) = (if f = NULL then int i else first_free (Suc i) fs)"

definition alloc_fd :: "vst \<Rightarrow> int" where
  "alloc_fd s = first_free 0 (take VFS_MAX_OPEN_FILES (open_files s))"

definition alloc_file :: "addr kop" where
  "alloc_file s = do {
     (s, file) \<leftarrow> kalloc 28 s;
     if file = NULL then Some (s, NULL)
     else Some (upd_file file (\<lambda>_. \<lparr>fdentry = NULL, finode = NULL, f_op = NULL, fflags = 0, pos = 0,
                 fref = 0, fpriv = NULL\<rparr>) s, file)
   }"

definition vfs_init :: "vst \<Rightarrow> vst" where
  "vfs_init s = s\<lparr>root_dentry := NULL, root_sb := NULL, open_files := replicate VFS_MAX_OPEN_FILES NULL,
                  next_fd := 0, vfs_initialized := False\<rparr>"

definition vfs_register_filesystem :: "u8 list option \<Rightarrow> addr \<Rightarrow> int kop" where
  "vfs_register_filesystem name sb s =
     (if name = None \<or> sb = NULL \<or> sroot (sb_at s sb) = NULL then Some (s, - EINVAL)
      else do {
        (s, d) \<leftarrow> vfs_alloc_dentry (Some [47]) (sroot (sb_at s sb)) s;
        if d = NULL then Some (s, - ENOMEM)
        else Some (s\<lparr>root_dentry := d, root_sb := sb, vfs_initialized := True\<rparr>, 0)
      })"

definition call_open :: "vfs_env \<Rightarrow> addr \<Rightarrow> int kop" where
  "call_open env file s =
     (let op = f_op (file_at s file) in
      case (if op \<noteq> NULL then fop_open (fops env op) else None) of
        None \<Rightarrow> Some (s, 0)
      | Some open_ \<Rightarrow> open_ (finode (file_at s file)) file s)"

definition vfs_open :: "vfs_env \<Rightarrow> u8 list option \<Rightarrow> u32 \<Rightarrow> int kop" where
  "vfs_open env path flags s =
     (if path = None \<or> \<not> vfs_initialized s then Some (s, - EINVAL)
      else do {
        (s, dentry) \<leftarrow> vfs_lookup env path s;
        if dentry = NULL then Some (s, - ENOENT)
        else if dinode (dentry_at s dentry) = NULL then Some (s, - ENOENT)
        else do {
          (s, file) \<leftarrow> alloc_file s;
          if file = NULL then Some (s, - ENOMEM)
          else do {
            let inode = dinode (dentry_at s dentry);
            let s = upd_file file (\<lambda>f. f\<lparr>fdentry := dentry, finode := inode,
                      f_op := if_op (inode_at s inode), fflags := flags, pos := 0, fref := 1,
                      fpriv := ipriv (inode_at s inode)\<rparr>) s;
            let (s, _) = inode_get (finode (file_at s file)) s;
            (s, ret) \<leftarrow> call_open env file s;
            if ret < 0 then do { (s, _) \<leftarrow> free_file file s; Some (s, ret) }
            else let fd = alloc_fd s in
              if fd < 0 then do {
                (s, _) \<leftarrow> call_release env file s;
                (s, _) \<leftarrow> free_file file s;
                Some (s, - ENOMEM)
              } else Some (s\<lparr>open_files := (open_files s)[nat fd := file]\<rparr>, fd)
          }
        }
      })"

definition vfs_close :: "vfs_env \<Rightarrow> int \<Rightarrow> int kop" where
  "vfs_close env fd s =
     (if fd < 0 \<or> fd \<ge> int VFS_MAX_OPEN_FILES then Some (s, - EBADF)
      else let file = open_files s ! nat fd in
      if file = NULL then Some (s, - EBADF)
      else do {
        let s = s\<lparr>open_files := (open_files s)[nat fd := NULL]\<rparr>;
        (s, _) \<leftarrow> file_put env file s;
        Some (s, 0)
      })"

definition vfs_state_get_file :: "int \<Rightarrow> vst \<Rightarrow> addr" where
  "vfs_state_get_file fd s =
     (if fd < 0 \<or> fd \<ge> int VFS_MAX_OPEN_FILES then NULL else open_files s ! nat fd)"

definition vfs_open_file :: "vfs_env \<Rightarrow> u8 list option \<Rightarrow> u32 \<Rightarrow> addr kop" where
  "vfs_open_file env path flags s = do {
     (s, global_fd) \<leftarrow> vfs_open env path flags s;
     if global_fd < 0 then Some (s, NULL)
     else let global_file = vfs_state_get_file global_fd s in
       if global_file = NULL then do { (s, _) \<leftarrow> vfs_close env global_fd s; Some (s, NULL) }
       else do {
         let (s, file) = file_get global_file s;
         (s, _) \<leftarrow> vfs_close env global_fd s;
         Some (s, file)
       }
   }"

definition vfs_file_read :: "vfs_env \<Rightarrow> addr \<Rightarrow> addr \<Rightarrow> u32 \<Rightarrow> int kop" where
  "vfs_file_read env file buf count s =
     (if file = NULL \<or> buf = NULL then Some (s, - EINVAL)
      else let access = fflags (file_at s file) AND 3 in
      if access \<noteq> O_RDONLY \<and> access \<noteq> O_RDWR then Some (s, - EBADF)
      else let op = f_op (file_at s file) in
      case (if op \<noteq> NULL then fop_read (fops env op) else None) of
        None \<Rightarrow> Some (s, - EINVAL)
      | Some rd \<Rightarrow> rd file buf count s)"

definition vfs_read :: "vfs_env \<Rightarrow> int \<Rightarrow> addr \<Rightarrow> u32 \<Rightarrow> int kop" where
  "vfs_read env fd buf count s =
     (if fd < 0 \<or> fd \<ge> int VFS_MAX_OPEN_FILES \<or> buf = NULL then Some (s, - EINVAL)
      else let file = open_files s ! nat fd in
      if file = NULL then Some (s, - EBADF)
      else let access = fflags (file_at s file) AND 3 in
      if access \<noteq> O_RDONLY \<and> access \<noteq> O_RDWR then Some (s, - EBADF)
      else let op = f_op (file_at s file) in
      case (if op \<noteq> NULL then fop_read (fops env op) else None) of
        None \<Rightarrow> Some (s, - EINVAL)
      | Some rd \<Rightarrow> rd file buf count s)"

definition vfs_file_write :: "vfs_env \<Rightarrow> addr \<Rightarrow> addr \<Rightarrow> u32 \<Rightarrow> int kop" where
  "vfs_file_write env file buf count s =
     (if file = NULL \<or> buf = NULL then Some (s, - EINVAL)
      else let access = fflags (file_at s file) AND 3 in
      if access \<noteq> O_WRONLY \<and> access \<noteq> O_RDWR then Some (s, - EBADF)
      else let op = f_op (file_at s file) in
      case (if op \<noteq> NULL then fop_write (fops env op) else None) of
        None \<Rightarrow> Some (s, - EINVAL)
      | Some wr \<Rightarrow> wr file buf count s)"

definition vfs_write :: "vfs_env \<Rightarrow> int \<Rightarrow> addr \<Rightarrow> u32 \<Rightarrow> int kop" where
  "vfs_write env fd buf count s =
     (if fd < 0 \<or> fd \<ge> int VFS_MAX_OPEN_FILES \<or> buf = NULL then Some (s, - EINVAL)
      else let file = open_files s ! nat fd in
      if file = NULL then Some (s, - EBADF) else vfs_file_write env file buf count s)"

text \<open>\<^verbatim>\<open>off_t\<close> is a 32-bit signed integer: the new position is computed modulo \<open>2 ^ 32\<close>.\<close>

definition vfs_lseek :: "int \<Rightarrow> u32 \<Rightarrow> int \<Rightarrow> vst \<Rightarrow> vst \<times> int" where
  "vfs_lseek fd offset whence s =
     (if fd < 0 \<or> fd \<ge> int VFS_MAX_OPEN_FILES then (s, - EINVAL)
      else let file = open_files s ! nat fd in
      if file = NULL then (s, - EBADF)
      else let set_pos = (\<lambda>new_pos. if sint new_pos < 0 then (s, - EINVAL)
                            else (upd_file file (\<lambda>f. f\<lparr>pos := new_pos\<rparr>) s, sint new_pos)) in
      if whence = 0 then set_pos offset
      else if whence = 1 then set_pos (pos (file_at s file) + offset)
      else if whence = 2 then
        if finode (file_at s file) = NULL then (s, - EINVAL)
        else set_pos (isize (inode_at s (finode (file_at s file))) + offset)
      else (s, - EINVAL))"

definition vfs_get_root_dentry :: "vst \<Rightarrow> addr" where
  "vfs_get_root_dentry s = root_dentry s"

section \<open>An example state\<close>

definition zero_inode :: vfs_inode where
  "zero_inode = \<lparr>ino = 0, mode = 0, isize = 0, rdev = 0, iref = 0, isb = 0, i_op = 0, if_op = 0, ipriv = 0\<rparr>"

definition zero_dentry :: vfs_dentry where
  "zero_dentry = \<lparr>dname = [], dinode = 0, parent = 0, child = 0, sibling = 0\<rparr>"

definition zero_file :: vfs_file where
  "zero_file = \<lparr>fdentry = 0, finode = 0, f_op = 0, fflags = 0, pos = 0, fref = 0, fpriv = 0\<rparr>"

text \<open>A process without open files on the example heap.\<close>

definition demo_vst :: vst where
  "demo_vst = \<lparr>kh = demo_heap4, inode_at = (\<lambda>_. zero_inode), dentry_at = (\<lambda>_. zero_dentry),
     file_at = (\<lambda>_. zero_file), sb_at = (\<lambda>_. \<lparr>sroot = 0\<rparr>),
     fdt_at = (\<lambda>_. \<lparr>files = replicate 64 0, fcount = 0\<rparr>),
     pipe_at = (\<lambda>_. \<lparr>buffer = (\<lambda>_. 0), read_pos = 0, write_pos = 0, psize = 0, readers = 1, writers = 1\<rparr>),
     root_dentry = 0, root_sb = 0, open_files = replicate 64 0, next_fd = 0, vfs_initialized = False,
     dev_at = (\<lambda>_. \<lparr>dev_name = [], major = 0, minor = 0, dev_inode = 0, dev_next = 0\<rparr>), device_list = 0,
     devfs_root_inode = 0, dev_root = 0, next_ino = 0, devfs_initialized = False, current = True, cur_fdt = 0xD0001000, errno = 0\<rparr>"

end
