(* ===== verification/Fdtable.thy ===== *)
theory Fdtable
  imports Vfs
begin

text \<open>
  File descriptor tables, \<^verbatim>\<open>process/fd_table.c\<close>, and the system calls on descriptors in
  \<^verbatim>\<open>syscall/sys_fd.c\<close> and \<^verbatim>\<open>syscall/sys_io.c\<close>.  The system calls act on the table \<open>cur_fdt\<close> of the
  current process.  An access outside an array is the outcome \<open>None\<close>.
\<close>

definition MAX_FILES_PER_PROCESS :: nat where "MAX_FILES_PER_PROCESS = 64"

abbreviation (input) EMFILE :: int where "EMFILE \<equiv> 24"
abbreviation (input) ENAMETOOLONG :: int where "ENAMETOOLONG \<equiv> 36"
abbreviation (input) ENOSYS :: int where "ENOSYS \<equiv> 38"

section \<open>Tables\<close>

definition fd_table_create :: "addr kop" where
  "fd_table_create s = do {
     (s, table) \<leftarrow> kalloc 260 s;
     if table = NULL then Some (s, NULL)
     else Some (upd_fdt table (\<lambda>_. \<lparr>files = replicate MAX_FILES_PER_PROCESS NULL, fcount = 0\<rparr>) s, table)
   }"

text \<open>The loop of \<^verbatim>\<open>fd_table_destroy\<close> from index \<open>i\<close>, \<open>n\<close> entries left.\<close>

fun close_all :: "vfs_env \<Rightarrow> addr \<Rightarrow> nat \<Rightarrow> nat \<Rightarrow> unit kop" where
  "close_all env table i 0 s = Some (s, ())"
| "close_all env table i (Suc n) s =
     (let file = files (fdt_at s table) ! i in
      if file \<noteq> NULL then
        Option.bind (file_put env file s)
          (\<lambda>(s, _). close_all env table (Suc i) n
             (upd_fdt table (\<lambda>t. t\<lparr>files := (files t)[i := NULL]\<rparr>) s))
      else close_all env table (Suc i) n s)"

definition fd_table_destroy :: "vfs_env \<Rightarrow> addr \<Rightarrow> unit kop" where
  "fd_table_destroy env table s =
     (if table = NULL then Some (s, ())
      else do {
        (s, _) \<leftarrow> close_all env table 0 MAX_FILES_PER_PROCESS s;
        krelease table s
      })"

definition fd_table_alloc :: "addr \<Rightarrow> addr \<Rightarrow> vst \<Rightarrow> vst \<times> int" where
  "fd_table_alloc table file s =
     (if table = NULL \<or> file = NULL then (s, - 1)
      else let i = first_free 0 (take MAX_FILES_PER_PROCESS (files (fdt_at s table))) in
      if i \<ge> 0
      then (upd_fdt table (\<lambda>t. t\<lparr>files := (files t)[nat i := file], fcount := fcount t + 1\<rparr>) s, i)
      else (s, - 1))"

definition fd_table_free :: "vfs_env \<Rightarrow> addr \<Rightarrow> int \<Rightarrow> int kop" where
  "fd_table_free env table fd s =
     (if table = NULL \<or> fd < 0 \<or> fd \<ge> int MAX_FILES_PER_PROCESS then Some (s, - 1)
      else let file = files (fdt_at s table) ! nat fd in
      if file \<noteq> NULL then do {
        (s, _) \<leftarrow> file_put env file s;
        Some (upd_fdt table (\<lambda>t. t\<lparr>files := (files t)[nat fd := NULL], fcount := fcount t - 1\<rparr>) s, 0)
      } else Some (s, - 1))"

definition fd_table_get :: "addr \<Rightarrow> int \<Rightarrow> vst \<Rightarrow> addr" where
  "fd_table_get table fd s =
     (if table = NULL \<or> fd < 0 \<or> fd \<ge> int MAX_FILES_PER_PROCESS then NULL
      else files (fdt_at s table) ! nat fd)"

definition fd_table_copy :: "addr \<Rightarrow> addr kop" where
  "fd_table_copy src s =
     (if src = NULL then Some (s, NULL)
      else do {
        (s, dst) \<leftarrow> fd_table_create s;
        if dst = NULL then Some (s, NULL)
        else Some (upd_fdt dst (\<lambda>t. t\<lparr>files := files (fdt_at s src), fcount := fcount (fdt_at s src)\<rparr>) s, dst)
      })"

section \<open>Duplicating descriptors\<close>

text \<open>The entry of a descriptor of the current process, \<open>NULL\<close> if the number is out of range.\<close>

definition cur_file :: "int \<Rightarrow> vst \<Rightarrow> addr" where
  "cur_file fd s =
     (if fd < 0 \<or> fd \<ge> int MAX_FILES_PER_PROCESS then NULL else files (fdt_at s (cur_fdt s)) ! nat fd)"

definition sys_dup :: "vfs_env \<Rightarrow> int \<Rightarrow> int kop" where
  "sys_dup env oldfd s =
     (if \<not> current s \<or> cur_fdt s = NULL then Some (set_errno EBADF s)
      else if cur_file oldfd s = NULL then Some (set_errno EBADF s)
      else let file = cur_file oldfd s;
               (s, _) = file_get file s;
               (s, newfd) = fd_table_alloc (cur_fdt s) file s
           in if newfd < 0 then do { (s, _) \<leftarrow> file_put env file s; Some (set_errno EMFILE s) }
              else Some (s, newfd))"

definition sys_dup2 :: "vfs_env \<Rightarrow> int \<Rightarrow> int \<Rightarrow> int kop" where
  "sys_dup2 env oldfd newfd s =
     (if \<not> current s \<or> cur_fdt s = NULL then Some (set_errno EBADF s)
      else if cur_file oldfd s = NULL then Some (set_errno EBADF s)
      else if newfd < 0 \<or> newfd \<ge> int MAX_FILES_PER_PROCESS then Some (set_errno EBADF s)
      else if oldfd = newfd then Some (s, newfd)
      else do {
        (s, _) \<leftarrow> (if cur_file newfd s \<noteq> NULL then fd_table_free env (cur_fdt s) newfd s else Some (s, 0));
        let file = cur_file oldfd s;
        let (s, _) = file_get file s;
        Some (upd_fdt (cur_fdt s) (\<lambda>t. t\<lparr>files := (files t)[nat newfd := file]\<rparr>) s, newfd)
      })"

text \<open>
  \<open>F_DUPFD\<close> starts its search at the signed argument without a test.  With a negative one it reads and may
  write before the table of descriptors, which is undefined: that call is \<open>None\<close>.
\<close>

definition sys_fcntl :: "int \<Rightarrow> int \<Rightarrow> u32 \<Rightarrow> int kop" where
  "sys_fcntl fd cmd arg s =
     (if \<not> current s \<or> cur_fdt s = NULL then Some (set_errno EBADF s)
      else if cur_file fd s = NULL then Some (set_errno EBADF s)
      else let file = cur_file fd s in
      if cmd = 0 then
        if sint arg < 0 then None
        else let newfd = first_free (nat (sint arg))
                           (drop (nat (sint arg)) (take MAX_FILES_PER_PROCESS (files (fdt_at s (cur_fdt s)))))
             in if newfd \<ge> 0 then
                  let (s, _) = file_get file s
                  in Some (upd_fdt (cur_fdt s) (\<lambda>t. t\<lparr>files := (files t)[nat newfd := file]\<rparr>) s, newfd)
                else Some (set_errno EMFILE s)
      else if cmd = 1 then Some (s, 0)
      else if cmd = 2 then Some (s, 0)
      else if cmd = 3 then Some (s, sint (fflags (file_at s file)))
      else if cmd = 4 then
        Some (upd_file file (\<lambda>f. f\<lparr>fflags := (fflags f AND NOT 0xC00) OR (arg AND 0xC00)\<rparr>) s, 0)
      else Some (set_errno EINVAL s))"

section \<open>Reading, writing, opening and closing\<close>

definition sys_read :: "vfs_env \<Rightarrow> int \<Rightarrow> addr \<Rightarrow> u32 \<Rightarrow> int kop" where
  "sys_read env fd buf count s =
     (if fd < 0 \<or> buf = NULL \<or> count = 0 then Some (s, - EINVAL)
      else if \<not> current s \<or> cur_fdt s = NULL then Some (s, - EBADF)
      else if fd < 0 \<or> fd \<ge> int MAX_FILES_PER_PROCESS then Some (s, - EBADF)
      else let file = files (fdt_at s (cur_fdt s)) ! nat fd in
      if file = NULL then Some (s, - EBADF) else vfs_file_read env file buf count s)"

definition sys_write :: "vfs_env \<Rightarrow> int \<Rightarrow> addr \<Rightarrow> u32 \<Rightarrow> int kop" where
  "sys_write env fd buf count s =
     (if fd < 0 \<or> buf = NULL \<or> count = 0 then Some (s, - EINVAL)
      else if \<not> current s \<or> cur_fdt s = NULL then vfs_write env fd buf count s
      else if fd \<ge> int MAX_FILES_PER_PROCESS \<or> files (fdt_at s (cur_fdt s)) ! nat fd = NULL
      then Some (s, - EBADF)
      else vfs_file_write env (files (fdt_at s (cur_fdt s)) ! nat fd) buf count s)"

text \<open>The length check on the path: at most \<open>n\<close> bytes are inspected, and only user addresses.\<close>

fun path_length :: "nat \<Rightarrow> addr \<Rightarrow> bytes \<Rightarrow> nat" where
  "path_length 0 p m = 0"
| "path_length (Suc n) p m =
     (if \<not> is_user_address p then 0 else if m p = 0 then 0 else Suc (path_length n (p + 1) m))"

partial_function (option) read_cstr :: "bytes \<Rightarrow> addr \<Rightarrow> u8 list option" where
  "read_cstr m p =
     (if m p = 0 then Some [] else Option.bind (read_cstr m (p + 1)) (\<lambda>cs. Some (m p # cs)))"

definition sys_open :: "vfs_env \<Rightarrow> addr \<Rightarrow> u32 \<Rightarrow> int kop" where
  "sys_open env path flags s =
     (if path = NULL then Some (s, - EINVAL)
      else if path_length 4096 path (payload (kh s)) \<ge> 4096 then Some (s, - ENAMETOOLONG)
      else if \<not> current s \<or> cur_fdt s = NULL then Some (s, - EBADF)
      else do {
        name \<leftarrow> read_cstr (payload (kh s)) path;
        (s, file) \<leftarrow> vfs_open_file env (Some name) flags s;
        if file = NULL then Some (s, - ENOENT)
        else let (s, fd) = fd_table_alloc (cur_fdt s) file s in
          if fd < 0 then do { (s, _) \<leftarrow> file_put env file s; Some (s, - ENOMEM) }
          else Some (s, fd)
      })"

definition sys_close :: "vfs_env \<Rightarrow> int \<Rightarrow> int kop" where
  "sys_close env fd s =
     (if fd < 0 then Some (s, - EINVAL)
      else if \<not> current s \<or> cur_fdt s = NULL then Some (s, - EBADF)
      else fd_table_free env (cur_fdt s) fd s)"

definition sys_lseek :: "int \<Rightarrow> u32 \<Rightarrow> int \<Rightarrow> vst \<Rightarrow> vst \<times> int" where
  "sys_lseek fd offset whence s = vfs_lseek fd offset whence s"

definition sys_creat :: "vfs_env \<Rightarrow> addr \<Rightarrow> int kop" where
  "sys_creat env path s = sys_open env path (0x40 OR O_WRONLY OR 0x200) s"

definition sys_unlink :: "addr \<Rightarrow> int kop" where
  "sys_unlink path s = Some (s, - ENOSYS)"

end
