(* ===== verification/Fifo.thy ===== *)
theory Fifo
  imports Prelude
begin

text \<open>
  The contract of a bounded first-in first-out buffer, and the ring buffer lemmas with which the
  components that contain one discharge it.
\<close>

section \<open>Ring buffers\<close>

text \<open>\<open>ring buf r n N\<close>: the \<open>n\<close> entries from index \<open>r\<close> on in a ring of \<open>N\<close> slots.\<close>

definition ring :: "(nat \<Rightarrow> 'a) \<Rightarrow> nat \<Rightarrow> nat \<Rightarrow> nat \<Rightarrow> 'a list" where
  "ring buf r n N = map (\<lambda>i. buf ((r + i) mod N)) [0..<n]"

lemma length_ring [simp]: "length (ring buf r n N) = n"
  by (simp add: ring_def)

lemma ring_index_inj:
  fixes r i n N :: nat
  assumes "i < n" "n < N" "(r + i) mod N = (r + n) mod N"
  shows False
proof -
  have "N dvd (r + n) - (r + i)"
    using assms(3) by (metis mod_eq_dvd_iff_nat assms(1) add_le_cancel_left less_imp_le_nat)
  then have "N \<le> n - i"
    using assms(1) by (auto dest: dvd_imp_le)
  then show False
    using assms(2) by simp
qed

lemma ring_put:
  assumes "n < N"
  shows "ring (buf((r + n) mod N := x)) r (Suc n) N = ring buf r n N @ [x]"
  using ring_index_inj [OF _ assms, of _ r] by (auto simp: ring_def dest: ring_index_inj [OF _ assms])

lemma ring_get:
  assumes "0 < n" "r < N"
  shows "ring buf r n N = buf r # ring buf ((r + 1) mod N) (n - 1) N"
proof (rule nth_equalityI)
  show "ring buf r n N ! i = (buf r # ring buf ((r + 1) mod N) (n - 1) N) ! i"
    if "i < length (ring buf r n N)" for i
    using that assms by (cases i) (auto simp: ring_def mod_simps)
qed (use assms in simp)

section \<open>The contract\<close>

locale fifo =
  fixes ok :: "'s \<Rightarrow> bool"
    and contents :: "'s \<Rightarrow> 'a list"
    and capacity :: nat
    and put :: "'a \<Rightarrow> 's \<Rightarrow> 's"
    and get :: "'s \<Rightarrow> 's \<times> 'a"
  assumes bounded: "ok s \<Longrightarrow> length (contents s) \<le> capacity"
    and put_appends: "ok s \<Longrightarrow> length (contents s) < capacity \<Longrightarrow>
      ok (put x s) \<and> contents (put x s) = contents s @ [x]"
    and get_removes: "ok s \<Longrightarrow> contents s \<noteq> [] \<Longrightarrow>
      ok (fst (get s)) \<and> contents s = snd (get s) # contents (fst (get s))"
begin

lemma put_all:
  "ok s \<Longrightarrow> length (contents s) + length xs \<le> capacity \<Longrightarrow>
   ok (fold put xs s) \<and> contents (fold put xs s) = contents s @ xs"
proof (induction xs arbitrary: s)
  case (Cons x xs)
  then show ?case
    using put_appends [of s x] by auto
qed simp

fun get_many :: "nat \<Rightarrow> 's \<Rightarrow> 's \<times> 'a list" where
  "get_many 0 s = (s, [])"
| "get_many (Suc n) s = (case get s of (s', x) \<Rightarrow> case get_many n s' of (t, xs) \<Rightarrow> (t, x # xs))"

lemma get_many_prefix:
  "ok s \<Longrightarrow> n \<le> length (contents s) \<Longrightarrow> get_many n s = (t, xs) \<Longrightarrow>
   ok t \<and> xs = take n (contents s) \<and> contents t = drop n (contents s)"
proof (induction n arbitrary: s t xs)
  case (Suc n)
  obtain s' x where g: "get s = (s', x)"
    by force
  have c: "ok s'" "contents s = x # contents s'"
    using get_removes [of s] Suc.prems g by (auto simp flip: length_greater_0_conv)
  show ?case
    using Suc.IH [of s'] Suc.prems g c by (auto split: prod.splits)
qed simp

text \<open>What goes in comes out in the same order.\<close>

lemma put_then_get:
  assumes "ok s" "contents s = []" "length xs \<le> capacity"
  shows "snd (get_many (length xs) (fold put xs s)) = xs"
proof -
  have "ok (fold put xs s)" "contents (fold put xs s) = xs"
    using put_all [of s xs] assms by auto
  then show ?thesis
    using get_many_prefix [of "fold put xs s" "length xs"] by (cases "get_many (length xs) (fold put xs s)") auto
qed

end

end
