(* ===== verification/Pipe.thy ===== *)
theory Pipe
  imports Fdtable Fifo
begin

text \<open>
  Anonymous pipes, \<^verbatim>\<open>ipc/pipe.c\<close>: a ring buffer of \<open>PIPE_BUF\<close> bytes with counts of readers and
  writers.  User buffers are addresses in the byte memory of the heap.
\<close>

definition PIPE_BUF :: u32 where "PIPE_BUF = 4096"

definition pipe_create :: "addr kop" where
  "pipe_create s = do {
     (s, p) \<leftarrow> kalloc 4116 s;
     if p = NULL then Some (s, NULL)
     else Some (upd_pipe p (\<lambda>_. \<lparr>buffer = (\<lambda>_. 0), read_pos = 0, write_pos = 0, psize = 0,
                 readers = 1, writers = 1\<rparr>) s, p)
   }"

definition pipe_destroy :: "addr \<Rightarrow> unit kop" where
  "pipe_destroy p s = (if p = NULL then Some (s, ()) else krelease p s)"

definition get_byte :: "pipe \<Rightarrow> pipe \<times> u8" where
  "get_byte p = (p\<lparr>read_pos := (read_pos p + 1) mod PIPE_BUF, psize := psize p - 1\<rparr>, buffer p (read_pos p))"

definition put_byte :: "u8 \<Rightarrow> pipe \<Rightarrow> pipe" where
  "put_byte c p = p\<lparr>buffer := (buffer p)(write_pos p := c), write_pos := (write_pos p + 1) mod PIPE_BUF,
                    psize := psize p + 1\<rparr>"

text \<open>The copy loops: \<open>n\<close> bytes left, \<open>i\<close> bytes moved.\<close>

fun read_loop :: "nat \<Rightarrow> u32 \<Rightarrow> addr \<Rightarrow> pipe \<Rightarrow> bytes \<Rightarrow> pipe \<times> bytes" where
  "read_loop 0 i buf p m = (p, m)"
| "read_loop (Suc n) i buf p m =
     (case get_byte p of (p', c) \<Rightarrow> read_loop n (i + 1) buf p' (m(buf + i := c)))"

fun write_loop :: "nat \<Rightarrow> u32 \<Rightarrow> addr \<Rightarrow> bytes \<Rightarrow> pipe \<Rightarrow> pipe" where
  "write_loop 0 i buf m p = p"
| "write_loop (Suc n) i buf m p = write_loop n (i + 1) buf m (put_byte (m (buf + i)) p)"

definition pipe_read :: "addr \<Rightarrow> addr \<Rightarrow> u32 \<Rightarrow> vst \<Rightarrow> vst \<times> int" where
  "pipe_read p buf count s =
     (if p = NULL \<or> buf = NULL then set_errno EINVAL s
      else let q = pipe_at s p in
      if psize q = 0 \<and> writers q = 0 then (s, 0)
      else if psize q = 0 then set_errno EAGAIN s
      else let to_read = (if count < psize q then count else psize q);
               (q, m) = read_loop (unat to_read) 0 buf q (payload (kh s))
           in (set_mem m (upd_pipe p (\<lambda>_. q) s), uint to_read))"

definition pipe_write :: "addr \<Rightarrow> addr \<Rightarrow> u32 \<Rightarrow> vst \<Rightarrow> vst \<times> int" where
  "pipe_write p buf count s =
     (if p = NULL \<or> buf = NULL then set_errno EINVAL s
      else let q = pipe_at s p in
      if readers q = 0 then set_errno EPIPE s
      else if psize q \<ge> PIPE_BUF then set_errno EAGAIN s
      else let space = PIPE_BUF - psize q;
               to_write = (if count < space then count else space)
           in (upd_pipe p (write_loop (unat to_write) 0 buf (payload (kh s))) s, uint to_write))"

definition pipe_close_read :: "addr \<Rightarrow> unit kop" where
  "pipe_close_read p s =
     (if p = NULL then Some (s, ())
      else let s = (if readers (pipe_at s p) > 0
                    then upd_pipe p (\<lambda>q. q\<lparr>readers := readers q - 1\<rparr>) s else s)
           in if readers (pipe_at s p) = 0 \<and> writers (pipe_at s p) = 0 then pipe_destroy p s
              else Some (s, ()))"

definition pipe_close_write :: "addr \<Rightarrow> unit kop" where
  "pipe_close_write p s =
     (if p = NULL then Some (s, ())
      else let s = (if writers (pipe_at s p) > 0
                    then upd_pipe p (\<lambda>q. q\<lparr>writers := writers q - 1\<rparr>) s else s)
           in if readers (pipe_at s p) = 0 \<and> writers (pipe_at s p) = 0 then pipe_destroy p s
              else Some (s, ()))"

text \<open>An \<^verbatim>\<open>int\<close> stored in memory, little-endian.\<close>

definition store_int :: "addr \<Rightarrow> int \<Rightarrow> bytes \<Rightarrow> bytes" where
  "store_int a v m =
     (let w = word_of_int v :: u32
      in m(a := ucast w, a + 1 := ucast (drop_bit 8 w), a + 2 := ucast (drop_bit 16 w),
           a + 3 := ucast (drop_bit 24 w)))"

definition sys_pipe :: "vfs_env \<Rightarrow> addr \<Rightarrow> int kop" where
  "sys_pipe env pipefd s =
     (if \<not> current s \<or> pipefd = NULL then Some (set_errno EINVAL s)
      else do {
        (s, p) \<leftarrow> pipe_create s;
        if p = NULL then Some (set_errno ENOMEM s)
        else do {
          (s, read_file) \<leftarrow> kalloc 28 s;
          (s, write_file) \<leftarrow> kalloc 28 s;
          if read_file = NULL \<or> write_file = NULL then do {
            (s, _) \<leftarrow> (if read_file \<noteq> NULL then krelease read_file s else Some (s, ()));
            (s, _) \<leftarrow> (if write_file \<noteq> NULL then krelease write_file s else Some (s, ()));
            (s, _) \<leftarrow> pipe_destroy p s;
            Some (set_errno ENOMEM s)
          }
          else do {
            let s = upd_file read_file (\<lambda>_. \<lparr>fdentry = NULL, finode = NULL, f_op = NULL, fflags = O_RDONLY,
                      pos = 0, fref = 1, fpriv = p\<rparr>) s;
            let s = upd_file write_file (\<lambda>_. \<lparr>fdentry = NULL, finode = NULL, f_op = NULL, fflags = O_WRONLY,
                      pos = 0, fref = 1, fpriv = p\<rparr>) s;
            let (s, read_fd) = fd_table_alloc (cur_fdt s) read_file s;
            if read_fd < 0 then do {
              (s, _) \<leftarrow> krelease read_file s;
              (s, _) \<leftarrow> krelease write_file s;
              (s, _) \<leftarrow> pipe_destroy p s;
              Some (set_errno ENOMEM s)
            }
            else let (s, write_fd) = fd_table_alloc (cur_fdt s) write_file s in
            if write_fd < 0 then do {
              (s, _) \<leftarrow> fd_table_free env (cur_fdt s) read_fd s;
              (s, _) \<leftarrow> krelease write_file s;
              (s, _) \<leftarrow> pipe_destroy p s;
              Some (set_errno ENOMEM s)
            }
            else Some (set_mem (store_int (pipefd + 4) write_fd (store_int pipefd read_fd (payload (kh s)))) s, 0)
          }
        }
      })"

section \<open>A pipe is a queue of bytes\<close>

definition pipe_ok :: "pipe \<Rightarrow> bool" where
  "pipe_ok p \<longleftrightarrow> unat (read_pos p) < 4096 \<and> unat (psize p) \<le> 4096 \<and>
     unat (write_pos p) = (unat (read_pos p) + unat (psize p)) mod 4096"

definition pipe_data :: "pipe \<Rightarrow> u8 list" where
  "pipe_data p = ring (\<lambda>i. buffer p (of_nat i)) (unat (read_pos p)) (unat (psize p)) 4096"

lemma unat_next_pos: "unat x < 4096 \<Longrightarrow> unat ((x + 1) mod PIPE_BUF) = (unat x + 1) mod 4096"
  by (simp add: PIPE_BUF_def unat_mod unat_add_bounded)

interpretation pipe: fifo pipe_ok pipe_data 4096 put_byte get_byte
proof (unfold_locales, goal_cases)
  case (1 p)
  then show ?case by (simp add: pipe_ok_def pipe_data_def)
next
  case (2 p c)
  then have n: "unat (psize p) < 4096" "unat (psize p + 1) = Suc (unat (psize p))"
    by (auto simp: pipe_data_def unat_add_bounded)
  have w: "unat (write_pos p) = (unat (read_pos p) + unat (psize p)) mod 4096" "unat (write_pos p) < 4096"
    using 2(1) by (auto simp: pipe_ok_def)
  have b: "((buffer p)(write_pos p := c)) (of_nat (k mod 4096)) =
      ((\<lambda>i. buffer p (of_nat i))(unat (write_pos p) := c)) (k mod 4096)" for k
  proof -
    have "unat (of_nat (k mod 4096) :: u32) = k mod 4096"
      by (simp add: unat_of_nat)
    then have "of_nat (k mod 4096) = write_pos p \<longleftrightarrow> k mod 4096 = unat (write_pos p)"
      by (simp add: unat_inj)
    then show ?thesis
      by simp
  qed
  have "pipe_data (put_byte c p) =
      ring ((\<lambda>i. buffer p (of_nat i))((unat (read_pos p) + unat (psize p)) mod 4096 := c))
        (unat (read_pos p)) (Suc (unat (psize p))) 4096"
    using b unfolding w(1) by (simp add: pipe_data_def put_byte_def ring_def n(2))
  moreover have "pipe_ok (put_byte c p)"
    using 2(1) n w by (auto simp: pipe_ok_def put_byte_def unat_next_pos mod_simps)
  ultimately show ?case
    using ring_put [OF n(1)] by (simp add: pipe_data_def)
next
  case (3 p)
  then have n: "0 < unat (psize p)" "unat (psize p - 1) = unat (psize p) - 1"
    by (auto simp: pipe_data_def ring_def unat_diff_le word_le_nat_alt)
  have r: "unat (read_pos p) < 4096"
    using 3(1) by (simp add: pipe_ok_def)
  obtain k where k: "unat (psize p) = Suc k"
    using n(1) gr0_implies_Suc by blast
  have "pipe_ok (fst (get_byte p))"
    using 3(1) n(2) by (auto simp: pipe_ok_def get_byte_def unat_next_pos mod_simps k)
  moreover have "pipe_data p = snd (get_byte p) # pipe_data (fst (get_byte p))"
    using ring_get [OF n(1) r, of "\<lambda>i. buffer p (of_nat i)"] r
    by (simp add: pipe_data_def get_byte_def n(2) unat_next_pos)
  ultimately show ?case
    by simp
qed

lemma write_loop_fold: "write_loop n i buf m p = fold put_byte (bytes_at m (buf + i) n) p"
proof (induction n arbitrary: i p)
  case 0
  then show ?case by (simp add: bytes_at_def)
next
  case (Suc n)
  then show ?case by (simp add: bytes_at_Suc ac_simps)
qed

lemma read_loop_data:
  assumes "pipe_ok p" "n \<le> length (pipe_data p)" "read_loop n i buf p m = (p', m')"
    "unat (buf + i) + n < 2 ^ 32"
  shows "pipe_ok p' \<and> pipe_data p' = drop n (pipe_data p) \<and> bytes_at m' (buf + i) n = take n (pipe_data p) \<and>
    (\<forall>a. unat a < unat (buf + i) \<or> unat (buf + i) + n \<le> unat a \<longrightarrow> m' a = m a) \<and>
    readers p' = readers p \<and> writers p' = writers p"
  using assms
proof (induction n arbitrary: i p m)
  case 0
  then show ?case by (simp add: bytes_at_def)
next
  case (Suc n)
  obtain q c where g: "get_byte p = (q, c)"
    by force
  have q: "pipe_ok q" "pipe_data p = c # pipe_data q" "readers q = readers p" "writers q = writers p"
    using pipe.get_removes [of p] Suc.prems(1,2) g by (cases "pipe_data p = []"; auto simp: get_byte_def)+
  have u: "unat (buf + (i + 1)) = unat (buf + i) + 1"
    using Suc.prems(4) unat_add_bounded [of "buf + i" 1] by (simp add: add.assoc)
  let ?m = "m(buf + i := c)"
  have IH: "pipe_ok p' \<and> pipe_data p' = drop n (pipe_data q) \<and> bytes_at m' (buf + (i + 1)) n = take n (pipe_data q) \<and>
    (\<forall>a. unat a < unat (buf + (i + 1)) \<or> unat (buf + (i + 1)) + n \<le> unat a \<longrightarrow> m' a = ?m a) \<and>
    readers p' = readers q \<and> writers p' = writers q"
  proof (rule Suc.IH [OF q(1)])
    show "read_loop n (i + 1) buf q ?m = (p', m')"
      using Suc.prems(3) g by simp
  qed (use Suc.prems q u in auto)
  then have "m' (buf + i) = c"
    by (auto simp: u)
  moreover have "m' a = m a" if "unat a < unat (buf + i) \<or> unat (buf + i) + Suc n \<le> unat a" for a
  proof -
    have "a \<noteq> buf + i" "unat a < unat (buf + (i + 1)) \<or> unat (buf + (i + 1)) + n \<le> unat a"
      using that u by auto
    then show ?thesis
      using IH by auto
  qed
  ultimately show ?case
    using IH q by (simp add: bytes_at_Suc add.assoc)
qed

lemma write_loop_ends: "readers (write_loop n i buf m p) = readers p \<and> writers (write_loop n i buf m p) = writers p"
  by (induction n arbitrary: i p) (auto simp: put_byte_def)

lemma length_pipe_data: "length (pipe_data p) = unat (psize p)"
  by (simp add: pipe_data_def)

lemma pipe_data_empty: "psize p = 0 \<longleftrightarrow> pipe_data p = []"
  by (metis length_pipe_data length_0_conv unat_eq_zero)

lemma upd_pipe_at [simp]: "pipe_at (upd_pipe p f s) p = f (pipe_at s p)" "kh (upd_pipe p f s) = kh s"
  by (simp_all add: upd_pipe_def)

lemma set_errno_simps: "current s \<Longrightarrow> set_errno e s = (s\<lparr>errno := e\<rparr>, - 1)"
  by (simp add: set_errno_def)

section \<open>Properties\<close>

text \<open>
  \<^bold>\<open>C18.\<close> A pipe refines a bounded queue of bytes.  A write appends as many bytes of the caller's
  buffer as there is room for; a full pipe refuses a write with \<open>EAGAIN\<close> and a pipe without readers
  with \<open>EPIPE\<close>.
\<close>

theorem pipe_write_refines_queue:
  assumes "pipe_ok (pipe_at s p)" "p \<noteq> NULL" "buf \<noteq> NULL" "current s" "pipe_write p buf count s = (s', r)"
  shows "pipe_ok (pipe_at s' p) \<and>
    (let q = pipe_data (pipe_at s p) in
     if readers (pipe_at s p) = 0 then r = - 1 \<and> errno s' = EPIPE \<and> pipe_at s' p = pipe_at s p
     else if length q = 4096 then r = - 1 \<and> errno s' = EAGAIN \<and> pipe_at s' p = pipe_at s p
     else r = int (min (unat count) (4096 - length q)) \<and>
          pipe_data (pipe_at s' p) = q @ bytes_at (payload (kh s)) buf (nat r))"
proof -
  let ?P = "pipe_at s p"
  have le: "unat (psize ?P) \<le> 4096"
    using assms(1) by (simp add: pipe_ok_def)
  have full: "PIPE_BUF \<le> psize ?P \<longleftrightarrow> length (pipe_data ?P) = 4096"
    using le by (auto simp: PIPE_BUF_def word_le_nat_alt length_pipe_data)
  show ?thesis
  proof (cases "readers ?P = 0 \<or> PIPE_BUF \<le> psize ?P")
    case True
    then show ?thesis
      using assms full by (auto simp: pipe_write_def set_errno_simps Let_def)
  next
    case False
    define w where "w = (if count < PIPE_BUF - psize ?P then count else PIPE_BUF - psize ?P)"
    have sp: "unat (PIPE_BUF - psize ?P) = 4096 - unat (psize ?P)"
      using False by (simp add: PIPE_BUF_def unat_diff_le word_le_nat_alt)
    have w: "unat w = min (unat count) (4096 - length (pipe_data ?P))"
      by (auto simp: w_def word_less_nat_alt sp length_pipe_data)
    have s': "pipe_at s' p = fold put_byte (bytes_at (payload (kh s)) buf (unat w)) ?P" "r = uint w"
      using assms(2,3,5) False by (auto simp: pipe_write_def Let_def w_def write_loop_fold)
    have r: "r = int (unat w)"
      unfolding s'(2) by (rule uint_nat)
    have "length (pipe_data ?P) + length (bytes_at (payload (kh s)) buf (unat w)) \<le> 4096"
      using w le by (simp add: bytes_at_def length_pipe_data)
    then show ?thesis
      using pipe.put_all [OF assms(1)] s'(1) w False full by (simp add: Let_def r)
  qed
qed

lemma demo_pipe:
  "pipe_ok (pipe_at demo_vst p)" "pipe_data (pipe_at demo_vst p) = []" "current demo_vst"
  "readers (pipe_at demo_vst p) = 1"
  by (simp_all add: demo_vst_def pipe_ok_def pipe_data_def ring_def)

theorem pipe_write_refines_queue_witness:
  "pipe_data (pipe_at (fst (pipe_write 8 0xD0000014 2 demo_vst)) 8) = [104, 105]"
proof -
  have "bytes_at (payload (kh demo_vst)) 0xD0000014 2 = [104, 105]"
    by (simp add: demo_vst_def demo_heap4_def bytes_at_def upt_rec)
  then show ?thesis
    using pipe_write_refines_queue [OF demo_pipe(1) _ _ demo_pipe(3), of 8 "0xD0000014" 2]
    by (cases "pipe_write 8 0xD0000014 2 demo_vst") (auto simp: demo_pipe Let_def)
qed

text \<open>
  \<^bold>\<open>C19.\<close> A read removes as many bytes from the front of the queue as are asked for and present and
  stores them, in order, in the caller's buffer and nowhere else.  An empty pipe refuses with
  \<open>EAGAIN\<close>, or reads as end of file once there is no writer.
\<close>

theorem pipe_read_refines_queue:
  assumes "pipe_ok (pipe_at s p)" "p \<noteq> NULL" "buf \<noteq> NULL" "current s" "unat buf + unat count < 2 ^ 32"
    "pipe_read p buf count s = (s', r)"
  shows "pipe_ok (pipe_at s' p) \<and>
    (let q = pipe_data (pipe_at s p) in
     if q = [] then pipe_at s' p = pipe_at s p \<and>
       (if writers (pipe_at s p) = 0 then r = 0 else r = - 1 \<and> errno s' = EAGAIN)
     else r = int (min (unat count) (length q)) \<and>
       bytes_at (payload (kh s')) buf (nat r) = take (nat r) q \<and>
       pipe_data (pipe_at s' p) = drop (nat r) q \<and>
       (\<forall>a. unat a < unat buf \<or> unat buf + nat r \<le> unat a \<longrightarrow> payload (kh s') a = payload (kh s) a))"
proof (cases "psize (pipe_at s p) = 0")
  case True
  then show ?thesis
    using assms pipe_data_empty [of "pipe_at s p"] by (auto simp: pipe_read_def set_errno_simps Let_def split: if_splits)
next
  case False
  let ?P = "pipe_at s p"
  define n where "n = (if count < psize ?P then count else psize ?P)"
  obtain q m where l: "read_loop (unat n) 0 buf ?P (payload (kh s)) = (q, m)"
    by force
  have n: "unat n = min (unat count) (length (pipe_data ?P))"
    by (auto simp: n_def word_less_nat_alt length_pipe_data)
  have s': "s' = set_mem m (upd_pipe p (\<lambda>_. q) s)" "r = uint n"
    using assms(2,3,6) False l by (auto simp: pipe_read_def Let_def n_def)
  have r: "r = int (unat n)"
    unfolding s'(2) by (rule uint_nat)
  have "pipe_ok q \<and> pipe_data q = drop (unat n) (pipe_data ?P) \<and>
      bytes_at m (buf + 0) (unat n) = take (unat n) (pipe_data ?P) \<and>
      (\<forall>a. unat a < unat (buf + 0) \<or> unat (buf + 0) + unat n \<le> unat a \<longrightarrow> m a = payload (kh s) a) \<and>
      readers q = readers ?P \<and> writers q = writers ?P"
    using assms(1,5) n by (intro read_loop_data [OF _ _ l]) auto
  then show ?thesis
    using False s'(1) n pipe_data_empty [of ?P] by (simp add: Let_def r)
qed

definition demo_vst2 :: vst where
  "demo_vst2 = upd_pipe 8 (\<lambda>p. put_byte 105 (put_byte 104 p)) demo_vst"

theorem pipe_read_refines_queue_witness:
  "bytes_at (payload (kh (fst (pipe_read 8 64 2 demo_vst2)))) 64 2 = [104, 105] \<and>
   pipe_data (pipe_at (fst (pipe_read 8 64 2 demo_vst2)) 8) = []"
proof -
  have "pipe_ok (pipe_at demo_vst2 8)" "pipe_data (pipe_at demo_vst2 8) = [104, 105]" "current demo_vst2"
    using pipe.put_all [OF demo_pipe(1), of 8 "[104, 105]"] demo_pipe
    by (auto simp: demo_vst2_def upd_pipe_def)
  then show ?thesis
    using pipe_read_refines_queue [of demo_vst2 8 64 2]
    by (cases "pipe_read 8 64 2 demo_vst2") (auto simp: Let_def)
qed

end
