(* ===== verification/Vfs_Refs.thy ===== *)
theory Vfs_Refs
  imports Vfs
begin

text \<open>
  Path resolution against its reference definition, and what the operations on reference counts do
  to the objects of the heap.
\<close>

section \<open>Objects on the heap\<close>

text \<open>The allocation calls of the file system obey the contract of the kernel allocator.\<close>

definition vlive :: "vst \<Rightarrow> (addr \<rightharpoonup> nat) \<Rightarrow> bool" where
  "vlive s L \<longleftrightarrow> heap_live (kh s) L"

definition vfree :: "addr \<Rightarrow> vst \<Rightarrow> vst option" where
  "vfree p s = map_option fst (krelease p s)"

interpretation kobj: kernel_allocator kalloc vfree vlive
proof (unfold_locales, goal_cases)
  case (1 s L n s')
  then show ?case
    using kheap.alloc_fails [of "kh s" L n] by (auto simp: kalloc_def vlive_def)
next
  case (2 s L n s' p)
  then show ?case
    using kheap.alloc_new [of "kh s" L n _ p] by (auto simp: kalloc_def vlive_def)
next
  case (3 s L p m)
  then show ?case
    using kheap.free_live [of "kh s" L p m] by (auto simp: vfree_def krelease_def vlive_def)
next
  case (4 s L p m)
  then show ?case
    using kheap.live_range [of "kh s" L p m] by (simp add: vlive_def)
next
  case (5 s L p m q k)
  then show ?case
    using kheap.live_disjoint [of "kh s" L p m q k] by (simp add: vlive_def)
qed

lemma krelease_live:
  assumes "vlive s L" "L p = Some m"
  obtains h where "krelease p s = Some (s\<lparr>kh := h\<rparr>, ())" "heap_live h (L(p := None))"
  using kobj.free_live [OF assms] by (auto simp: vfree_def krelease_def vlive_def)

lemma kalloc_state: "kalloc n s = Some (s', p) \<Longrightarrow> \<exists>h. s' = s\<lparr>kh := h\<rparr>"
  by (auto simp: kalloc_def)

lemma upd_simps [simp]:
  "kh (upd_inode a f s) = kh s" "file_at (upd_inode a f s) = file_at s"
  "inode_at (upd_inode a f s) = (inode_at s)(a := f (inode_at s a))"
  "kh (upd_file a g s) = kh s" "inode_at (upd_file a g s) = inode_at s"
  "file_at (upd_file a g s) = (file_at s)(a := g (file_at s a))"
  "open_files (upd_file a g s) = open_files s" "fdt_at (upd_file a g s) = fdt_at s"
  "open_files (upd_inode a f s) = open_files s" "fdt_at (upd_inode a f s) = fdt_at s"
  by (simp_all add: upd_inode_def upd_file_def)

section \<open>Dropping a reference to a file\<close>

text \<open>
  The release functions of the source.  \<^verbatim>\<open>fat32_file_release\<close> frees the private data of the file; those
  of the devices and of procfs change nothing in the state of the file system.
\<close>

definition fat32_file_release :: "addr \<Rightarrow> int kop" where
  "fat32_file_release file s =
     (if fpriv (file_at s file) \<noteq> NULL then do {
        (s, _) \<leftarrow> krelease (fpriv (file_at s file)) s;
        Some (upd_file file (\<lambda>f. f\<lparr>fpriv := NULL\<rparr>) s, 0)
      } else Some (s, 0))"

definition frees_private :: "vfs_env \<Rightarrow> vfs_file \<Rightarrow> bool" where
  "frees_private env x \<longleftrightarrow> f_op x \<noteq> NULL \<and> fop_release (fops env (f_op x)) = Some fat32_file_release"

definition source_release :: "vfs_env \<Rightarrow> bool" where
  "source_release env \<longleftrightarrow>
     (\<forall>op rel. fop_release (fops env op) = Some rel \<longrightarrow>
        rel = fat32_file_release \<or> (\<forall>f s. \<exists>r. rel f s = Some (s, r)))"

text \<open>The area that the release of \<open>f\<close> frees, or \<^verbatim>\<open>NULL\<close>.\<close>

definition released :: "vfs_env \<Rightarrow> vfs_file \<Rightarrow> addr" where
  "released env x = (if frees_private env x then fpriv x else NULL)"

lemma released_fields:
  "f_op y = f_op x \<Longrightarrow> fpriv y = fpriv x \<Longrightarrow> released env y = released env x"
  by (simp add: released_def frees_private_def)

lemma call_release_effect:
  assumes "source_release env" "vlive s L" "p = released env (file_at s f)" "p = NULL \<or> L p \<noteq> None"
  obtains h x where "call_release env f s = Some (s\<lparr>kh := h, file_at := (file_at s)(f := (file_at s f)\<lparr>fpriv := x\<rparr>)\<rparr>, ())"
    "heap_live h (L(p := None))"
proof (cases "p = NULL")
  case True
  have same: "s = s\<lparr>kh := kh s, file_at := (file_at s)(f := (file_at s f)\<lparr>fpriv := fpriv (file_at s f)\<rparr>)\<rparr>"
    by simp
  have "call_release env f s = Some (s, ())"
  proof (cases "if f_op (file_at s f) \<noteq> NULL then fop_release (fops env (f_op (file_at s f))) else None")
    case None
    then show ?thesis by (simp add: call_release_def Let_def)
  next
    case (Some rel)
    then have op: "f_op (file_at s f) \<noteq> NULL" "fop_release (fops env (f_op (file_at s f))) = Some rel"
      by (auto split: if_splits)
    then have "rel = fat32_file_release \<or> (\<exists>r. rel f s = Some (s, r))"
      using assms(1) by (auto simp: source_release_def)
    moreover have "rel = fat32_file_release \<Longrightarrow> fpriv (file_at s f) = NULL"
      using True assms(3) op by (simp add: released_def frees_private_def)
    ultimately have "\<exists>r. rel f s = Some (s, r)"
      by (auto simp: fat32_file_release_def)
    with Some show ?thesis
      by (auto simp: call_release_def Let_def)
  qed
  moreover have "L(p := None) = L"
    using True kobj.live_not_null [OF assms(2)] by (simp add: fun_upd_idem)
  ultimately show thesis
    using that [of "fpriv (file_at s f)" "kh s"] same assms(2) by (simp add: vlive_def)
next
  case False
  then have p: "frees_private env (file_at s f)" "p = fpriv (file_at s f)"
    using assms(3) by (auto simp: released_def split: if_splits)
  obtain m where "L p = Some m"
    using assms(4) False by auto
  from krelease_live [OF assms(2) this] obtain h where
    h: "krelease p s = Some (s\<lparr>kh := h\<rparr>, ())" "heap_live h (L(p := None))" .
  then show thesis
    using that [of NULL h] p False
    by (simp add: call_release_def frees_private_def fat32_file_release_def Let_def upd_file_def)
qed

lemma pos_word_cases: "0 < x \<Longrightarrow> x = 1 \<or> 1 < (x :: u32)"
  by (auto simp: word_less_nat_alt unat_inj)

lemma file_put_shared:
  assumes "f \<noteq> NULL" "1 < fref (file_at s f)"
  shows "file_put env f s = Some (upd_file f (\<lambda>x. x\<lparr>fref := fref x - 1\<rparr>) s, ())"
proof -
  have "fref (file_at s f) - 1 \<noteq> 0" "0 < fref (file_at s f)"
    using assms(2) by (auto simp: word_gt_0 dest: order.strict_trans)
  then show ?thesis
    using assms(1) by (simp add: file_put_def Let_def)
qed

lemma inode_put_shared:
  assumes "i \<noteq> NULL" "1 < iref (inode_at s i)"
  shows "inode_put i s = Some (upd_inode i (\<lambda>x. x\<lparr>iref := iref x - 1\<rparr>) s, ())"
proof -
  have "iref (inode_at s i) - 1 \<noteq> 0" "0 < iref (inode_at s i)"
    using assms(2) by (auto simp: word_gt_0 dest: order.strict_trans)
  then show ?thesis
    using assms(1) by (simp add: inode_put_def Let_def)
qed

lemma inode_put_last:
  assumes "vlive s L" "L i = Some k" "iref (inode_at s i) = 1"
  obtains h where "inode_put i s = Some ((upd_inode i (\<lambda>x. x\<lparr>iref := 0\<rparr>) s)\<lparr>kh := h\<rparr>, ())"
    "heap_live h (L(i := None))"
proof -
  let ?s = "upd_inode i (\<lambda>x. x\<lparr>iref := 0\<rparr>) s"
  have "upd_inode i (\<lambda>x. x\<lparr>iref := iref x - 1\<rparr>) s = ?s"
    using assms(3) by (simp add: upd_inode_def)
  moreover have "i \<noteq> NULL"
    using kobj.live_not_null assms(1,2) by fastforce
  moreover have "vlive ?s L"
    using assms(1) by (simp add: vlive_def)
  ultimately show ?thesis
    using krelease_live [of ?s L i k] assms(2,3) that
    by (auto simp: inode_put_def Let_def vfs_free_inode_def)
qed

text \<open>Closing the last reference frees the file, and its inode when no other file uses it.\<close>

lemma drop_inode_and_file:
  assumes "vlive s L" "L f = Some j" "i = NULL \<or> L i = Some k \<and> i \<noteq> f \<and> 0 < iref (inode_at s i)"
  obtains h where "Option.bind (if i \<noteq> NULL then inode_put i s else Some (s, ())) (\<lambda>(s', _). krelease f s') =
      Some (s\<lparr>kh := h, inode_at := (if i = NULL then inode_at s
                   else (inode_at s)(i := (inode_at s i)\<lparr>iref := iref (inode_at s i) - 1\<rparr>))\<rparr>, ())"
    "heap_live h (if i \<noteq> NULL \<and> iref (inode_at s i) = 1 then L(i := None, f := None) else L(f := None))"
proof -
  consider "i = NULL" | "i \<noteq> NULL" "iref (inode_at s i) = 1" | "i \<noteq> NULL" "1 < iref (inode_at s i)"
    using assms(3) pos_word_cases [of "iref (inode_at s i)"] by blast
  then show ?thesis
  proof cases
    case 1
    from krelease_live [OF assms(1,2)] obtain h where h: "krelease f s = Some (s\<lparr>kh := h\<rparr>, ())" "heap_live h (L(f := None))" .
    show ?thesis
      using that [of h] h 1 by simp
  next
    case 2
    obtain h where h: "inode_put i s = Some ((upd_inode i (\<lambda>x. x\<lparr>iref := 0\<rparr>) s)\<lparr>kh := h\<rparr>, ())"
      "heap_live h (L(i := None))"
      using inode_put_last [OF assms(1), of i k] assms(3) 2 by auto
    let ?t = "(upd_inode i (\<lambda>x. x\<lparr>iref := 0\<rparr>) s)\<lparr>kh := h\<rparr>"
    have "vlive ?t (L(i := None))" "(L(i := None)) f = Some j"
      using h(2) assms(2,3) 2 by (auto simp: vlive_def)
    from krelease_live [OF this] obtain h' where h': "krelease f ?t = Some (?t\<lparr>kh := h'\<rparr>, ())"
      "heap_live h' (L(i := None, f := None))" .
    show ?thesis
      using that [of h'] h(1) h' 2 by (simp add: upd_inode_def)
  next
    case 3
    have s: "inode_put i s = Some (upd_inode i (\<lambda>x. x\<lparr>iref := iref x - 1\<rparr>) s, ())"
      using 3 by (intro inode_put_shared) auto
    let ?t = "upd_inode i (\<lambda>x. x\<lparr>iref := iref x - 1\<rparr>) s"
    have "vlive ?t L"
      using assms(1) by (simp add: vlive_def)
    from krelease_live [OF this assms(2)] obtain h' where h': "krelease f ?t = Some (?t\<lparr>kh := h'\<rparr>, ())"
      "heap_live h' (L(f := None))" .
    have "iref (inode_at s i) \<noteq> 1"
      using 3(2) by (metis less_irrefl)
    then show ?thesis
      using that [of h'] s h' 3(1) by (simp add: upd_inode_def)
  qed
qed

lemma file_put_last:
  assumes "source_release env" "vlive s L" "L f = Some j" "fref (file_at s f) = 1"
    and i: "i = finode (file_at s f)" "i = NULL \<or> L i = Some k \<and> i \<noteq> f \<and> 0 < iref (inode_at s i)"
    and p: "p = released env (file_at s f)" "p = NULL \<or> L p \<noteq> None \<and> p \<noteq> f \<and> p \<noteq> i"
  obtains h x where "file_put env f s = Some (s\<lparr>kh := h,
      inode_at := (if i = NULL then inode_at s
                   else (inode_at s)(i := (inode_at s i)\<lparr>iref := iref (inode_at s i) - 1\<rparr>)),
      file_at := (file_at s)(f := x)\<rparr>, ())"
    "heap_live h (if i \<noteq> NULL \<and> iref (inode_at s i) = 1 then L(p := None, i := None, f := None) else L(p := None, f := None))"
proof -
  let ?s = "upd_file f (\<lambda>x. x\<lparr>fref := 0\<rparr>) s"
  have f: "f \<noteq> NULL"
    using kobj.live_not_null assms(2,3) by fastforce
  have v: "vlive ?s L"
    using assms(2) by (simp add: vlive_def)
  have r: "released env (file_at ?s f) = p"
    unfolding p(1) by (rule released_fields) simp_all
  obtain h x where c: "call_release env f ?s = Some (?s\<lparr>kh := h, file_at := (file_at ?s)(f := (file_at ?s f)\<lparr>fpriv := x\<rparr>)\<rparr>, ())"
    "heap_live h (L(p := None))"
    by (rule call_release_effect [OF assms(1) v r [symmetric]]) (use p(2) in auto)
  let ?t = "?s\<lparr>kh := h, file_at := (file_at ?s)(f := (file_at ?s f)\<lparr>fpriv := x\<rparr>)\<rparr>"
  have t: "vlive ?t (L(p := None))" "(L(p := None)) f = Some j"
    "i = NULL \<or> (L(p := None)) i = Some k \<and> i \<noteq> f \<and> 0 < iref (inode_at ?t i)"
    using c(2) assms(3) f i(2) p(2) by (auto simp: vlive_def)
  obtain h' where h': "Option.bind (if i \<noteq> NULL then inode_put i ?t else Some (?t, ())) (\<lambda>(s', _). krelease f s') =
      Some (?t\<lparr>kh := h', inode_at := (if i = NULL then inode_at ?t
                   else (inode_at ?t)(i := (inode_at ?t i)\<lparr>iref := iref (inode_at ?t i) - 1\<rparr>))\<rparr>, ())"
    "heap_live h' (if i \<noteq> NULL \<and> iref (inode_at ?t i) = 1 then (L(p := None))(i := None, f := None) else (L(p := None))(f := None))"
    by (rule drop_inode_and_file [OF t])
  have u: "upd_file f (\<lambda>x. x\<lparr>fref := fref x - 1\<rparr>) s = ?s"
    using assms(4) by (simp add: upd_file_def)
  have fi: "finode (file_at ?t f) = i"
    by (simp add: i(1))
  have "file_put env f s = Option.bind (if i \<noteq> NULL then inode_put i ?t else Some (?t, ())) (\<lambda>(s', _). krelease f s')"
    using f assms(4) fi by (simp add: file_put_def u c(1) free_file_def Let_def)
  with h' show thesis
    by (intro that [of "(file_at ?s f)\<lparr>fpriv := x\<rparr>" h']) (simp_all add: upd_file_def)
qed


section \<open>Path resolution\<close>

text \<open>The reference: resolve the components one after another.\<close>

fun resolve :: "vfs_env \<Rightarrow> addr \<Rightarrow> u8 list list \<Rightarrow> addr kop" where
  "resolve env cur [] s = Some (s, cur)"
| "resolve env cur (w # ws) s =
     Option.bind (lookup_child env cur w s)
       (\<lambda>(s, nxt). if nxt = NULL then Some (s, NULL) else resolve env nxt ws s)"

text \<open>
  The names that are looked up: the nonempty pieces between slashes, of which those that do not fit the
  buffer of 256 bytes are cut into parts of 255 bytes.
\<close>

fun chunks :: "nat \<Rightarrow> 'a list \<Rightarrow> 'a list list" where
  "chunks n [] = []"
| "chunks n (x # xs) = (x # take n xs) # chunks n (drop n xs)"

definition path_names :: "u8 list \<Rightarrow> u8 list list" where
  "path_names p = concat (map (chunks (VFS_MAX_NAME - 2)) (tokens {47} p))"

lemma chunks_step: "xs \<noteq> [] \<Longrightarrow> chunks n xs = take (Suc n) xs # chunks n (drop (Suc n) xs)"
  by (cases xs) auto

lemma chunks_short: "xs \<noteq> [] \<Longrightarrow> length xs \<le> Suc n \<Longrightarrow> chunks n xs = [xs]"
  by (simp add: chunks_step)

lemma component_cut:
  "i < VFS_MAX_NAME \<Longrightarrow> component i p =
     (take (VFS_MAX_NAME - 1 - i) (takeWhile (\<lambda>c. c \<noteq> 47) p),
      drop (VFS_MAX_NAME - 1 - i) (takeWhile (\<lambda>c. c \<noteq> 47) p) @ dropWhile (\<lambda>c. c \<noteq> 47) p)"
proof (induction i p rule: component.induct)
  case (2 i c cs)
  show ?case
  proof (cases "c \<noteq> 47 \<and> i < VFS_MAX_NAME - 1")
    case True
    then have "VFS_MAX_NAME - 1 - i = Suc (VFS_MAX_NAME - 1 - Suc i)"
      by arith
    with 2 True show ?thesis by simp
  next
    case False
    then have "c = 47 \<or> VFS_MAX_NAME - 1 - i = 0"
      by auto
    with False show ?thesis by auto
  qed
qed simp

lemma tokens_Cons: "c \<in> D \<Longrightarrow> tokens D (c # cs) = tokens D cs"
  by (simp add: tokens_def)

lemma tokens_word:
  assumes "\<forall>c\<in>set w. c \<notin> D" "rest = [] \<or> hd rest \<in> D"
  shows "tokens D (w @ rest) = (if w = [] then [] else [w]) @ tokens D rest"
proof -
  have "takeWhile (\<lambda>c. c \<notin> D) (w @ rest) = w" "dropWhile (\<lambda>c. c \<notin> D) (w @ rest) = rest"
    using assms by (cases rest; simp add: takeWhile_append2 dropWhile_append2)+
  then have "pieces D (w @ rest) = w # (if rest = [] then [] else pieces D (tl rest))"
    using pieces_step [of D "w @ rest"] by simp
  moreover have "tokens D rest = (if rest = [] then [] else tokens D (tl rest))"
    using assms(2) by (cases rest) (auto simp: tokens_def)
  ultimately show ?thesis
    by (simp add: tokens_def)
qed

lemma path_names_word:
  assumes "47 \<notin> set w" "rest = [] \<or> hd rest = 47"
  shows "path_names (w @ rest) = chunks (VFS_MAX_NAME - 2) w @ path_names rest"
proof -
  have "tokens {47} (w @ rest) = (if w = [] then [] else [w]) @ tokens {47} rest"
    by (rule tokens_word) (use assms in auto)
  then show ?thesis
    by (simp add: path_names_def)
qed

lemma path_names_skip: "path_names (dropWhile (\<lambda>c. c = 47) p) = path_names p"
  using tokens_skip [of "{47}" p] by (simp add: path_names_def)

lemma walk_names: "walk env cur p s = resolve env cur (path_names p) s"
proof (induction env cur p s rule: walk.induct)
  case (1 env cur p s)
  define ys where "ys = dropWhile (\<lambda>c. c = 47) p"
  let ?tok = "takeWhile (\<lambda>c. c \<noteq> 47) ys" and ?rest = "dropWhile (\<lambda>c. c \<noteq> 47) ys"
  have n: "path_names p = path_names ys"
    unfolding ys_def by (rule path_names_skip [symmetric])
  show ?case
  proof (cases "ys = []")
    case True
    then have "path_names p = []"
      using n by (simp add: path_names_def tokens_def)
    then show ?thesis
      using True by (subst walk.simps) (simp add: ys_def [symmetric])
  next
    case False
    let ?w = "take 255 ?tok" and ?r = "drop 255 ?tok @ ?rest"
    have tok: "?tok \<noteq> []"
      using False hd_dropWhile [of "\<lambda>c. c = 47" p] by (cases ys) (auto simp: ys_def)
    have no: "47 \<notin> set ?tok" "47 \<notin> set (drop 255 ?tok)"
      by (auto dest: set_takeWhileD in_set_dropD)
    have hr: "?rest = [] \<or> hd ?rest = 47"
      using hd_dropWhile [of "\<lambda>c. c \<noteq> 47" ys] by blast
    have c: "component 0 ys = (?w, ?r)"
      using component_cut [of 0 ys] by (simp add: VFS_MAX_NAME_def)
    have "path_names ys = chunks 254 ?tok @ path_names ?rest"
      using path_names_word [OF no(1) hr] by (simp add: VFS_MAX_NAME_def)
    also have "\<dots> = ?w # path_names ?r"
      using path_names_word [OF no(2) hr] chunks_step [OF tok, of 254] by (simp add: VFS_MAX_NAME_def)
    finally have pn: "path_names p = ?w # path_names ?r"
      using n by simp
    have IH: "walk env nx ?r t = resolve env nx (path_names ?r) t"
      if "lookup_child env cur ?w s = Some (t, nx)" "nx \<noteq> NULL" for t nx
      by (rule 1 [OF ys_def False c [symmetric] that(1) refl that(2)])
    have "walk env cur p s = Option.bind (lookup_child env cur ?w s)
          (\<lambda>(s, nxt). if nxt = NULL then Some (s, NULL) else walk env nxt ?r s)"
      using False c by (subst walk.simps) (simp add: ys_def [symmetric] Let_def)
    also have "\<dots> = resolve env cur (?w # path_names ?r) s"
      using IH by (cases "lookup_child env cur ?w s") auto
    finally show ?thesis
      by (simp only: pn)
  qed
qed

lemma path_names_short:
  assumes "\<forall>w\<in>set (tokens {47} p). length w < VFS_MAX_NAME"
  shows "path_names p = tokens {47} p"
proof -
  have "map (chunks (VFS_MAX_NAME - 2)) (tokens {47} p) = map (\<lambda>w. [w]) (tokens {47} p)"
    using assms by (intro map_cong refl chunks_short) (auto simp: tokens_def VFS_MAX_NAME_def)
  moreover have "concat (map (\<lambda>w. [w]) ws) = ws" for ws :: "u8 list list"
    by (induction ws) auto
  ultimately show ?thesis
    by (simp only: path_names_def)
qed

lemma vfs_lookup_absolute:
  assumes "vfs_initialized s" "root_dentry s \<noteq> NULL"
  shows "vfs_lookup env (Some (47 # p)) s =
    (if take 4 p = [112, 114, 111, 99] then procfs_lookup_path env (47 # p) s
     else do {
       (s', d) \<leftarrow> resolve env (root_dentry s) (path_names p) s;
       if d = NULL then try_fat32 env (47 # p) s' else Some (s', d)
     })"
proof -
  have "take 5 (47 # p) = [47, 112, 114, 111, 99] \<longleftrightarrow> take 4 p = [112, 114, 111, 99]"
    by (simp add: numeral_eq_Suc)
  moreover have "path_names [] = []"
    by (simp add: path_names_def tokens_def)
  ultimately show ?thesis
    using assms by (simp add: vfs_lookup_def walk_names)
qed

lemma vfs_lookup_resolve:
  assumes "vfs_initialized s" "root_dentry s \<noteq> NULL"
    "take 4 p \<noteq> [112, 114, 111, 99]" "\<forall>w\<in>set (tokens {47} p). length w < VFS_MAX_NAME"
  shows "vfs_lookup env (Some (47 # p)) s = do {
     (s', d) \<leftarrow> resolve env (root_dentry s) (tokens {47} p) s;
     if d = NULL then try_fat32 env (47 # p) s' else Some (s', d)
   }"
  using assms(3) by (simp add: vfs_lookup_absolute [OF assms(1,2)] path_names_short [OF assms(4)])

section \<open>Properties\<close>

text \<open>
  \<^bold>\<open>C40.\<close> In an initialised file system, an absolute path that starts with \<^verbatim>\<open>/proc\<close>, also one like
  \<^verbatim>\<open>/process\<close>, goes whole to procfs.  Every other one is resolved by looking up, from the root dentry on
  and one after the other, the nonempty pieces between slashes, and when one is missing the whole path is
  looked up on the FAT32 volume.  Repeated and trailing slashes make no difference; a piece of
  256 bytes or more is looked up as several names of at most 255 bytes.
\<close>

theorem vfs_lookup_resolves_components:
  assumes "vfs_initialized s" "root_dentry s \<noteq> NULL"
  shows "vfs_lookup env (Some (47 # p)) s =
    (if take 4 p = [112, 114, 111, 99] then procfs_lookup_path env (47 # p) s
     else do {
       (s', d) \<leftarrow> resolve env (root_dentry s) (concat (map (chunks 254) (tokens {47} p))) s;
       if d = NULL then try_fat32 env (47 # p) s' else Some (s', d)
     })"
  using vfs_lookup_absolute [OF assms, of env p] by (simp add: path_names_def VFS_MAX_NAME_def)

text \<open>A tree with one entry \<open>a\<close> under the root, and no functions in the tables.\<close>

definition demo_env :: vfs_env where
  "demo_env = \<lparr>fops = (\<lambda>_. \<lparr>fop_open = None, fop_release = None, fop_read = None, fop_write = None\<rparr>),
     iop_lookup = (\<lambda>_. None), procfs_lookup_path = (\<lambda>_ s. Some (s, 0)), fat32_get_fs = 0,
     fat32_lookup = (\<lambda>_ _ s. Some (s, 0)), fat_file_size = (\<lambda>_. 0), fat32_file_ops = 0\<rparr>"

definition demo_fs :: vst where
  "demo_fs = demo_vst\<lparr>vfs_initialized := True, root_dentry := 16,
     dentry_at := (\<lambda>_. zero_dentry)(16 := zero_dentry\<lparr>child := 32\<rparr>, 32 := zero_dentry\<lparr>dname := [97]\<rparr>)\<rparr>"

theorem vfs_lookup_resolves_components_witness:
  "vfs_lookup demo_env (Some [47, 47, 97, 47]) demo_fs = Some (demo_fs, 32)"
proof -
  have t: "tokens {47} [47, 97, 47] = [[97]]"
    by (simp add: tokens_def)
  have "find_child (dentry_at demo_fs) [97] 32 = Some 32"
    by (subst find_child.simps) (simp add: demo_fs_def)
  then have "lookup_child demo_env 16 [97] demo_fs = Some (demo_fs, 32)"
    by (simp add: lookup_child_def demo_fs_def)
  then show ?thesis
    using vfs_lookup_resolves_components [of demo_fs demo_env "[47, 97, 47]"] t
    by (simp add: demo_fs_def VFS_MAX_NAME_def)
qed

end
