(* ===== verification/Fd_Spec.thy ===== *)
theory Fd_Spec
  imports Fdtable Vfs_Refs "HOL-Library.Multiset"
begin

text \<open>
  The invariant of descriptor tables: every file object that a table entry points to is live on the
  kernel heap and its reference count is the number of entries that point to it; likewise for the
  inodes of these files.  The calls that duplicate and close descriptors keep it; copying a table
  for a new process breaks it.
\<close>

section \<open>The invariant\<close>

text \<open>The entries of the global table and of the tables \<open>T\<close>, as a multiset.\<close>

definition slot_set :: "vst \<Rightarrow> addr set \<Rightarrow> addr multiset" where
  "slot_set s T = mset (open_files s) + (\<Sum>t\<in>T. mset (files (fdt_at s t)))"

definition users :: "(addr \<Rightarrow> vfs_file) \<Rightarrow> addr multiset \<Rightarrow> addr \<Rightarrow> addr set" where
  "users F M i = {f \<in> set_mset M. f \<noteq> NULL \<and> finode (F f) = i}"

definition refs_ok :: "(addr \<Rightarrow> vfs_file) \<Rightarrow> (addr \<Rightarrow> vfs_inode) \<Rightarrow> (addr \<rightharpoonup> nat) \<Rightarrow> addr multiset \<Rightarrow> bool" where
  "refs_ok F I L M \<longleftrightarrow>
     (\<forall>f\<in>#M. f \<noteq> NULL \<longrightarrow> L f \<noteq> None \<and> unat (fref (F f)) = count M f) \<and>
     (\<forall>i. i \<noteq> NULL \<and> users F M i \<noteq> {} \<longrightarrow>
        L i \<noteq> None \<and> i \<notin># M \<and> unat (iref (I i)) = card (users F M i))"

text \<open>
  The private data that the release of a file frees is live, belongs to no other file and is neither
  a file nor an inode.
\<close>

definition private_ok :: "vfs_env \<Rightarrow> (addr \<Rightarrow> vfs_file) \<Rightarrow> (addr \<rightharpoonup> nat) \<Rightarrow> addr multiset \<Rightarrow> bool" where
  "private_ok env F L M \<longleftrightarrow>
     (\<forall>f\<in>#M. f \<noteq> NULL \<and> released env (F f) \<noteq> NULL \<longrightarrow>
        L (released env (F f)) \<noteq> None \<and> released env (F f) \<notin># M \<and> users F M (released env (F f)) = {} \<and>
        (\<forall>g\<in>#M. g \<noteq> NULL \<and> released env (F g) = released env (F f) \<longrightarrow> g = f))"

definition fd_inv :: "vfs_env \<Rightarrow> vst \<Rightarrow> addr set \<Rightarrow> bool" where
  "fd_inv env s T \<longleftrightarrow> finite T \<and> card T < 1048576 \<and> length (open_files s) = 64 \<and>
     (\<forall>t\<in>T. length (files (fdt_at s t)) = 64) \<and>
     (\<exists>L. vlive s L \<and> refs_ok (file_at s) (inode_at s) L (slot_set s T) \<and> private_ok env (file_at s) L (slot_set s T))"

lemma finite_users: "finite (users F M i)"
  by (rule finite_subset [of _ "set_mset M"]) (auto simp: users_def)

lemma refs_okI:
  assumes "\<And>f. f \<in># M \<Longrightarrow> f \<noteq> NULL \<Longrightarrow> L f \<noteq> None \<and> unat (fref (F f)) = count M f"
    "\<And>i. i \<noteq> NULL \<Longrightarrow> users F M i \<noteq> {} \<Longrightarrow>
       L i \<noteq> None \<and> i \<notin># M \<and> unat (iref (I i)) = card (users F M i)"
  shows "refs_ok F I L M"
  using assms by (auto simp: refs_ok_def)

lemma refs_okD:
  assumes "refs_ok F I L M" "f \<in># M" "f \<noteq> NULL"
  shows "L f \<noteq> None" "unat (fref (F f)) = count M f"
    "finode (F f) \<noteq> NULL \<Longrightarrow> L (finode (F f)) \<noteq> None \<and> finode (F f) \<notin># M \<and>
       unat (iref (I (finode (F f)))) = card (users F M (finode (F f)))"
  using assms by (auto simp: refs_ok_def users_def)

section \<open>Adding and dropping a reference\<close>

text \<open>A null entry becomes one more reference to \<open>f\<close>.\<close>

lemma refs_ok_add:
  assumes "refs_ok F I L M" "f \<in># M" "f \<noteq> NULL" "NULL \<in># M" "size M < 2 ^ 31"
  shows "refs_ok (F(f := (F f)\<lparr>fref := fref (F f) + 1\<rparr>)) I L (add_mset f (M - {#NULL#}))"
proof -
  let ?F = "F(f := (F f)\<lparr>fref := fref (F f) + 1\<rparr>)" and ?M = "add_mset f (M - {#NULL#})"
  obtain N where "M = add_mset NULL N"
    using multi_member_split [OF assms(4)] by blast
  then have "count M f + 1 < 2 ^ 32"
    using count_le_size [of N f] assms(3,5) by simp
  then have c: "unat (fref (F f) + 1) = count M f + 1"
    using refs_okD(2) [OF assms(1,2,3)] by (simp add: unat_add_bounded)
  have m: "g \<in># ?M \<longleftrightarrow> g \<in># M" if "g \<noteq> NULL" for g
    using that assms(2) by (auto simp: in_diff_count)
  have u: "users ?F ?M i = users F M i" for i
    using m by (auto simp: users_def)
  show ?thesis
  proof (rule refs_okI, unfold u)
    fix g assume g: "g \<in># ?M" "g \<noteq> NULL"
    show "L g \<noteq> None \<and> unat (fref (?F g)) = count ?M g"
      using refs_okD [OF assms(1)] g m c by (auto simp: assms(3))
  next
    fix i assume i: "i \<noteq> NULL" "users F M i \<noteq> {}"
    show "L i \<noteq> None \<and> i \<notin># ?M \<and> unat (iref (I i)) = card (users F M i)"
      using assms(1) i m by (auto simp: refs_ok_def)
  qed
qed


text \<open>One of several references to \<open>f\<close> goes.\<close>

lemma refs_ok_drop_shared:
  assumes "refs_ok F I L M" "f \<in># M" "f \<noteq> NULL" "1 < count M f"
  shows "refs_ok (F(f := (F f)\<lparr>fref := fref (F f) - 1\<rparr>)) I L (add_mset NULL (M - {#f#}))"
proof -
  let ?F = "F(f := (F f)\<lparr>fref := fref (F f) - 1\<rparr>)" and ?M = "add_mset NULL (M - {#f#})"
  have "1 \<le> fref (F f)"
    using refs_okD(2) [OF assms(1,2,3)] assms(2) by (simp add: word_le_nat_alt)
  then have c: "unat (fref (F f) - 1) = count M f - 1"
    using refs_okD(2) [OF assms(1,2,3)] by (simp add: unat_diff_le)
  have m: "g \<in># ?M \<longleftrightarrow> g \<in># M" if "g \<noteq> NULL" for g
    using that assms(2,4) by (auto simp: in_diff_count)
  have u: "users ?F ?M i = users F M i" for i
    using m by (auto simp: users_def)
  show ?thesis
  proof (rule refs_okI, unfold u)
    fix g assume g: "g \<in># ?M" "g \<noteq> NULL"
    show "L g \<noteq> None \<and> unat (fref (?F g)) = count ?M g"
      using refs_okD [OF assms(1)] g m c by (auto simp: assms(3))
  next
    fix i assume i: "i \<noteq> NULL" "users F M i \<noteq> {}"
    show "L i \<noteq> None \<and> i \<notin># ?M \<and> unat (iref (I i)) = card (users F M i)"
      using assms(1) i m by (auto simp: refs_ok_def)
  qed
qed

text \<open>The last reference to \<open>f\<close> goes: \<open>f\<close> is freed, and its inode if no other file uses it.\<close>

lemma refs_ok_drop_last:
  assumes ok: "refs_ok F I L M" and f: "f \<in># M" "f \<noteq> NULL" "count M f = 1"
    and i: "i = finode (F f)"
    and I': "I' = (if i = NULL then I else I(i := (I i)\<lparr>iref := iref (I i) - 1\<rparr>))"
    and L': "L' = (if i \<noteq> NULL \<and> iref (I i) = 1 then L(i := None, f := None) else L(f := None))"
  shows "refs_ok (F(f := x)) I' L' (add_mset NULL (M - {#f#}))"
proof -
  let ?F = "F(f := x)" and ?M = "add_mset NULL (M - {#f#})"
  have m: "g \<in># ?M \<longleftrightarrow> g \<in># M \<and> g \<noteq> f" if "g \<noteq> NULL" for g
    using that f(1,3) by (auto simp: in_diff_count)
  have u: "users ?F ?M j = users F M j - {f}" for j
    using m by (auto simp: users_def)
  have fi: "f \<in> users F M i"
    using f i by (auto simp: users_def)
  have iM: "i \<noteq> NULL \<Longrightarrow> i \<notin># M \<and> unat (iref (I i)) = card (users F M i)"
    using refs_okD(3) [OF ok f(1,2)] i by simp
  show ?thesis
  proof (rule refs_okI, unfold u)
    fix g assume g: "g \<in># ?M" "g \<noteq> NULL"
    then have "g \<in># M" "g \<noteq> f"
      using m by auto
    moreover have "i \<noteq> NULL \<Longrightarrow> g \<noteq> i"
      using iM calculation by auto
    ultimately show "L' g \<noteq> None \<and> unat (fref (?F g)) = count ?M g"
      using refs_okD(1,2) [OF ok, of g] g(2) by (auto simp: L')
  next
    fix j assume j: "j \<noteq> NULL" "users F M j - {f} \<noteq> {}"
    then have uj: "users F M j \<noteq> {}"
      by auto
    have oj: "L j \<noteq> None" "j \<notin># M" "unat (iref (I j)) = card (users F M j)"
      using ok j uj by (auto simp: refs_ok_def)
    have jf: "j \<noteq> f"
      using oj(2) f(1) by auto
    show "L' j \<noteq> None \<and> j \<notin># ?M \<and> unat (iref (I' j)) = card (users F M j - {f})"
    proof (cases "j = i")
      case True
      have c: "card (users F M j - {f}) = card (users F M j) - 1"
        using fi finite_users True by (intro card_Diff_singleton) auto
      have "0 < card (users F M j - {f})"
        using j finite_users by (simp add: card_gt_0_iff)
      then have "1 < unat (iref (I j))"
        using oj(3) c by simp
      then have "1 \<le> iref (I j)" "iref (I j) \<noteq> 1"
        by (auto simp: word_le_nat_alt)
      then show ?thesis
        using True j oj jf c by (auto simp: L' I' in_diff_count unat_diff_le)
    next
      case False
      then have "f \<notin> users F M j"
        using i by (auto simp: users_def)
      then show ?thesis
        using False j oj jf by (auto simp: L' I' in_diff_count)
    qed
  qed
qed

text \<open>Private data: it does not depend on the counts, and the last reference takes it away.\<close>

lemma private_ok_cong:
  assumes "private_ok env F L M" "\<And>g. g \<noteq> NULL \<Longrightarrow> g \<in># M' \<longleftrightarrow> g \<in># M"
    "\<And>g. f_op (F' g) = f_op (F g) \<and> fpriv (F' g) = fpriv (F g) \<and> finode (F' g) = finode (F g)"
  shows "private_ok env F' L M'"
proof -
  have r: "released env (F' g) = released env (F g)" for g
    using assms(3) by (intro released_fields) auto
  have u: "users F' M' i = users F M i" for i
    using assms(2,3) by (auto simp: users_def)
  show ?thesis
    using assms(1,2) unfolding private_ok_def r u by meson
qed

lemma refs_ok_private:
  "refs_ok F I L M \<Longrightarrow> p = NULL \<or> p \<notin># M \<and> users F M p = {} \<Longrightarrow> refs_ok F I (L(p := None)) M"
  by (auto simp: refs_ok_def)

lemma private_okD:
  assumes "private_ok env F L M" "f \<in># M" "f \<noteq> NULL" "p = released env (F f)" "p \<noteq> NULL"
  shows "L p \<noteq> None" "p \<notin># M" "users F M p = {}" "p \<noteq> f" "p \<noteq> finode (F f)"
    "g \<in># M \<Longrightarrow> g \<noteq> NULL \<Longrightarrow> released env (F g) = p \<Longrightarrow> g = f"
proof -
  show c: "L p \<noteq> None" "p \<notin># M" "users F M p = {}"
    using assms by (auto simp: private_ok_def)
  show "p \<noteq> f" "p \<noteq> finode (F f)"
    using c assms(2,3) by (auto simp: users_def)
  show "g \<in># M \<Longrightarrow> g \<noteq> NULL \<Longrightarrow> released env (F g) = p \<Longrightarrow> g = f"
    using assms by (auto simp: private_ok_def)
qed

lemma private_ok_drop_last:
  assumes ok: "private_ok env F L M" and f: "f \<in># M" "f \<noteq> NULL" "count M f = 1"
    and i: "i = finode (F f)" and p: "p = released env (F f)"
    and L': "L' = L(p := None, i := None, f := None) \<or> L' = L(p := None, f := None)"
  shows "private_ok env (F(f := x)) L' (add_mset NULL (M - {#f#}))"
proof -
  let ?F = "F(f := x)" and ?M = "add_mset NULL (M - {#f#})"
  have m: "g \<in># ?M \<longleftrightarrow> g \<in># M \<and> g \<noteq> f" if "g \<noteq> NULL" for g
    using that f(1,3) by (auto simp: in_diff_count)
  have u: "users ?F ?M j \<subseteq> users F M j" for j
    using m by (auto simp: users_def)
  show ?thesis
    unfolding private_ok_def
  proof (intro ballI impI)
    fix g assume g: "g \<in># ?M" "g \<noteq> NULL \<and> released env (?F g) \<noteq> NULL"
    then have gM: "g \<in># M" "g \<noteq> NULL" "g \<noteq> f"
      using m by auto
    let ?q = "released env (F g)"
    have q: "released env (?F g) = ?q" "?q \<noteq> NULL"
      using gM g by auto
    note c = private_okD [OF ok gM(1,2) refl q(2)]
    have "?q \<noteq> p"
      using c(6) [OF f(1,2)] gM(3) p by auto
    moreover have "?q \<noteq> f" "?q \<noteq> i"
      using c(2,3) f i by (auto simp: users_def)
    ultimately have "L' ?q \<noteq> None"
      using L' c(1) by auto
    moreover have "?q \<notin># ?M"
      using c(2) q(2) m by auto
    moreover have "users ?F ?M ?q = {}"
      using u c(3) by blast
    moreover have "k = g" if "k \<in># ?M" "k \<noteq> NULL" "released env (?F k) = ?q" for k
      using that m [of k] c(6) [of k] by auto
    ultimately show "L' (released env (?F g)) \<noteq> None \<and> released env (?F g) \<notin># ?M \<and>
        users ?F ?M (released env (?F g)) = {} \<and>
        (\<forall>k\<in>#?M. k \<noteq> NULL \<and> released env (?F k) = released env (?F g) \<longrightarrow> k = g)"
      unfolding q(1) by blast
  qed
qed

section \<open>The tables\<close>

lemma slot_set_cong: "open_files s' = open_files s \<Longrightarrow> fdt_at s' = fdt_at s \<Longrightarrow> slot_set s' T = slot_set s T"
  by (simp add: slot_set_def)

lemma slot_set_upd:
  assumes "finite T" "t \<in> T" "n < length (files (fdt_at s t))"
    "files (g (fdt_at s t)) = (files (fdt_at s t))[n := y]"
  shows "slot_set (upd_fdt t g s) T = add_mset y (slot_set s T - {#files (fdt_at s t) ! n#})"
proof -
  let ?m = "\<lambda>t. mset (files (fdt_at s t))"
  have "(\<Sum>u\<in>T. mset (files (fdt_at (upd_fdt t g s) u))) =
      mset ((files (fdt_at s t))[n := y]) + (\<Sum>u\<in>T - {t}. ?m u)"
    using assms by (subst sum.remove [OF assms(1,2)]) (auto simp: upd_fdt_def intro!: sum.cong)
  moreover have "(\<Sum>u\<in>T. ?m u) = ?m t + (\<Sum>u\<in>T - {t}. ?m u)"
    by (rule sum.remove [OF assms(1,2)])
  moreover have "open_files (upd_fdt t g s) = open_files s"
    by (simp add: upd_fdt_def)
  moreover obtain N where N: "?m t = add_mset (files (fdt_at s t) ! n) N"
    using assms(3) multi_member_split [of "files (fdt_at s t) ! n" "?m t"] by auto
  ultimately show ?thesis
    using assms(3) by (simp add: slot_set_def mset_update N)
qed

lemma slot_member: "finite T \<Longrightarrow> t \<in> T \<Longrightarrow> n < length (files (fdt_at s t)) \<Longrightarrow> files (fdt_at s t) ! n \<in># slot_set s T"
  by (auto simp: slot_set_def set_mset_sum intro!: bexI [of _ t])

lemma size_slot_set:
  assumes "fd_inv env s T"
  shows "size (slot_set s T) < 2 ^ 31"
proof -
  have "size (slot_set s T) = 64 + (\<Sum>t\<in>T. 64)"
    using assms by (simp add: slot_set_def fd_inv_def size_multiset_sum cong: sum.cong)
  then show ?thesis
    using assms by (simp add: fd_inv_def)
qed

lemma fd_inv_set:
  assumes "fd_inv env s T" "t \<in> T" "n < 64" "files (g (fdt_at s t)) = (files (fdt_at s t))[n := y]"
    "vlive s' L'" "open_files s' = open_files s" "fdt_at s' = fdt_at s"
    "refs_ok (file_at s') (inode_at s') L' (add_mset y (slot_set s T - {#files (fdt_at s t) ! n#}))"
    "private_ok env (file_at s') L' (add_mset y (slot_set s T - {#files (fdt_at s t) ! n#}))"
  shows "fd_inv env (upd_fdt t g s') T"
proof -
  have fin: "finite T" "length (files (fdt_at s t)) = 64"
    using assms(1,2) by (auto simp: fd_inv_def)
  have "slot_set (upd_fdt t g s') T = add_mset y (slot_set s' T - {#files (fdt_at s' t) ! n#})"
    using assms fin by (intro slot_set_upd) auto
  also have "\<dots> = add_mset y (slot_set s T - {#files (fdt_at s t) ! n#})"
    by (simp only: slot_set_cong [OF assms(6,7)] assms(7))
  finally show ?thesis
    using assms fin unfolding fd_inv_def
    by (intro conjI exI [of _ L']) (auto simp: upd_fdt_def vlive_def)
qed


text \<open>Storing one more reference in a free entry, and clearing an entry.\<close>

lemma fd_inv_add:
  assumes "fd_inv env s T" "t \<in> T" "n < 64" "files (fdt_at s t) ! n = NULL" "f \<in># slot_set s T" "f \<noteq> NULL"
    "files (g (fdt_at s t)) = (files (fdt_at s t))[n := f]"
  shows "fd_inv env (upd_fdt t g (fst (file_get f s))) T"
proof -
  obtain L where L: "vlive s L" "refs_ok (file_at s) (inode_at s) L (slot_set s T)"
    "private_ok env (file_at s) L (slot_set s T)"
    using assms(1) by (auto simp: fd_inv_def)
  have z: "NULL \<in># slot_set s T"
    using assms(1-4) slot_member [of T t n s] by (auto simp: fd_inv_def)
  have s': "fst (file_get f s) = upd_file f (\<lambda>x. x\<lparr>fref := fref x + 1\<rparr>) s"
    using assms(6) by (simp add: file_get_def)
  show ?thesis
    unfolding s' using assms(1-3,7)
  proof (rule fd_inv_set)
    show "vlive (upd_file f (\<lambda>x. x\<lparr>fref := fref x + 1\<rparr>) s) L"
      using L(1) by (simp add: vlive_def)
    show "refs_ok (file_at (upd_file f (\<lambda>x. x\<lparr>fref := fref x + 1\<rparr>) s))
        (inode_at (upd_file f (\<lambda>x. x\<lparr>fref := fref x + 1\<rparr>) s)) L
        (add_mset f (slot_set s T - {#files (fdt_at s t) ! n#}))"
      using refs_ok_add [OF L(2) assms(5,6) z size_slot_set [OF assms(1)]] assms(4) by simp
    show "private_ok env (file_at (upd_file f (\<lambda>x. x\<lparr>fref := fref x + 1\<rparr>) s)) L
        (add_mset f (slot_set s T - {#files (fdt_at s t) ! n#}))"
      by (rule private_ok_cong [OF L(3)]) (use assms(4,5) in \<open>auto simp: in_diff_count\<close>)
  qed simp_all
qed

lemma fd_inv_drop:
  assumes "source_release env" "fd_inv env s T" "t \<in> T" "n < 64" "f = files (fdt_at s t) ! n" "f \<noteq> NULL"
    "\<And>x. files (g x) = (files x)[n := NULL]"
  obtains h I F where "file_put env f s = Some (s\<lparr>kh := h, inode_at := I, file_at := F\<rparr>, ())"
    "fd_inv env (upd_fdt t g (s\<lparr>kh := h, inode_at := I, file_at := F\<rparr>)) T"
proof -
  obtain L where L: "vlive s L" "refs_ok (file_at s) (inode_at s) L (slot_set s T)"
    "private_ok env (file_at s) L (slot_set s T)"
    using assms(2) by (auto simp: fd_inv_def)
  have f: "f \<in># slot_set s T"
    using assms(2-5) slot_member [of T t n s] by (auto simp: fd_inv_def)
  note r = refs_okD [OF L(2) f assms(6)]
  show ?thesis
  proof (cases "count (slot_set s T) f = 1")
    case True
    let ?i = "finode (file_at s f)"
    obtain j where j: "L f = Some j"
      using r(1) by auto
    have one: "fref (file_at s f) = 1"
      using r(2) True by (simp add: unat_inj)
    obtain k where k: "?i = NULL \<or> L ?i = Some k \<and> ?i \<noteq> f \<and> 0 < iref (inode_at s ?i)"
    proof (cases "?i = NULL")
      case False
      have "f \<in> users (file_at s) (slot_set s T) ?i"
        using f assms(6) by (simp add: users_def)
      then have "0 < unat (iref (inode_at s ?i))"
        using r(3) [OF False] finite_users by (metis card_gt_0_iff empty_iff)
      then have "0 < iref (inode_at s ?i)"
        by (simp add: word_less_nat_alt)
      moreover have "?i \<noteq> f"
        using r(3) [OF False] f by metis
      ultimately show ?thesis
        using r(3) [OF False] that by blast
    qed auto
    let ?p = "released env (file_at s f)"
    note q = private_okD [OF L(3) f assms(6) refl]
    have p: "?p = NULL \<or> L ?p \<noteq> None \<and> ?p \<noteq> f \<and> ?p \<noteq> ?i" "?p = NULL \<or> ?p \<notin># slot_set s T \<and> users (file_at s) (slot_set s T) ?p = {}"
      using q(1-5) by blast+
    obtain h x where
      h: "file_put env f s = Some (s\<lparr>kh := h,
          inode_at := (if ?i = NULL then inode_at s
                   else (inode_at s)(?i := (inode_at s ?i)\<lparr>iref := iref (inode_at s ?i) - 1\<rparr>)),
          file_at := (file_at s)(f := x)\<rparr>, ())" (is "_ = Some (?s, _)")
        "heap_live h (if ?i \<noteq> NULL \<and> iref (inode_at s ?i) = 1 then L(?p := None, ?i := None, f := None) else L(?p := None, f := None))"
        (is "heap_live h ?L")
      by (rule file_put_last [OF assms(1) L(1) j one refl k refl p(1)])
    have "fd_inv env (upd_fdt t g ?s) T"
      using assms(2-4) assms(7)
    proof (rule fd_inv_set)
      show "vlive ?s ?L"
        using h(2) by (simp add: vlive_def)
      show "refs_ok (file_at ?s) (inode_at ?s) ?L
          (add_mset NULL (slot_set s T - {#files (fdt_at s t) ! n#}))"
        using refs_ok_drop_last [OF refs_ok_private [OF L(2) p(2)] f assms(6) True refl refl refl] assms(5) by simp
      show "private_ok env (file_at ?s) ?L (add_mset NULL (slot_set s T - {#files (fdt_at s t) ! n#}))"
        using private_ok_drop_last [OF L(3) f assms(6) True refl refl, of ?L x] assms(5) by simp
    qed simp_all
    then show ?thesis
      using h(1) that by blast
  next
    case False
    then have c: "1 < count (slot_set s T) f"
      using f count_greater_zero_iff [of "slot_set s T" f] by linarith
    then have "1 < fref (file_at s f)"
      using r(2) by (simp add: word_less_nat_alt)
    note fp = file_put_shared [OF assms(6) this, of env]
    let ?F = "(file_at s)(f := (file_at s f)\<lparr>fref := fref (file_at s f) - 1\<rparr>)"
    have e: "upd_file f (\<lambda>x. x\<lparr>fref := fref x - 1\<rparr>) s = s\<lparr>kh := kh s, inode_at := inode_at s, file_at := ?F\<rparr>"
      by (simp add: upd_file_def)
    have "fd_inv env (upd_fdt t g (s\<lparr>kh := kh s, inode_at := inode_at s, file_at := ?F\<rparr>)) T"
      using assms(2-4) assms(7)
    proof (rule fd_inv_set)
      show "vlive (s\<lparr>kh := kh s, inode_at := inode_at s, file_at := ?F\<rparr>) L"
        using L(1) by (simp add: vlive_def)
      show "refs_ok (file_at (s\<lparr>kh := kh s, inode_at := inode_at s, file_at := ?F\<rparr>))
          (inode_at (s\<lparr>kh := kh s, inode_at := inode_at s, file_at := ?F\<rparr>)) L
          (add_mset NULL (slot_set s T - {#files (fdt_at s t) ! n#}))"
        using refs_ok_drop_shared [OF L(2) f assms(6) c] assms(5) by simp
      show "private_ok env (file_at (s\<lparr>kh := kh s, inode_at := inode_at s, file_at := ?F\<rparr>)) L
          (add_mset NULL (slot_set s T - {#files (fdt_at s t) ! n#}))"
        by (rule private_ok_cong [OF L(3)]) (use c f assms(5) in \<open>auto simp: in_diff_count\<close>)
    qed simp_all
    with fp [unfolded e] show ?thesis
      by (rule that)
  qed
qed


section \<open>The system calls\<close>

lemma first_free_bounds:
  assumes "first_free i xs = r" "0 \<le> r"
  shows "i \<le> nat r \<and> nat r < i + length xs \<and> xs ! (nat r - i) = NULL"
  using assms
proof (induction i xs rule: first_free.induct)
  case (2 i f fs)
  then show ?case
    by (cases "f = NULL") (auto simp: nth_Cons' Suc_diff_Suc)
qed auto

definition fd_ready :: "vfs_env \<Rightarrow> vst \<Rightarrow> addr set \<Rightarrow> bool" where
  "fd_ready env s T \<longleftrightarrow> fd_inv env s T \<and> current s \<and> cur_fdt s \<in> T \<and> cur_fdt s \<noteq> NULL"

lemma cur_file_slot:
  assumes "fd_ready env s T" "cur_file fd s \<noteq> NULL"
  shows "0 \<le> fd" "fd < 64" "cur_file fd s = files (fdt_at s (cur_fdt s)) ! nat fd" "cur_file fd s \<in># slot_set s T"
proof -
  show b: "0 \<le> fd" "fd < 64" "cur_file fd s = files (fdt_at s (cur_fdt s)) ! nat fd"
    using assms(2) by (auto simp: cur_file_def MAX_FILES_PER_PROCESS_def split: if_splits)
  show "cur_file fd s \<in># slot_set s T"
    using assms(1) b slot_member [of T "cur_fdt s" "nat fd" s] by (auto simp: fd_ready_def fd_inv_def)
qed

lemma fd_ready_upd:
  "fd_inv env (upd_fdt t g s) T \<Longrightarrow> current s \<Longrightarrow> cur_fdt s \<in> T \<Longrightarrow> cur_fdt s \<noteq> NULL \<Longrightarrow> fd_ready env (upd_fdt t g s) T"
  by (simp add: fd_ready_def upd_fdt_def)

lemma file_get_fields: "current (fst (file_get f s)) = current s" "cur_fdt (fst (file_get f s)) = cur_fdt s"
  "fdt_at (fst (file_get f s)) = fdt_at s"
  by (simp_all add: file_get_def upd_file_def)

lemma set_errno_ready: "fd_ready env s T \<Longrightarrow> \<exists>s' r. Some (set_errno e s) = Some (s', r) \<and> fd_ready env s' T"
  by (simp add: fd_ready_def fd_inv_def set_errno_def slot_set_def vlive_def)

text \<open>Closing descriptor \<open>fd\<close> of the current table.\<close>

lemma fd_table_free_keeps:
  assumes "source_release env" "fd_ready env s T" "cur_file fd s \<noteq> NULL"
  obtains s' where "fd_table_free env (cur_fdt s) fd s = Some (s', 0)" "fd_ready env s' T" "cur_fdt s' = cur_fdt s"
    "files (fdt_at s' (cur_fdt s)) = (files (fdt_at s (cur_fdt s)))[nat fd := NULL]"
proof -
  let ?t = "cur_fdt s" and ?g = "\<lambda>t. t\<lparr>files := (files t)[nat fd := NULL], fcount := fcount t - 1\<rparr>"
  note c = cur_file_slot [OF assms(2,3)]
  have i: "fd_inv env s T" "?t \<in> T" "nat fd < 64"
    using assms(2) c by (auto simp: fd_ready_def)
  obtain h I F where
    p: "file_put env (cur_file fd s) s = Some (s\<lparr>kh := h, inode_at := I, file_at := F\<rparr>, ())"
    "fd_inv env (upd_fdt ?t ?g (s\<lparr>kh := h, inode_at := I, file_at := F\<rparr>)) T"
    by (rule fd_inv_drop [OF assms(1) i c(3) assms(3), of ?g]) auto
  have "fd_table_free env ?t fd s = Some (upd_fdt ?t ?g (s\<lparr>kh := h, inode_at := I, file_at := F\<rparr>), 0)"
    using assms(2,3) c p(1) by (simp add: fd_table_free_def fd_ready_def MAX_FILES_PER_PROCESS_def Let_def)
  moreover have "fd_ready env (upd_fdt ?t ?g (s\<lparr>kh := h, inode_at := I, file_at := F\<rparr>)) T"
    using assms(2) by (intro fd_ready_upd p(2)) (auto simp: fd_ready_def)
  ultimately show ?thesis
    by (rule that) (simp_all add: upd_fdt_def)
qed

lemma sys_close_keeps:
  assumes "source_release env" "fd_ready env s T"
  shows "\<exists>s' r. sys_close env fd s = Some (s', r) \<and> fd_ready env s' T"
proof (cases "cur_file fd s = NULL")
  case False
  note c = cur_file_slot [OF assms(2) False]
  have "sys_close env fd s = fd_table_free env (cur_fdt s) fd s"
    using c(1) assms(2) by (simp add: sys_close_def fd_ready_def)
  then show ?thesis
    using fd_table_free_keeps [OF assms False] by metis
next
  case True
  then have "\<exists>r. sys_close env fd s = Some (s, r)"
    using assms(2) by (auto simp: sys_close_def fd_table_free_def fd_ready_def cur_file_def Let_def split: if_splits)
  then show ?thesis
    using assms(2) by blast
qed

text \<open>Storing a reference to an open file in a free entry of the current table.\<close>

lemma fd_ready_add:
  assumes "fd_ready env s T" "n < 64" "files (fdt_at s (cur_fdt s)) ! n = NULL" "f \<in># slot_set s T" "f \<noteq> NULL"
    "files (g (fdt_at s (cur_fdt s))) = (files (fdt_at s (cur_fdt s)))[n := f]"
  shows "fd_ready env (upd_fdt (cur_fdt s) g (fst (file_get f s))) T"
  using assms by (intro fd_ready_upd fd_inv_add [of env s T _ n]) (auto simp: fd_ready_def file_get_fields)

lemma file_get_pair: "file_get f s = (fst (file_get f s), f)"
  by (simp add: file_get_def)

lemma sys_dup_unfold:
  assumes "fd_ready env s T" "cur_file fd s \<noteq> NULL"
  shows "sys_dup env fd s =
    (let f = cur_file fd s; s1 = fst (file_get f s); r = first_free 0 (files (fdt_at s (cur_fdt s))) in
     if 0 \<le> r
     then Some (upd_fdt (cur_fdt s) (\<lambda>t. t\<lparr>files := (files t)[nat r := f], fcount := fcount t + 1\<rparr>) s1, r)
     else do { (s, _) \<leftarrow> file_put env f s1; Some (set_errno EMFILE s) })"
proof -
  have "length (files (fdt_at s (cur_fdt s))) = 64"
    using assms(1) by (auto simp: fd_ready_def fd_inv_def)
  then show ?thesis
    using assms unfolding sys_dup_def fd_ready_def
    by (subst file_get_pair) (simp add: fd_table_alloc_def file_get_fields MAX_FILES_PER_PROCESS_def Let_def)
qed

lemma sys_dup_keeps:
  assumes "fd_ready env s T"
  shows "\<exists>s' r. sys_dup env fd s = Some (s', r) \<and> fd_ready env s' T"
proof (cases "cur_file fd s = NULL")
  case True
  then have "sys_dup env fd s = Some (set_errno EBADF s)"
    by (simp add: sys_dup_def)
  then show ?thesis
    using set_errno_ready [OF assms] by presburger
next
  case False
  note c = cur_file_slot [OF assms False] and u = sys_dup_unfold [OF assms False]
  let ?f = "cur_file fd s" and ?t = "cur_fdt s"
  define r where "r = first_free 0 (files (fdt_at s ?t))"
  show ?thesis
  proof (cases "0 \<le> r")
    case True
    have len: "length (files (fdt_at s ?t)) = 64"
      using assms by (auto simp: fd_ready_def fd_inv_def)
    have b: "nat r < 64" "files (fdt_at s ?t) ! nat r = NULL"
      using first_free_bounds [of 0 "files (fdt_at s ?t)" r] len True by (auto simp: r_def)
    have "fd_ready env (upd_fdt ?t (\<lambda>t. t\<lparr>files := (files t)[nat r := ?f], fcount := fcount t + 1\<rparr>) (fst (file_get ?f s))) T"
      by (rule fd_ready_add [OF assms b c(4) False]) simp
    then show ?thesis
      using u True by (simp add: Let_def r_def)
  next
    case no: False
    have "unat (fref (file_at s ?f)) = count (slot_set s T) ?f"
      using assms refs_okD(2) c(4) False by (auto simp: fd_ready_def fd_inv_def)
    moreover have "count (slot_set s T) ?f < 2 ^ 31" "0 < count (slot_set s T) ?f"
      using count_le_size [of "slot_set s T" ?f] size_slot_set [of env s T] assms c(4) by (auto simp: fd_ready_def)
    ultimately have "unat (fref (file_at s ?f) + 1) = unat (fref (file_at s ?f)) + 1" "0 < unat (fref (file_at s ?f))"
      by (auto simp: unat_add_bounded)
    then have "1 < fref (file_at (fst (file_get ?f s)) ?f)"
      using False by (simp add: file_get_def word_less_nat_alt)
    from file_put_shared [OF False this, of env]
    have "file_put env ?f (fst (file_get ?f s)) = Some (s, ())"
      using False by (simp add: file_get_def upd_file_def)
    then have "sys_dup env fd s = Some (set_errno EMFILE s)"
      using u no by (simp add: Let_def r_def)
    then show ?thesis
      using set_errno_ready [OF assms] by presburger
  qed
qed

lemma sys_dup2_keeps:
  assumes "source_release env" "fd_ready env s T"
  shows "\<exists>s' r. sys_dup2 env fd newfd s = Some (s', r) \<and> fd_ready env s' T"
proof (cases "cur_file fd s = NULL \<or> newfd < 0 \<or> newfd \<ge> 64")
  case True
  then have "sys_dup2 env fd newfd s = Some (set_errno EBADF s)"
    by (elim disjE) (simp_all add: sys_dup2_def MAX_FILES_PER_PROCESS_def)
  then show ?thesis
    using set_errno_ready [OF assms(2)] by presburger
next
  case False
  then have nz: "cur_file fd s \<noteq> NULL" and nf: "0 \<le> newfd" "newfd < 64"
    by auto
  note c = cur_file_slot [OF assms(2) nz]
  show ?thesis
  proof (cases "fd = newfd")
    case True
    then have "sys_dup2 env fd newfd s = Some (s, newfd)"
      using assms(2) nz nf by (simp add: sys_dup2_def fd_ready_def MAX_FILES_PER_PROCESS_def)
    then show ?thesis
      using assms(2) by simp
  next
    case ne: False
    obtain s1 x where s1: "(if cur_file newfd s \<noteq> NULL then fd_table_free env (cur_fdt s) newfd s else Some (s, 0)) = Some (s1, x)"
      "fd_ready env s1 T" "cur_fdt s1 = cur_fdt s"
      "files (fdt_at s1 (cur_fdt s)) = (files (fdt_at s (cur_fdt s)))[nat newfd := NULL]"
    proof (cases "cur_file newfd s = NULL")
      case True
      then have "files (fdt_at s (cur_fdt s)) ! nat newfd = NULL"
        using nf by (simp add: cur_file_def MAX_FILES_PER_PROCESS_def)
      then have "files (fdt_at s (cur_fdt s)) = (files (fdt_at s (cur_fdt s)))[nat newfd := NULL]"
        by (metis list_update_id)
      then show ?thesis
        using that [of s 0] True assms(2) by simp
    next
      case False
      then show ?thesis
        using fd_table_free_keeps [OF assms False] that by auto
    qed
    let ?f = "cur_file fd s1" and ?t = "cur_fdt s"
    have ff: "?f = cur_file fd s"
      using s1(3,4) ne nf c(1,2) by (simp add: cur_file_def nth_list_update MAX_FILES_PER_PROCESS_def nat_eq_iff)
    note c1 = cur_file_slot [OF s1(2), of fd, unfolded ff, OF nz]
    have len: "length (files (fdt_at s ?t)) = 64"
      using assms(2) by (auto simp: fd_ready_def fd_inv_def)
    have "fd_ready env (upd_fdt (cur_fdt s1) (\<lambda>t. t\<lparr>files := (files t)[nat newfd := ?f]\<rparr>) (fst (file_get ?f s1))) T"
      using nf s1 nz len c1 ff by (intro fd_ready_add [OF s1(2), of "nat newfd"]) auto
    moreover have "sys_dup2 env fd newfd s =
        Some (upd_fdt (cur_fdt s1) (\<lambda>t. t\<lparr>files := (files t)[nat newfd := ?f]\<rparr>) (fst (file_get ?f s1)), newfd)"
      using assms(2) nz nf ne s1(1)
      by (simp add: sys_dup2_def fd_ready_def MAX_FILES_PER_PROCESS_def file_get_fields Let_def)
         (subst file_get_pair, simp add: file_get_fields)
    ultimately show ?thesis
      by blast
  qed
qed

lemma upd_file_flags_ready:
  assumes "fd_ready env s T"
  shows "fd_ready env (upd_file f (\<lambda>x. x\<lparr>fflags := w\<rparr>) s) T"
proof -
  let ?F = "(file_at s)(f := (file_at s f)\<lparr>fflags := w\<rparr>)"
  have "users ?F M i = users (file_at s) M i" for M i
    by (auto simp: users_def)
  then have "refs_ok ?F I L M = refs_ok (file_at s) I L M" for I L M
    by (auto simp: refs_ok_def)
  moreover have "private_ok env ?F L M" if "private_ok env (file_at s) L M" for L M
    by (rule private_ok_cong [OF that]) auto
  ultimately show ?thesis
    using assms by (auto simp: fd_ready_def fd_inv_def upd_file_def slot_set_def vlive_def)
qed

lemma sys_fcntl_keeps:
  assumes "fd_ready env s T" "cmd = 0 \<Longrightarrow> 0 \<le> sint arg"
  shows "\<exists>s' r. sys_fcntl fd cmd arg s = Some (s', r) \<and> fd_ready env s' T"
proof (cases "cur_file fd s = NULL")
  case True
  then have "sys_fcntl fd cmd arg s = Some (set_errno EBADF s)"
    by (simp add: sys_fcntl_def)
  then show ?thesis
    using set_errno_ready [OF assms(1)] by presburger
next
  case False
  note c = cur_file_slot [OF assms(1) False]
  let ?f = "cur_file fd s" and ?t = "cur_fdt s"
  have len: "length (files (fdt_at s ?t)) = 64"
    using assms(1) by (auto simp: fd_ready_def fd_inv_def)
  have cur: "current s" "?t \<noteq> NULL"
    using assms(1) by (auto simp: fd_ready_def)
  show ?thesis
  proof (cases "cmd = 0")
    case True
    define r where "r = first_free (nat (sint arg)) (drop (nat (sint arg)) (files (fdt_at s ?t)))"
    have e: "sys_fcntl fd cmd arg s =
        (if 0 \<le> r then Some (upd_fdt ?t (\<lambda>t. t\<lparr>files := (files t)[nat r := ?f]\<rparr>) (fst (file_get ?f s)), r)
         else Some (set_errno EMFILE s))"
      using True False cur assms(2) len unfolding sys_fcntl_def
      by (subst file_get_pair) (simp add: file_get_fields MAX_FILES_PER_PROCESS_def Let_def r_def)
    show ?thesis
    proof (cases "0 \<le> r")
      case True
      then have b: "nat (sint arg) \<le> nat r" "nat r < nat (sint arg) + (64 - nat (sint arg))"
        "drop (nat (sint arg)) (files (fdt_at s ?t)) ! (nat r - nat (sint arg)) = NULL"
        using first_free_bounds [of "nat (sint arg)" "drop (nat (sint arg)) (files (fdt_at s ?t))" r] len
        by (auto simp: r_def)
      then have "nat r < 64" "files (fdt_at s ?t) ! nat r = NULL"
        using len by (auto simp: nth_drop)
      then have "fd_ready env (upd_fdt ?t (\<lambda>t. t\<lparr>files := (files t)[nat r := ?f]\<rparr>) (fst (file_get ?f s))) T"
        by (intro fd_ready_add [OF assms(1) _ _ c(4) False]) auto
      then show ?thesis
        using e True by simp
    next
      case no: False
      then show ?thesis
        using e set_errno_ready [OF assms(1)] by presburger
    qed
  next
    case ne: False
    show ?thesis
      using ne False cur assms(1) set_errno_ready [OF assms(1), of EINVAL] upd_file_flags_ready [OF assms(1)]
      by (auto simp: sys_fcntl_def Let_def upd_file_def)
  qed
qed

section \<open>Sequences of calls\<close>

text \<open>
  A step is one of the calls that change descriptors, by the current process, or a switch to another of
  the processes with the tables \<open>T\<close>.  The arguments are arbitrary, but for one: \<^verbatim>\<open>fcntl\<close> with \<^verbatim>\<open>F_DUPFD\<close> and
  a negative argument reads and writes memory before the table, and the model gives it no successor.
\<close>

inductive fd_step :: "vfs_env \<Rightarrow> addr set \<Rightarrow> vst \<Rightarrow> vst \<Rightarrow> bool" for env T where
  dup: "sys_dup env fd s = Some (s', r) \<Longrightarrow> fd_step env T s s'"
| dup2: "sys_dup2 env fd newfd s = Some (s', r) \<Longrightarrow> fd_step env T s s'"
| close: "sys_close env fd s = Some (s', r) \<Longrightarrow> fd_step env T s s'"
| fcntl: "(cmd = 0 \<longrightarrow> 0 \<le> sint arg) \<Longrightarrow> sys_fcntl fd cmd arg s = Some (s', r) \<Longrightarrow> fd_step env T s s'"
| switch: "t \<in> T \<Longrightarrow> t \<noteq> NULL \<Longrightarrow> fd_step env T s (s\<lparr>cur_fdt := t\<rparr>)"

lemma fd_step_keeps: "fd_step env T s s' \<Longrightarrow> source_release env \<Longrightarrow> fd_ready env s T \<Longrightarrow> fd_ready env s' T"
proof (induction rule: fd_step.induct)
  case (dup fd s s' r)
  then show ?case using sys_dup_keeps [of env s T fd] by auto
next
  case (dup2 fd newfd s s' r)
  then show ?case using sys_dup2_keeps [of env s T fd newfd] by auto
next
  case (close fd s s' r)
  then show ?case using sys_close_keeps [of env s T fd] by auto
next
  case (fcntl cmd arg fd s s' r)
  then show ?case using sys_fcntl_keeps [of env s T cmd arg fd] by auto
next
  case (switch t s)
  then show ?case by (simp add: fd_ready_def fd_inv_def slot_set_def vlive_def)
qed

text \<open>None of these calls fails to return.\<close>

lemma fd_calls_return:
  assumes "source_release env" "fd_ready env s T"
  shows "\<exists>s' r. sys_dup env fd s = Some (s', r)" "\<exists>s' r. sys_dup2 env fd newfd s = Some (s', r)"
    "\<exists>s' r. sys_close env fd s = Some (s', r)" "(cmd = 0 \<longrightarrow> 0 \<le> sint arg) \<Longrightarrow> \<exists>s' r. sys_fcntl fd cmd arg s = Some (s', r)"
  using sys_dup_keeps [OF assms(2)] sys_dup2_keeps [OF assms] sys_close_keeps [OF assms] sys_fcntl_keeps [OF assms(2), of cmd arg fd]
  by blast+

section \<open>Properties\<close>

text \<open>
  \<^bold>\<open>C5.\<close> Let \<open>T\<close> be the descriptor tables of some processes in a state where every table entry points
  to a live file object, every count is the number of entries, and the private data that a release frees
  belongs to one file only.  Then the calls \<^verbatim>\<open>dup\<close>, \<^verbatim>\<open>dup2\<close>, \<^verbatim>\<open>close\<close> and \<^verbatim>\<open>fcntl\<close> return, and after any
  sequence of them by these processes every open descriptor of the current process still points to a
  live file object whose count is the number of entries that point to it: none dangles and none is
  freed early.  The release functions are those of the source, which change nothing here or, for FAT32,
  free the private data.  One argument is excluded: \<^verbatim>\<open>F_DUPFD\<close> with a negative number, for which the
  code writes before the table.
\<close>

theorem descriptors_never_dangle:
  assumes "fd_ready env s T" "source_release env" "(fd_step env T)\<^sup>*\<^sup>* s s'"
  shows "(cur_file fd s' \<noteq> NULL \<longrightarrow> (\<exists>L. vlive s' L \<and> L (cur_file fd s') \<noteq> None \<and>
      unat (fref (file_at s' (cur_file fd s'))) = count (slot_set s' T) (cur_file fd s')))
    \<and> sys_dup env fd s' \<noteq> None \<and> sys_dup2 env fd newfd s' \<noteq> None \<and> sys_close env fd s' \<noteq> None
    \<and> ((cmd = 0 \<longrightarrow> 0 \<le> sint arg) \<longrightarrow> sys_fcntl fd cmd arg s' \<noteq> None)"
proof -
  have r: "fd_ready env s' T"
    using assms(3,1) by (induction rule: rtranclp_induct) (auto intro: fd_step_keeps assms(2))
  have "\<exists>L. vlive s' L \<and> L (cur_file fd s') \<noteq> None \<and>
      unat (fref (file_at s' (cur_file fd s'))) = count (slot_set s' T) (cur_file fd s')" if "cur_file fd s' \<noteq> NULL"
    using r cur_file_slot(4) [OF r that] that refs_okD(1,2) unfolding fd_ready_def fd_inv_def by blast
  moreover have "sys_dup env fd s' \<noteq> None" "sys_dup2 env fd newfd s' \<noteq> None" "sys_close env fd s' \<noteq> None"
    using fd_calls_return(1-3) [OF assms(2) r] by (metis option.distinct(1))+
  moreover have "sys_fcntl fd cmd arg s' \<noteq> None" if "cmd = 0 \<longrightarrow> 0 \<le> sint arg"
    using fd_calls_return(4) [OF assms(2) r that, of fd] by auto
  ultimately show ?thesis
    by blast
qed

text \<open>A process with descriptor 0 open.\<close>

definition demo_fd :: vst where
  "demo_fd = demo_vst\<lparr>fdt_at := (\<lambda>_. \<lparr>files = 0xD0000014 # replicate 63 0, fcount = 1\<rparr>),
     file_at := (\<lambda>_. zero_file\<lparr>fref := 1\<rparr>)\<rparr>"

lemma demo_heap4_live: "heap_live demo_heap4 [0xD0000014 \<mapsto> 104]"
  using demo_heap3_rel by (auto simp: demo_heap4_def heap_live_def live_map_def heap_rel_payload)

lemma demo_fd_slots: "slot_set demo_fd {0xD0001000} = add_mset 0xD0000014 (replicate_mset 127 0)"
proof -
  have "slot_set demo_fd {0xD0001000} = mset (replicate 64 0) + mset (0xD0000014 # replicate 63 0)"
    by (simp add: slot_set_def demo_fd_def demo_vst_def del: mset.simps mset_replicate)
  also have "\<dots> = add_mset 0xD0000014 (replicate_mset 64 0 + replicate_mset 63 0)"
    by (simp only: mset.simps mset_replicate union_mset_add_mset_right)
  also have "replicate_mset 64 (0 :: addr) + replicate_mset 63 0 = replicate_mset 127 0"
    by (simp add: multiset_eq_iff)
  finally show ?thesis .
qed

lemma demo_fd_refs: "refs_ok (file_at demo_fd) (inode_at demo_fd) [0xD0000014 \<mapsto> 104] (slot_set demo_fd {0xD0001000})"
proof (rule refs_okI, unfold demo_fd_slots)
  fix f assume "f \<in># add_mset 0xD0000014 (replicate_mset 127 (0 :: addr))" "f \<noteq> NULL"
  then show "[0xD0000014 \<mapsto> 104] f \<noteq> None \<and>
      unat (fref (file_at demo_fd f)) = count (add_mset 0xD0000014 (replicate_mset 127 0)) f"
    by (auto simp: demo_fd_def)
qed (auto simp: users_def demo_fd_def zero_file_def)

lemma demo_fd_ready: "fd_ready env demo_fd {0xD0001000}"
  using demo_fd_refs demo_heap4_live
  by (auto simp: private_ok_def released_def demo_fd_slots frees_private_def zero_file_def fd_ready_def fd_inv_def demo_fd_def demo_vst_def vlive_def intro!: exI [of _ "[0xD0000014 \<mapsto> 104]"])

definition demo_fat_env :: vfs_env where
  "demo_fat_env = demo_env\<lparr>fops := (\<lambda>op. (fops demo_env op)\<lparr>fop_release := Some fat32_file_release\<rparr>)\<rparr>"

lemma demo_release: "source_release demo_env" "source_release demo_fat_env"
  by (simp_all add: source_release_def demo_env_def demo_fat_env_def)

theorem descriptors_never_dangle_witness:
  "\<exists>s' L. sys_dup demo_fat_env 0 demo_fd = Some (s', 1) \<and> vlive s' L \<and> L (cur_file 1 s') \<noteq> None \<and> cur_file 1 s' = 0xD0000014"
proof -
  have c: "cur_file 0 demo_fd = 0xD0000014"
    by (simp add: cur_file_def demo_fd_def MAX_FILES_PER_PROCESS_def)
  have "replicate 63 (0 :: addr) = 0 # replicate 62 0"
    using replicate_Suc [of 62 "0 :: addr"] by simp
  then have "first_free 0 (files (fdt_at demo_fd (cur_fdt demo_fd))) = 1"
    by (simp add: demo_fd_def)
  then have d: "sys_dup demo_fat_env 0 demo_fd = Some (upd_fdt (cur_fdt demo_fd)
      (\<lambda>t. t\<lparr>files := (files t)[1 := 0xD0000014], fcount := fcount t + 1\<rparr>) (fst (file_get 0xD0000014 demo_fd)), 1)"
    (is "_ = Some (?s, 1)")
    using sys_dup_unfold [OF demo_fd_ready, of 0 demo_fat_env] c by (simp add: Let_def)
  have "cur_file 1 ?s = 0xD0000014"
    by (simp add: cur_file_def upd_fdt_def file_get_fields demo_fd_def MAX_FILES_PER_PROCESS_def)
  moreover have "(fd_step demo_fat_env {0xD0001000})\<^sup>*\<^sup>* demo_fd ?s"
    using fd_step.dup [OF d] by blast
  ultimately show ?thesis
    using descriptors_never_dangle [OF demo_fd_ready demo_release(2), of ?s 1 1 0 0] d by auto
qed

text \<open>
  Copying a descriptor table does not count the new references: when a file has a single
  entry and the process closes it after the copy, the copy still points to the file although its
  storage has been freed.
\<close>

theorem fd_table_copy_dangles:
  assumes "vlive s L" "current s" "cur_fdt s \<noteq> NULL" "L (cur_fdt s) \<noteq> None" "source_release env"
    "length (files (fdt_at s (cur_fdt s))) = 64" "length (open_files s) = 64"
    "refs_ok (file_at s) (inode_at s) L (slot_set s {cur_fdt s})"
    "f = cur_file fd s" "f \<noteq> NULL" "count (slot_set s {cur_fdt s}) f = 1"
    "fd_table_copy (cur_fdt s) s = Some (s1, dst)" "dst \<noteq> NULL" "released env (file_at s f) = NULL"
  shows "\<exists>s2 L'. sys_close env fd s1 = Some (s2, 0) \<and> files (fdt_at s2 dst) ! nat fd = f \<and> vlive s2 L' \<and> L' f = None"
proof -
  let ?t = "cur_fdt s"
  have fd: "0 \<le> fd" "fd < 64" "f = files (fdt_at s ?t) ! nat fd"
    using assms(9,10) by (auto simp: cur_file_def MAX_FILES_PER_PROCESS_def split: if_splits)
  have fM: "f \<in># slot_set s {?t}"
    using assms(11) by (simp flip: count_greater_zero_iff)
  note r = refs_okD [OF assms(8) fM assms(10)]
  obtain sa where sa: "kalloc 260 s = Some (sa, dst)"
    using assms(3,12,13) by (auto simp: fd_table_copy_def fd_table_create_def bind_eq_Some_conv split: if_splits)
  obtain m where m: "L dst = None" "vlive sa (L(dst \<mapsto> m))"
    using kobj.alloc_new [OF assms(1) _ sa assms(13)] by auto
  obtain h where h: "sa = s\<lparr>kh := h\<rparr>"
    using kalloc_state [OF sa] by blast
  have td: "?t \<noteq> dst" "f \<noteq> dst"
    using m(1) assms(4) r(1) by auto
  have s1: "kh s1 = kh sa" "file_at s1 = file_at s" "inode_at s1 = inode_at s" "current s1" "cur_fdt s1 = ?t"
    "fdt_at s1 ?t = fdt_at s ?t" "files (fdt_at s1 dst) = files (fdt_at s ?t)"
    using assms(2,3,12,13) sa h td by (auto simp: fd_table_copy_def fd_table_create_def upd_fdt_def)
  let ?L = "L(dst \<mapsto> m)" and ?i = "finode (file_at s1 f)"
  have v: "vlive s1 ?L"
    using m(2) s1(1) by (simp add: vlive_def)
  obtain j where j: "?L f = Some j"
    using r(1) td(2) by auto
  have one: "fref (file_at s1 f) = 1"
    using r(2) assms(11) s1(2) by (simp add: unat_inj)
  obtain k where k: "?i = NULL \<or> ?L ?i = Some k \<and> ?i \<noteq> f \<and> 0 < iref (inode_at s1 ?i)"
  proof (cases "?i = NULL")
    case False
    have "f \<in> users (file_at s) (slot_set s {?t}) ?i"
      using fM assms(10) s1(2) by (simp add: users_def)
    then have "0 < unat (iref (inode_at s ?i))"
      using r(3) False s1(2) finite_users by (metis card_gt_0_iff empty_iff)
    then have "0 < iref (inode_at s1 ?i)"
      using s1(3) by (simp add: word_less_nat_alt)
    moreover have "?i \<noteq> f" "L ?i \<noteq> None"
      using r(3) False fM s1(2) by metis+
    moreover from this(2) have "?L ?i = L ?i" "\<exists>k. L ?i = Some k"
      using m(1) by auto
    ultimately show ?thesis
      using that by metis
  qed auto
  have p: "NULL = released env (file_at s1 f)" "NULL = NULL \<or> ?L NULL \<noteq> None \<and> NULL \<noteq> f \<and> NULL \<noteq> ?i"
    using assms(14) s1(2) by simp_all
  obtain g I x where g: "file_put env f s1 = Some (s1\<lparr>kh := g, inode_at := I, file_at := (file_at s1)(f := x)\<rparr>, ())"
      "\<exists>L'. heap_live g L' \<and> L' f = None"
    by (rule file_put_last [OF assms(5) v j one refl k p]) (metis fun_upd_same)
  have "sys_close env fd s1 = Some (upd_fdt ?t (\<lambda>t. t\<lparr>files := (files t)[nat fd := NULL], fcount := fcount t - 1\<rparr>)
      (s1\<lparr>kh := g, inode_at := I, file_at := (file_at s1)(f := x)\<rparr>), 0)"
    using fd s1 assms(3,10) g(1) by (simp add: sys_close_def fd_table_free_def MAX_FILES_PER_PROCESS_def Let_def)
  then show ?thesis
    using g(2) td fd(3) s1(7) by (auto simp: upd_fdt_def vlive_def)
qed

text \<open>The example again, with the table in an area of its own.\<close>

definition demo_heap5 :: kheap where "demo_heap5 = fst (the (kmalloc 260 demo_heap4))"

lemma demo_heap5_rel:
  "heap_rel demo_heap5 [(0xD0000000, 124, True), (0xD000007C, 284, True), (0xD0000198, 3688, False)]"
proof -
  have e: "request 260 = 284"
    by (simp add: request_def)
  have "alloc_list 284 [(0xD0000000, 124, True), (0xD000007C, 3972, False)] =
      Some (0xD0000090, [(0xD0000000, 124, True), (0xD000007C, 284, True), (0xD0000198, 3688, False)])"
    by (simp add: fits_def carve_def)
  moreover have r: "heap_rel demo_heap4 [(0xD0000000, 124, True), (0xD000007C, 3972, False)]"
    using demo_heap3_rel by (simp add: demo_heap4_def heap_rel_payload)
  ultimately obtain h' where "kmalloc 260 demo_heap4 = Some (h', 0xD0000090)"
    "heap_rel h' [(0xD0000000, 124, True), (0xD000007C, 284, True), (0xD0000198, 3688, False)]"
    using kmalloc_fit [OF r, of 260 "0xD0000090"] by (auto simp: e simp del: alloc_list.simps)
  then show ?thesis
    by (simp add: demo_heap5_def)
qed

definition demo_fd2 :: vst where "demo_fd2 = demo_fd\<lparr>kh := demo_heap5, cur_fdt := 0xD0000090\<rparr>"

theorem fd_table_copy_dangles_witness:
  "\<exists>s1 s2 dst L. fd_table_copy 0xD0000090 demo_fd2 = Some (s1, dst) \<and> sys_close demo_env 0 s1 = Some (s2, 0) \<and>
     files (fdt_at s2 dst) ! 0 = 0xD0000014 \<and> vlive s2 L \<and> L 0xD0000014 = None"
proof -
  let ?L = "[0xD0000014 \<mapsto> 104, 0xD0000090 \<mapsto> 264] :: addr \<rightharpoonup> nat"
  have v: "vlive demo_fd2 ?L"
  proof -
    have "live_map [(0xD0000000, 124, True), (0xD000007C, 284, True), (0xD0000198, 3688, False)] = ?L"
      by (auto simp: live_map_def fun_eq_iff)
    then show ?thesis
      using demo_heap5_rel unfolding vlive_def heap_live_def demo_fd2_def by fastforce
  qed
  have sl: "slot_set demo_fd2 {0xD0000090} = slot_set demo_fd {0xD0001000}"
    by (simp add: slot_set_def demo_fd2_def demo_fd_def demo_vst_def)
  have rf: "refs_ok (file_at demo_fd2) (inode_at demo_fd2) ?L (slot_set demo_fd2 {0xD0000090})"
    using demo_fd_refs unfolding sl by (auto simp: refs_ok_def demo_fd2_def split: if_splits)
  have one: "count (slot_set demo_fd2 {0xD0000090}) 0xD0000014 = 1"
    unfolding sl demo_fd_slots by simp
  have e: "request 260 = 284"
    by (simp add: request_def)
  have "alloc_list 284 [(0xD0000000, 124, True), (0xD000007C, 284, True), (0xD0000198, 3688, False)] =
      Some (0xD00001AC, [(0xD0000000, 124, True), (0xD000007C, 284, True), (0xD0000198, 284, True), (0xD00002B4, 3404, False)])"
    by (simp add: fits_def carve_def)
  then obtain h where "kmalloc 260 demo_heap5 = Some (h, 0xD00001AC)"
    using kmalloc_fit [OF demo_heap5_rel, of 260 "0xD00001AC"] by (auto simp: e simp del: alloc_list.simps)
  then obtain s1 where s1: "fd_table_copy 0xD0000090 demo_fd2 = Some (s1, 0xD00001AC)"
    by (simp add: fd_table_copy_def fd_table_create_def kalloc_def demo_fd2_def)
  have cf: "0xD0000014 = cur_file 0 demo_fd2"
    by (simp add: cur_file_def demo_fd2_def demo_fd_def MAX_FILES_PER_PROCESS_def)
  have "\<exists>s2 L'. sys_close demo_env 0 s1 = Some (s2, 0) \<and> files (fdt_at s2 0xD00001AC) ! nat 0 = 0xD0000014 \<and>
      vlive s2 L' \<and> L' 0xD0000014 = None"
    by (rule fd_table_copy_dangles [OF v _ _ _ demo_release(1) _ _ _ cf])
      (use rf one s1 in \<open>simp_all add: demo_fd2_def demo_fd_def demo_vst_def released_def frees_private_def zero_file_def\<close>)
  then show ?thesis
    using s1 by auto
qed

end
