(* ===== verification/Devfs.thy ===== *)
theory Devfs
  imports Vfs_Refs
begin

text \<open>
  The device file system, \<^verbatim>\<open>fs/devfs.c\<close>, and two of its devices, \<^verbatim>\<open>fs/dev_null.c\<close> and
  \<^verbatim>\<open>fs/dev_zero.c\<close>.  The addresses of the static objects \<open>devfs_state.sb\<close>, \<open>devfs_inode_ops\<close>,
  \<open>dev_null_fops\<close> and \<open>dev_zero_fops\<close> are constants of the model.
\<close>

definition DEVFS_SB :: addr where "DEVFS_SB = 0xC0200000"
definition devfs_inode_ops :: addr where "devfs_inode_ops = 0xC0200100"
definition dev_null_fops :: addr where "dev_null_fops = 0xC0200200"
definition dev_zero_fops :: addr where "dev_zero_fops = 0xC0200300"

definition MKDEV :: "u32 \<Rightarrow> u32 \<Rightarrow> u32" where "MKDEV ma mi = push_bit 20 ma OR mi"

section \<open>The list of devices\<close>

partial_function (option) find_device :: "(addr \<Rightarrow> devfs_device) \<Rightarrow> u8 list \<Rightarrow> addr \<Rightarrow> addr option" where
  "find_device mem name dev =
     (if dev = NULL then Some NULL
      else if dev_name (mem dev) = name then Some dev
      else find_device mem name (dev_next (mem dev)))"

definition devfs_lookup :: "addr \<Rightarrow> u8 list \<Rightarrow> addr kop" where
  "devfs_lookup dir name s =
     (if dir = NULL then Some (s, NULL)
      else do {
        dev \<leftarrow> find_device (dev_at s) name (device_list s);
        if dev \<noteq> NULL then vfs_alloc_dentry (Some name) (dev_inode (dev_at s dev)) s
        else Some (s, NULL)
      })"

definition devfs_init :: "int kop" where
  "devfs_init s = do {
     let s = s\<lparr>sb_at := (sb_at s)(DEVFS_SB := \<lparr>sroot = NULL\<rparr>), devfs_root_inode := NULL, dev_root := NULL,
               devfs_initialized := False, device_list := NULL, next_ino := 1\<rparr>;
     let n = next_ino s;
     let s = s\<lparr>next_ino := n + 1\<rparr>;
     (s, inode) \<leftarrow> vfs_alloc_inode NULL n s;
     let s = s\<lparr>devfs_root_inode := inode\<rparr>;
     if inode = NULL then Some (s, - ENOMEM)
     else do {
       let s = upd_inode inode (\<lambda>i. i\<lparr>mode := 0x41ED, i_op := devfs_inode_ops, if_op := NULL,
                 isb := DEVFS_SB\<rparr>) s;
       let s = s\<lparr>sb_at := (sb_at s)(DEVFS_SB := \<lparr>sroot = inode\<rparr>)\<rparr>;
       (s, ret) \<leftarrow> vfs_register_filesystem (Some [100, 101, 118, 102, 115]) DEVFS_SB s;
       if ret < 0 then do { (s, _) \<leftarrow> vfs_free_inode inode s; Some (s, ret) }
       else Some (s\<lparr>devfs_initialized := True, dev_root := root_dentry s\<rparr>, 0)
     }
   }"

definition devfs_register_device :: "u8 list option \<Rightarrow> u32 \<Rightarrow> u32 \<Rightarrow> addr \<Rightarrow> int kop" where
  "devfs_register_device name ma mi ops s =
     (case name of None \<Rightarrow> Some (s, - EINVAL)
      | Some name \<Rightarrow>
        if ops = NULL \<or> \<not> devfs_initialized s then Some (s, - EINVAL)
        else do {
          dev \<leftarrow> find_device (dev_at s) name (device_list s);
          if dev \<noteq> NULL then Some (s, - EEXIST)
          else do {
            (s, dev) \<leftarrow> kalloc 272 s;
            if dev = NULL then Some (s, - ENOMEM)
            else do {
              let n = next_ino s;
              let s = s\<lparr>next_ino := n + 1\<rparr>;
              (s, inode) \<leftarrow> vfs_alloc_inode DEVFS_SB n s;
              if inode = NULL then do { (s, _) \<leftarrow> krelease dev s; Some (s, - ENOMEM) }
              else let s = upd_inode inode (\<lambda>i. i\<lparr>mode := 0x21B6, rdev := MKDEV ma mi, if_op := ops,
                             i_op := NULL\<rparr>) s;
                       s = s\<lparr>dev_at := (dev_at s)(dev := \<lparr>dev_name = take (VFS_MAX_NAME - 1) name, major = ma,
                             minor = mi, dev_inode = inode, dev_next = device_list s\<rparr>)\<rparr>
                   in Some (s\<lparr>device_list := dev\<rparr>, 0)
            }
          }
        })"

text \<open>\<open>prev\<close> is the device whose \<open>next\<close> field points to \<open>dev\<close>, \<open>NULL\<close> for the head of the list.\<close>

partial_function (option) unregister_loop :: "u8 list \<Rightarrow> addr \<Rightarrow> addr \<Rightarrow> vst \<Rightarrow> (vst \<times> int) option" where
  "unregister_loop name prev dev s =
     (if dev = NULL then Some (s, - ENOENT)
      else if dev_name (dev_at s dev) = name then
        let nxt = dev_next (dev_at s dev);
            s = (if prev = NULL then s\<lparr>device_list := nxt\<rparr>
                 else s\<lparr>dev_at := (dev_at s)(prev := (dev_at s prev)\<lparr>dev_next := nxt\<rparr>)\<rparr>)
        in Option.bind (vfs_free_inode (dev_inode (dev_at s dev)) s)
             (\<lambda>(s, _). Option.bind (krelease dev s) (\<lambda>(s, _). Some (s, 0)))
      else unregister_loop name dev (dev_next (dev_at s dev)) s)"

definition devfs_unregister_device :: "u8 list option \<Rightarrow> int kop" where
  "devfs_unregister_device name s =
     (case name of None \<Rightarrow> Some (s, - EINVAL)
      | Some name \<Rightarrow>
        if \<not> devfs_initialized s then Some (s, - EINVAL)
        else unregister_loop name NULL (device_list s) s)"

section \<open>Devices\<close>

definition dev_null_open :: "addr \<Rightarrow> addr \<Rightarrow> int kop" where
  "dev_null_open inode file s = Some (s, 0)"

definition dev_null_release :: "addr \<Rightarrow> int kop" where
  "dev_null_release file s = Some (s, 0)"

definition dev_null_read :: "addr \<Rightarrow> addr \<Rightarrow> u32 \<Rightarrow> int kop" where
  "dev_null_read file buf count s = Some (s, 0)"

definition dev_null_write :: "addr \<Rightarrow> addr \<Rightarrow> u32 \<Rightarrow> int kop" where
  "dev_null_write file buf count s = Some (s, sint count)"

definition dev_null_ops :: file_operations where
  "dev_null_ops = \<lparr>fop_open = Some dev_null_open, fop_release = Some dev_null_release,
     fop_read = Some dev_null_read, fop_write = Some dev_null_write\<rparr>"

definition dev_null_init :: "int kop" where
  "dev_null_init s = do {
     (s, ret) \<leftarrow> devfs_register_device (Some [110, 117, 108, 108]) 1 0 dev_null_fops s;
     if ret < 0 then Some (s, ret) else Some (s, 0)
   }"

definition dev_zero_open :: "addr \<Rightarrow> addr \<Rightarrow> int kop" where
  "dev_zero_open inode file s = Some (s, 0)"

definition dev_zero_release :: "addr \<Rightarrow> int kop" where
  "dev_zero_release file s = Some (s, 0)"

definition dev_zero_read :: "addr \<Rightarrow> addr \<Rightarrow> u32 \<Rightarrow> int kop" where
  "dev_zero_read file buf count s =
     (if buf = NULL \<or> count = 0 then Some (s, 0)
      else Some (set_mem (memset buf 0 count (payload (kh s))) s, sint count))"

definition dev_zero_write :: "addr \<Rightarrow> addr \<Rightarrow> u32 \<Rightarrow> int kop" where
  "dev_zero_write file buf count s = Some (s, sint count)"

definition dev_zero_ops :: file_operations where
  "dev_zero_ops = \<lparr>fop_open = Some dev_zero_open, fop_release = Some dev_zero_release,
     fop_read = Some dev_zero_read, fop_write = Some dev_zero_write\<rparr>"

definition dev_zero_init :: "int kop" where
  "dev_zero_init s = do {
     (s, ret) \<leftarrow> devfs_register_device (Some [122, 101, 114, 111]) 1 0 dev_zero_fops s;
     if ret < 0 then Some (s, ret) else Some (s, 0)
   }"

text \<open>The function tables as the kernel links them; the other file systems stay parameters.\<close>

definition devfs_env :: "vfs_env \<Rightarrow> vfs_env" where
  "devfs_env env = env\<lparr>
     fops := (fops env)(dev_null_fops := dev_null_ops, dev_zero_fops := dev_zero_ops),
     iop_lookup := (iop_lookup env)(devfs_inode_ops := Some devfs_lookup)\<rparr>"

section \<open>Opening and closing a device\<close>

lemma pieces_single: "47 \<notin> set name \<Longrightarrow> pieces {47} name = [name]"
  by (induction name) auto

lemma tokens_single: "name \<noteq> [] \<Longrightarrow> 47 \<notin> set name \<Longrightarrow> tokens {47} name = [name]"
  by (simp add: tokens_def pieces_single)

definition device_name :: "u8 list \<Rightarrow> bool" where
  "device_name name \<longleftrightarrow> name \<noteq> [] \<and> 47 \<notin> set name \<and> length name < VFS_MAX_NAME \<and> name \<noteq> [46] \<and>
     name \<noteq> [46, 46] \<and> take 4 name \<noteq> [112, 114, 111, 99]"

text \<open>The state after \<^verbatim>\<open>devfs_init\<close>: the root of the tree is the directory of devices.\<close>

definition devfs_mounted :: "vst \<Rightarrow> bool" where
  "devfs_mounted s \<longleftrightarrow> vfs_initialized s \<and> root_dentry s \<noteq> NULL \<and>
     (let d = dentry_at s (root_dentry s) in
      child d = NULL \<and> dinode d \<noteq> NULL \<and> i_op (inode_at s (dinode d)) = devfs_inode_ops)"

lemma devfs_path:
  assumes "devfs_mounted s" "device_name name" "fat32_get_fs env = NULL"
    "find_device (dev_at s) name (device_list s) = Some dev" "dev \<noteq> NULL"
  shows "vfs_lookup (devfs_env env) (Some (47 # name)) s =
    vfs_alloc_dentry (Some name) (dev_inode (dev_at s dev)) s"
proof -
  let ?e = "devfs_env env" and ?r = "root_dentry s"
  have t: "tokens {47} name = [name]" "take 4 name \<noteq> [112, 114, 111, 99]" "length name < VFS_MAX_NAME"
    "name \<noteq> [46]" "name \<noteq> [46, 46]"
    using assms(2) tokens_single [of name] by (auto simp: device_name_def)
  have "find_child (dentry_at s) name NULL = Some NULL"
    by (subst find_child.simps) simp
  then have l: "lookup_child ?e ?r name s = vfs_alloc_dentry (Some name) (dev_inode (dev_at s dev)) s"
    using assms(1,4,5) t
    by (simp add: lookup_child_def devfs_mounted_def Let_def devfs_env_def devfs_lookup_def devfs_inode_ops_def)
  have f: "try_fat32 ?e p s' = Some (s', NULL)" for p s'
    using assms(3) by (simp add: try_fat32_def devfs_env_def)
  have "vfs_lookup ?e (Some (47 # name)) s = do {
     (s', d) \<leftarrow> resolve ?e ?r (tokens {47} name) s;
     if d = NULL then try_fat32 ?e (47 # name) s' else Some (s', d) }"
    using assms(1) t by (intro vfs_lookup_resolve) (auto simp: devfs_mounted_def)
  also have "\<dots> = vfs_alloc_dentry (Some name) (dev_inode (dev_at s dev)) s"
    unfolding t(1) resolve.simps l f by (cases "vfs_alloc_dentry (Some name) (dev_inode (dev_at s dev)) s") (auto split: if_splits)
  finally show ?thesis .
qed

lemma devfs_env_release: "source_release env \<Longrightarrow> source_release (devfs_env env)"
  by (auto simp: source_release_def devfs_env_def dev_null_ops_def dev_zero_ops_def dev_null_release_def
      dev_zero_release_def split: if_splits)

lemma fat32_release_differs: "dev_null_release \<noteq> fat32_file_release"
proof
  assume e: "dev_null_release = fat32_file_release"
  let ?s = "undefined\<lparr>file_at := (\<lambda>_. undefined\<lparr>fpriv := 1\<rparr>)\<rparr> :: vst"
  have "fat32_file_release 0 ?s = Some (?s, 0)"
    by (simp add: e [symmetric] dev_null_release_def)
  then obtain s' where "upd_file 0 (\<lambda>f. f\<lparr>fpriv := NULL\<rparr>) s' = ?s"
    by (auto simp: fat32_file_release_def bind_eq_Some_conv)
  then have "fpriv (file_at (upd_file 0 (\<lambda>f. f\<lparr>fpriv := NULL\<rparr>) s') 0) = fpriv (file_at ?s 0)"
    by (rule arg_cong)
  then show False
    by simp
qed

lemma null_released: "f_op x = dev_null_fops \<Longrightarrow> released (devfs_env env) x = NULL"
  using fat32_release_differs
  by (auto simp: released_def frees_private_def devfs_env_def dev_null_ops_def dev_null_fops_def dev_zero_fops_def)

lemma devfs_register_inode:
  assumes "devfs_register_device (Some name) ma mi ops s = Some (s', 0)"
  shows "device_list s' \<noteq> NULL \<and> iref (inode_at s' (dev_inode (dev_at s' (device_list s')))) = 0 \<and>
    if_op (inode_at s' (dev_inode (dev_at s' (device_list s')))) = ops \<and> dev_inode (dev_at s' (device_list s')) \<noteq> NULL"
  using assms
  by (auto simp: devfs_register_device_def vfs_alloc_inode_def kalloc_def bind_eq_Some_conv Let_def upd_inode_def
      split: if_splits)

lemma first_free_less: "first_free i xs < int (i + length xs)"
  by (induction i xs rule: first_free.induct) auto

definition null_dentry :: "u8 list \<Rightarrow> addr \<Rightarrow> vfs_dentry" where
  "null_dentry name i = \<lparr>dname = take (VFS_MAX_NAME - 1) name, dinode = i, parent = NULL, child = NULL, sibling = NULL\<rparr>"

lemma vfs_open_null:
  fixes flags :: u32
  assumes d: "devfs_mounted s" "device_name name" "fat32_get_fs env = NULL"
    and f: "find_device (dev_at s) name (device_list s) = Some dev" "dev \<noteq> NULL" "dev_inode (dev_at s dev) = i" "i \<noteq> NULL"
    and n: "iref (inode_at s i) = 0" "if_op (inode_at s i) = dev_null_fops"
    and a: "kalloc 272 s = Some (s\<lparr>kh := h\<rparr>, dn)" "dn \<noteq> NULL"
    and c: "kalloc 28 (s\<lparr>kh := h, dentry_at := (dentry_at s)(dn := null_dentry name i)\<rparr>) =
      Some (s\<lparr>kh := h', dentry_at := (dentry_at s)(dn := null_dentry name i)\<rparr>, fl)" "fl \<noteq> NULL"
  defines "t \<equiv> s\<lparr>kh := h', dentry_at := (dentry_at s)(dn := null_dentry name i),
      file_at := (file_at s)(fl := \<lparr>fdentry = dn, finode = i, f_op = dev_null_fops, fflags = flags, pos = 0,
        fref = 1, fpriv = ipriv (inode_at s i)\<rparr>),
      inode_at := (inode_at s)(i := (inode_at s i)\<lparr>iref := 1\<rparr>)\<rparr>"
  defines "fd \<equiv> first_free 0 (take 64 (open_files s))"
  shows "vfs_open (devfs_env env) (Some (47 # name)) flags s =
      (if fd < 0 then do { (s, _) \<leftarrow> call_release (devfs_env env) fl t; (s, _) \<leftarrow> free_file fl s; Some (s, - ENOMEM) }
       else Some (t\<lparr>open_files := (open_files s)[nat fd := fl]\<rparr>, fd))"
proof -
  have ini: "vfs_initialized s"
    using d(1) by (simp add: devfs_mounted_def)
  have lk: "vfs_lookup (devfs_env env) (Some (47 # name)) s =
      Some (s\<lparr>kh := h, dentry_at := (dentry_at s)(dn := null_dentry name i)\<rparr>, dn)"
    using devfs_path [OF d f(1,2)] a f(3) by (simp add: vfs_alloc_dentry_def upd_dentry_def null_dentry_def)
  have di: "dinode (null_dentry name i) = i"
    by (simp add: null_dentry_def)
  show ?thesis
    using ini lk f(4) a(2) c n di
    by (simp add: vfs_open_def alloc_file_def upd_file_def upd_inode_def inode_get_def call_open_def t_def fd_def
        Let_def devfs_env_def dev_null_ops_def dev_null_open_def alloc_fd_def VFS_MAX_OPEN_FILES_def
        dev_null_fops_def dev_zero_fops_def)
qed

text \<open>What a successful open of the null device leaves behind.\<close>

lemma open_null:
  assumes v: "vlive s L" "L i = Some k" and d: "devfs_mounted s" "device_name name" "fat32_get_fs env = NULL"
    and f: "find_device (dev_at s) name (device_list s) = Some dev" "dev \<noteq> NULL" "dev_inode (dev_at s dev) = i"
    and n: "iref (inode_at s i) = 0" "if_op (inode_at s i) = dev_null_fops"
    and o: "vfs_open (devfs_env env) (Some (47 # name)) flags s = Some (s1, fd)" "0 \<le> fd"
  obtains L1 fl j where "vlive s1 L1" "L1 i = Some k" "L1 fl = Some j" "i \<noteq> fl"
    "open_files s1 = (open_files s)[nat fd := fl]" "fd = first_free 0 (take 64 (open_files s))"
    "fref (file_at s1 fl) = 1" "finode (file_at s1 fl) = i" "iref (inode_at s1 i) = 1"
    "dev_at s1 = dev_at s" "device_list s1 = device_list s" "f_op (file_at s1 fl) = dev_null_fops"
proof -
  let ?e = "devfs_env env"
  have i0: "i \<noteq> NULL"
    using kobj.live_not_null v by fastforce
  note path = devfs_path [OF d f(1,2), unfolded f(3)]
  have ini: "vfs_initialized s"
    using d(1) by (simp add: devfs_mounted_def)
  obtain sa dn where a: "kalloc 272 s = Some (sa, dn)" "dn \<noteq> NULL"
    using o ini path by (auto simp: vfs_open_def vfs_alloc_dentry_def bind_eq_Some_conv split: if_splits)
  obtain m where m: "L dn = None" "vlive sa (L(dn \<mapsto> m))"
    using kobj.alloc_new [OF v(1) _ a] by auto
  obtain h where h: "sa = s\<lparr>kh := h\<rparr>"
    using kalloc_state [OF a(1)] by blast
  let ?D = "(dentry_at s)(dn := null_dentry name i)"
  let ?sb = "s\<lparr>kh := h, dentry_at := ?D\<rparr>"
  have lk: "vfs_lookup ?e (Some (47 # name)) s = Some (?sb, dn)"
    using path a h by (simp add: vfs_alloc_dentry_def upd_dentry_def null_dentry_def)
  obtain sc fl where c: "kalloc 28 ?sb = Some (sc, fl)" "fl \<noteq> NULL"
    using o ini lk i0 a(2) by (auto simp: vfs_open_def alloc_file_def null_dentry_def bind_eq_Some_conv split: if_splits)
  have vb: "vlive ?sb (L(dn \<mapsto> m))"
    using m(2) h by (simp add: vlive_def)
  obtain j where j: "(L(dn \<mapsto> m)) fl = None" "vlive sc (L(dn \<mapsto> m, fl \<mapsto> j))"
    using kobj.alloc_new [OF vb _ c] by auto
  obtain h' where "sc = ?sb\<lparr>kh := h'\<rparr>"
    using kalloc_state [OF c(1)] by blast
  then have h': "sc = s\<lparr>kh := h', dentry_at := ?D\<rparr>"
    by (cases s) simp
  have ne: "i \<noteq> fl" "i \<noteq> dn" "dn \<noteq> fl"
    using v(2) m(1) j(1) by (auto split: if_splits)
  let ?fd = "first_free 0 (take 64 (open_files s))"
  note op = vfs_open_null [OF d f i0 n a(1) [unfolded h] a(2) c(1) [unfolded h'] c(2), of flags]
  note o' = o(1) [unfolded op]
  have "\<not> ?fd < 0"
    using o' o(2) by (auto simp: bind_eq_Some_conv split: if_splits)
  then have r: "fd = ?fd"
    "s1 = s\<lparr>kh := h', dentry_at := ?D, file_at := (file_at s)(fl := \<lparr>fdentry = dn, finode = i,
        f_op = dev_null_fops, fflags = flags, pos = 0, fref = 1, fpriv = ipriv (inode_at s i)\<rparr>),
      inode_at := (inode_at s)(i := (inode_at s i)\<lparr>iref := 1\<rparr>), open_files := (open_files s)[nat ?fd := fl]\<rparr>"
    using o' by auto
  show ?thesis
    by (rule that [of "L(dn \<mapsto> m, fl \<mapsto> j)" fl j])
      (use r h' j(2) v(2) ne in \<open>simp_all add: vlive_def\<close>)
qed

section \<open>Properties\<close>

text \<open>
  The list of devices holds no reference to its inodes: once a device without other users
  has been opened and closed, its inode is freed although the device list still points to it, so
  the next open of the device uses freed storage.
\<close>

theorem device_close_frees_listed_inode:
  assumes "vlive s L" "devfs_mounted s" "device_name name" "fat32_get_fs env = NULL" "source_release env"
    "find_device (dev_at s) name (device_list s) = Some dev" "dev \<noteq> NULL" "dev_inode (dev_at s dev) = i"
    "L i \<noteq> None" "iref (inode_at s i) = 0" "if_op (inode_at s i) = dev_null_fops" "length (open_files s) = 64"
    "vfs_open (devfs_env env) (Some (47 # name)) flags s = Some (s1, fd)" "0 \<le> fd"
  shows "\<exists>s2 L'. vfs_close (devfs_env env) fd s1 = Some (s2, 0) \<and>
    find_device (dev_at s2) name (device_list s2) = Some dev \<and> dev_inode (dev_at s2 dev) = i \<and>
    vlive s2 L' \<and> L' i = None"
proof -
  obtain k where k: "L i = Some k"
    using assms(9) by auto
  obtain L1 fl j where p: "vlive s1 L1" "L1 i = Some k" "L1 fl = Some j" "i \<noteq> fl"
    "open_files s1 = (open_files s)[nat fd := fl]" "fd = first_free 0 (take 64 (open_files s))"
    "fref (file_at s1 fl) = 1" "finode (file_at s1 fl) = i" "iref (inode_at s1 i) = 1"
    "dev_at s1 = dev_at s" "device_list s1 = device_list s" "f_op (file_at s1 fl) = dev_null_fops"
    by (rule open_null [OF assms(1) k assms(2-4,6-8,10,11,13,14)])
  have fd: "fd < 64"
    using p(6) assms(12,14) first_free_less [of 0 "take 64 (open_files s)"] by simp
  let ?s = "s1\<lparr>open_files := (open_files s1)[nat fd := NULL]\<rparr>"
  have i0: "i \<noteq> NULL" "fl \<noteq> NULL"
    using kobj.live_not_null p(1-3) by fastforce+
  have q: "source_release (devfs_env env)" "vlive ?s L1" "fref (file_at ?s fl) = 1"
    "i = NULL \<or> L1 i = Some k \<and> i \<noteq> fl \<and> 0 < iref (inode_at ?s i)" "i = finode (file_at ?s fl)"
    using devfs_env_release assms(5) p by (auto simp: vlive_def)
  have n: "NULL = released (devfs_env env) (file_at ?s fl)" "NULL = NULL \<or> L1 NULL \<noteq> None \<and> NULL \<noteq> fl \<and> NULL \<noteq> i"
    using null_released p(12) by simp_all
  obtain h x where
    h: "file_put (devfs_env env) fl ?s = Some (?s\<lparr>kh := h,
      inode_at := (if i = NULL then inode_at ?s
                   else (inode_at ?s)(i := (inode_at ?s i)\<lparr>iref := iref (inode_at ?s i) - 1\<rparr>)),
      file_at := (file_at ?s)(fl := x)\<rparr>, ())" (is "_ = Some (?t, ())")
    "heap_live h (if i \<noteq> NULL \<and> iref (inode_at ?s i) = 1 then L1(NULL := None, i := None, fl := None) else L1(NULL := None, fl := None))"
    by (rule file_put_last [OF q(1,2) p(3) q(3,5,4) n])
  have "vfs_close (devfs_env env) fd s1 = Some (?t, 0)"
    using fd assms(12,14) p(5) i0 h(1) by (simp add: vfs_close_def VFS_MAX_OPEN_FILES_def Let_def)
  moreover have "find_device (dev_at ?t) name (device_list ?t) = Some dev" "dev_inode (dev_at ?t dev) = i"
    using assms(6,8) p(10,11) by simp_all
  moreover have "vlive ?t (L1(NULL := None, i := None, fl := None))"
    using h(2) i0 p(9) by (simp add: vlive_def)
  moreover have "(L1(NULL := None, i := None, fl := None)) i = None"
    by simp
  ultimately show ?thesis
    by blast
qed

text \<open>A mounted device directory with the null device, whose inode is the live area of the heap.\<close>

definition demo_dev :: vst where
  "demo_dev = demo_vst\<lparr>vfs_initialized := True, root_dentry := 16,
     dentry_at := (\<lambda>_. zero_dentry\<lparr>dinode := 32\<rparr>),
     inode_at := (\<lambda>_. zero_inode\<lparr>i_op := devfs_inode_ops, if_op := dev_null_fops\<rparr>),
     dev_at := (\<lambda>_. \<lparr>dev_name = [110, 117, 108, 108], major = 1, minor = 0, dev_inode = 0xD0000014, dev_next = 0\<rparr>),
     device_list := 48\<rparr>"

theorem device_close_frees_listed_inode_witness:
  "\<exists>s1 s2 L. vfs_open (devfs_env demo_env) (Some [47, 110, 117, 108, 108]) 0 demo_dev = Some (s1, 0) \<and>
     vfs_close (devfs_env demo_env) 0 s1 = Some (s2, 0) \<and> dev_inode (dev_at s2 48) = 0xD0000014 \<and>
     vlive s2 L \<and> L 0xD0000014 = None"
proof -
  let ?n = "[110, 117, 108, 108] :: u8 list" and ?i = "0xD0000014 :: addr"
  let ?b0 = "[(0xD0000000, 124, True), (0xD000007C, 3972, False)] :: blk list"
  let ?b1 = "[(0xD0000000, 124, True), (0xD000007C, 292, True), (0xD00001A0, 3680, False)] :: blk list"
  have e: "request 272 = 292" "request 28 = 52"
    by (simp_all add: request_def)
  have r0: "heap_rel demo_heap4 ?b0"
    using demo_heap3_rel by (simp add: demo_heap4_def heap_rel_payload)
  then have v: "vlive demo_dev [?i \<mapsto> 104]"
    by (auto simp: vlive_def demo_dev_def demo_vst_def heap_live_def live_map_def)
  have al: "alloc_list 292 ?b0 = Some (0xD0000090, ?b1)" "\<exists>bs. alloc_list 52 ?b1 = Some (0xD00001B4, bs)"
    by (simp_all add: fits_def carve_def)
  obtain h where h: "kmalloc 272 demo_heap4 = Some (h, 0xD0000090)" "heap_rel h ?b1"
    using kmalloc_fit [OF r0, of 272 "0xD0000090"] al(1) by (auto simp: e simp del: alloc_list.simps)
  obtain h' where h': "kmalloc 28 h = Some (h', 0xD00001B4)"
    using kmalloc_fit [OF h(2), of 28 "0xD00001B4"] al(2) by (auto simp: e simp del: alloc_list.simps)
  have mt: "devfs_mounted demo_dev" "device_name ?n" "fat32_get_fs demo_env = NULL"
    by (simp_all add: devfs_mounted_def demo_dev_def zero_dentry_def device_name_def VFS_MAX_NAME_def demo_env_def)
  have fd: "find_device (dev_at demo_dev) ?n (device_list demo_dev) = Some 48"
    by (subst find_device.simps) (simp add: demo_dev_def)
  have z: "replicate 64 (0 :: addr) = 0 # replicate 63 0"
    using replicate_Suc [of 63 "0 :: addr"] by simp
  obtain s1 where o: "vfs_open (devfs_env demo_env) (Some (47 # ?n)) 0 demo_dev = Some (s1, 0)"
    using vfs_open_null [OF mt fd, of ?i h "0xD0000090" h' "0xD00001B4" 0] h(1) h'
    by (simp add: kalloc_def demo_dev_def demo_vst_def zero_inode_def z)
  have "source_release demo_env"
    by (simp add: source_release_def demo_env_def)
  then have "\<exists>s2 L'. vfs_close (devfs_env demo_env) 0 s1 = Some (s2, 0) \<and>
      find_device (dev_at s2) ?n (device_list s2) = Some 48 \<and> dev_inode (dev_at s2 48) = ?i \<and> vlive s2 L' \<and> L' ?i = None"
    by (rule device_close_frees_listed_inode [OF v mt _ fd _ _ _ _ _ _ o])
      (simp_all add: demo_dev_def demo_vst_def zero_inode_def)
  with o show ?thesis
    by blast
qed

end
