(* ===== verification/Interrupts.thy ===== *)
theory Interrupts
  imports Prelude
begin

text \<open>
  Segments and interrupts: \<^verbatim>\<open>arch/i386/gdt.c\<close>, \<^verbatim>\<open>tss.c\<close>, \<^verbatim>\<open>idt.c\<close>, \<^verbatim>\<open>pic.c\<close>, \<^verbatim>\<open>irq.c\<close> and
  \<^verbatim>\<open>interrupt_dispatch.c\<close>, and the registration of the system call gate in \<^verbatim>\<open>syscall/syscall.c\<close>.
  Port I/O is a trace of events; what a port returns is the argument \<open>dev\<close>, a function of the trace
  so far.  The effect of an installed handler is the argument \<open>run\<close>, which also says whether the handler
  returns to its caller, and the addresses of the assembly entry points are the arguments \<open>isr\<close> and
  \<open>irq\<close>.
\<close>

section \<open>Segment descriptors\<close>

record gdt_entry =
  limit_low :: u16
  base_low :: u16
  base_middle :: u8
  access :: u8
  granularity :: u8
  base_high :: u8

definition gdt_descriptor :: "u32 \<Rightarrow> u32 \<Rightarrow> u8 \<Rightarrow> u8 \<Rightarrow> gdt_entry" where
  "gdt_descriptor base limit acc gran =
     \<lparr>limit_low = ucast (limit AND 0xFFFF), base_low = ucast (base AND 0xFFFF),
      base_middle = ucast (drop_bit 16 base AND 0xFF), access = acc,
      granularity = ucast (drop_bit 16 limit AND 0x0F) OR (gran AND 0xF0),
      base_high = ucast (drop_bit 24 base AND 0xFF)\<rparr>"

definition gdt_set_gate :: "nat \<Rightarrow> u32 \<Rightarrow> u32 \<Rightarrow> u8 \<Rightarrow> u8 \<Rightarrow> gdt_entry list \<Rightarrow> gdt_entry list" where
  "gdt_set_gate num base limit acc gran g = g[num := gdt_descriptor base limit acc gran]"

definition gdt_update_tss :: "u32 \<Rightarrow> u32 \<Rightarrow> gdt_entry list \<Rightarrow> gdt_entry list" where
  "gdt_update_tss tss_base tss_limit g = gdt_set_gate 5 tss_base tss_limit 0x89 0x40 g"

text \<open>The table, and the pointer that \<^verbatim>\<open>lgdt\<close> loads, for a table at address \<open>a\<close>.\<close>

definition gdt_init :: "addr \<Rightarrow> gdt_entry list \<Rightarrow> gdt_entry list \<times> u16 \<times> u32" where
  "gdt_init a g =
     (let g = gdt_set_gate 0 0 0 0 0 g;
          g = gdt_set_gate 1 0 0xFFFFF 0x9A 0xCF g;
          g = gdt_set_gate 2 0 0xFFFFF 0x92 0xCF g;
          g = gdt_set_gate 3 0 0xFFFFF 0xFA 0xCF g;
          g = gdt_set_gate 4 0 0xFFFFF 0xF2 0xCF g;
          g = gdt_set_gate 5 0 0 0 0 g
      in (g, 8 * 6 - 1, a))"

section \<open>The task state segment\<close>

record tss_entry =
  prev_tss :: u32
  esp0 :: u32
  ss0 :: u32
  esp1 :: u32
  ss1 :: u32
  esp2 :: u32
  ss2 :: u32
  tss_cr3 :: u32
  tss_eip :: u32
  tss_eflags :: u32
  tss_eax :: u32
  tss_ecx :: u32
  tss_edx :: u32
  tss_ebx :: u32
  tss_esp :: u32
  tss_ebp :: u32
  tss_esi :: u32
  tss_edi :: u32
  tss_es :: u32
  tss_cs :: u32
  tss_ss :: u32
  tss_ds :: u32
  tss_fs :: u32
  tss_gs :: u32
  tss_ldt :: u32
  tss_trap :: u16
  iomap_base :: u16

definition zero_tss :: tss_entry where
  "zero_tss = \<lparr>prev_tss = 0, esp0 = 0, ss0 = 0, esp1 = 0, ss1 = 0, esp2 = 0, ss2 = 0, tss_cr3 = 0, tss_eip = 0,
     tss_eflags = 0, tss_eax = 0, tss_ecx = 0, tss_edx = 0, tss_ebx = 0, tss_esp = 0, tss_ebp = 0, tss_esi = 0,
     tss_edi = 0, tss_es = 0, tss_cs = 0, tss_ss = 0, tss_ds = 0, tss_fs = 0, tss_gs = 0, tss_ldt = 0,
     tss_trap = 0, iomap_base = 0\<rparr>"

definition tss_get_size :: u32 where "tss_get_size = 104"

text \<open>The state segment lies at \<open>tss_addr\<close> and the kernel stack of 8192 bytes at \<open>stack\<close>.\<close>

definition tss_init :: "addr \<Rightarrow> addr \<Rightarrow> gdt_entry list \<Rightarrow> gdt_entry list \<times> tss_entry" where
  "tss_init tss_addr stack g =
     (let t = zero_tss\<lparr>ss0 := 0x10, esp0 := stack + 8192\<rparr>;
          t = t\<lparr>tss_cs := 0x08, tss_ss := 0x10, tss_ds := 0x10, tss_es := 0x10, tss_fs := 0x10, tss_gs := 0x10\<rparr>
      in (gdt_update_tss tss_addr (tss_get_size - 1) g, t))"

definition tss_set_kernel_stack :: "u32 \<Rightarrow> tss_entry \<Rightarrow> tss_entry" where
  "tss_set_kernel_stack stack t = t\<lparr>esp0 := stack\<rparr>"

section \<open>Interrupt gates\<close>

record idt_entry =
  offset_low :: u16
  selector :: u16
  izero :: u8
  type_attr :: u8
  offset_high :: u16

type_synonym idt = "u8 \<Rightarrow> idt_entry"

definition IDT_ATTR_INTERRUPT :: u8 where "IDT_ATTR_INTERRUPT = 0x80 OR 0x00 OR 0xE"
definition IDT_ATTR_TRAP :: u8 where "IDT_ATTR_TRAP = 0x80 OR 0x00 OR 0xF"

definition idt_set_gate :: "u8 \<Rightarrow> u32 \<Rightarrow> u16 \<Rightarrow> u8 \<Rightarrow> idt \<Rightarrow> idt" where
  "idt_set_gate num handler sel flags t =
     t(num := \<lparr>offset_low = ucast (handler AND 0xFFFF), selector = sel, izero = 0, type_attr = flags,
               offset_high = ucast (drop_bit 16 handler AND 0xFFFF)\<rparr>)"

text \<open>Vector 3 gets a trap gate and vector 14 privilege level 3; all others the same attributes.\<close>

definition isr_attr :: "nat \<Rightarrow> u8" where
  "isr_attr n = (if n = 3 then IDT_ATTR_TRAP else if n = 14 then 0x80 OR 0x60 OR 0xE else IDT_ATTR_INTERRUPT)"

definition idt_install_isrs :: "(nat \<Rightarrow> u32) \<Rightarrow> idt \<Rightarrow> idt" where
  "idt_install_isrs isr t = fold (\<lambda>n. idt_set_gate (of_nat n) (isr n) 0x08 (isr_attr n)) [0..<32] t"

definition idt_install_irqs :: "(nat \<Rightarrow> u32) \<Rightarrow> idt \<Rightarrow> idt" where
  "idt_install_irqs irq t = fold (\<lambda>n. idt_set_gate (of_nat (32 + n)) (irq n) 0x08 IDT_ATTR_INTERRUPT) [0..<16] t"

definition zero_gate :: idt_entry where
  "zero_gate = \<lparr>offset_low = 0, selector = 0, izero = 0, type_attr = 0, offset_high = 0\<rparr>"

definition idt_init :: "(nat \<Rightarrow> u32) \<Rightarrow> (nat \<Rightarrow> u32) \<Rightarrow> addr \<Rightarrow> idt \<times> u16 \<times> u32" where
  "idt_init isr irq a = (idt_install_irqs irq (idt_install_isrs isr (\<lambda>_. zero_gate)), 8 * 256 - 1, a)"

definition syscall_init :: "u32 \<Rightarrow> idt \<Rightarrow> idt" where
  "syscall_init syscall_handler t = idt_set_gate 0x80 syscall_handler 0x08 0xEE t"

section \<open>The interrupt controllers\<close>

datatype io_event = Out u16 u8 | In u16

type_synonym io_trace = "io_event list"
type_synonym device = "io_trace \<Rightarrow> u16 \<Rightarrow> u8"

definition outb :: "u16 \<Rightarrow> u8 \<Rightarrow> io_trace \<Rightarrow> io_trace" where
  "outb port v t = t @ [Out port v]"

definition inb :: "device \<Rightarrow> u16 \<Rightarrow> io_trace \<Rightarrow> io_trace \<times> u8" where
  "inb dev port t = (t @ [In port], dev t port)"

abbreviation (input) PIC_MASTER_CMD :: u16 where "PIC_MASTER_CMD \<equiv> 0x20"
abbreviation (input) PIC_MASTER_DATA :: u16 where "PIC_MASTER_DATA \<equiv> 0x21"
abbreviation (input) PIC_SLAVE_CMD :: u16 where "PIC_SLAVE_CMD \<equiv> 0xA0"
abbreviation (input) PIC_SLAVE_DATA :: u16 where "PIC_SLAVE_DATA \<equiv> 0xA1"
abbreviation (input) PIC_EOI :: u8 where "PIC_EOI \<equiv> 0x20"

definition io_wait :: "io_trace \<Rightarrow> io_trace" where
  "io_wait t = outb 0x80 0 t"

definition pic_init :: "device \<Rightarrow> u8 \<Rightarrow> u8 \<Rightarrow> io_trace \<Rightarrow> io_trace" where
  "pic_init dev offset1 offset2 t =
     (let (t, mask1) = inb dev PIC_MASTER_DATA t;
          (t, mask2) = inb dev PIC_SLAVE_DATA t;
          t = io_wait (outb PIC_MASTER_CMD 0x11 t);
          t = io_wait (outb PIC_SLAVE_CMD 0x11 t);
          t = io_wait (outb PIC_MASTER_DATA offset1 t);
          t = io_wait (outb PIC_SLAVE_DATA offset2 t);
          t = io_wait (outb PIC_MASTER_DATA 0x04 t);
          t = io_wait (outb PIC_SLAVE_DATA 0x02 t);
          t = io_wait (outb PIC_MASTER_DATA 0x01 t);
          t = io_wait (outb PIC_SLAVE_DATA 0x01 t);
          t = outb PIC_MASTER_DATA mask1 t
      in outb PIC_SLAVE_DATA mask2 t)"

definition pic_send_eoi :: "u8 \<Rightarrow> io_trace \<Rightarrow> io_trace" where
  "pic_send_eoi irq t =
     (let t = (if irq \<ge> 8 then outb PIC_SLAVE_CMD PIC_EOI t else t) in outb PIC_MASTER_CMD PIC_EOI t)"

definition irq_port :: "u8 \<Rightarrow> u16 \<times> u8" where
  "irq_port irq = (if irq < 8 then (PIC_MASTER_DATA, irq) else (PIC_SLAVE_DATA, irq - 8))"

definition pic_mask_irq :: "device \<Rightarrow> u8 \<Rightarrow> io_trace \<Rightarrow> io_trace" where
  "pic_mask_irq dev irq t =
     (let (port, irq) = irq_port irq;
          (t, v) = inb dev port t
      in outb port (v OR ucast (push_bit (unat irq) (1 :: u32))) t)"

definition pic_unmask_irq :: "device \<Rightarrow> u8 \<Rightarrow> io_trace \<Rightarrow> io_trace" where
  "pic_unmask_irq dev irq t =
     (let (port, irq) = irq_port irq;
          (t, v) = inb dev port t
      in outb port (v AND ucast (NOT (push_bit (unat irq) (1 :: u32)))) t)"

definition pic_set_mask :: "u16 \<Rightarrow> io_trace \<Rightarrow> io_trace" where
  "pic_set_mask m t = outb PIC_SLAVE_DATA (ucast (drop_bit 8 m AND 0xFF)) (outb PIC_MASTER_DATA (ucast (m AND 0xFF)) t)"

definition pic_get_mask :: "device \<Rightarrow> io_trace \<Rightarrow> io_trace \<times> u16" where
  "pic_get_mask dev t =
     (let (t, m) = inb dev PIC_MASTER_DATA t;
          (t, s) = inb dev PIC_SLAVE_DATA t
      in (t, ucast m OR push_bit 8 (ucast s)))"

definition pic_disable :: "io_trace \<Rightarrow> io_trace" where
  "pic_disable t = outb PIC_SLAVE_DATA 0xFF (outb PIC_MASTER_DATA 0xFF t)"

text \<open>The order of the two reads in \<^verbatim>\<open>pic_get_irr\<close> is not fixed by C; the slave is read first here.\<close>

definition pic_get_irr :: "device \<Rightarrow> io_trace \<Rightarrow> io_trace \<times> u16" where
  "pic_get_irr dev t =
     (let t = outb PIC_SLAVE_CMD 0x0A (outb PIC_MASTER_CMD 0x0A t);
          (t, s) = inb dev PIC_SLAVE_CMD t;
          (t, m) = inb dev PIC_MASTER_CMD t
      in (t, push_bit 8 (ucast s) OR ucast m))"

definition pic_get_isr :: "device \<Rightarrow> io_trace \<Rightarrow> io_trace \<times> u16" where
  "pic_get_isr dev t =
     (let t = outb PIC_SLAVE_CMD 0x0B (outb PIC_MASTER_CMD 0x0B t);
          (t, master) = inb dev PIC_MASTER_CMD t;
          (t, slave) = inb dev PIC_SLAVE_CMD t
      in (t, push_bit 8 (ucast slave) OR ucast master))"

definition pic_is_spurious :: "device \<Rightarrow> u8 \<Rightarrow> io_trace \<Rightarrow> io_trace \<times> bool" where
  "pic_is_spurious dev irq t =
     (if irq = 7 then let (t, isr) = pic_get_isr dev t in (t, isr AND 0x80 = 0)
      else if irq = 15 then
        let (t, isr) = pic_get_isr dev t
        in if isr AND 0x8000 = 0 then (outb PIC_MASTER_CMD PIC_EOI t, True) else (t, False)
      else (t, False))"

section \<open>Interrupt requests\<close>

record irq_state =
  io :: io_trace
  irq_handlers :: "u8 \<Rightarrow> addr"
  irq_counts :: "u8 \<Rightarrow> u64"
  unhandled_count :: "u8 \<Rightarrow> u32"

definition irq_init :: "device \<Rightarrow> irq_state \<Rightarrow> irq_state" where
  "irq_init dev s = s\<lparr>io := pic_set_mask (0xFFFF AND NOT 4) (pic_init dev 32 40 (io s))\<rparr>"

definition irq_install_handler :: "u8 \<Rightarrow> addr \<Rightarrow> irq_state \<Rightarrow> irq_state \<times> int" where
  "irq_install_handler irq h s =
     (if irq \<ge> 16 then (s, - 1) else (s\<lparr>irq_handlers := (irq_handlers s)(irq := h)\<rparr>, 0))"

definition irq_uninstall_handler :: "u8 \<Rightarrow> irq_state \<Rightarrow> irq_state" where
  "irq_uninstall_handler irq s =
     (if irq \<ge> 16 then s else s\<lparr>irq_handlers := (irq_handlers s)(irq := NULL)\<rparr>)"

definition irq_enable :: "device \<Rightarrow> u8 \<Rightarrow> irq_state \<Rightarrow> irq_state" where
  "irq_enable dev irq s = (if irq \<ge> 16 then s else s\<lparr>io := pic_unmask_irq dev irq (io s)\<rparr>)"

definition irq_disable :: "device \<Rightarrow> u8 \<Rightarrow> irq_state \<Rightarrow> irq_state" where
  "irq_disable dev irq s = (if irq \<ge> 16 then s else s\<lparr>io := pic_mask_irq dev irq (io s)\<rparr>)"

text \<open>
  A handler either returns to its caller or leaves it: the timer handler calls the scheduler, and
  \<^verbatim>\<open>context_switch_asm\<close> jumps to the code where the next process goes on.  The interrupted path is then
  resumed when its own process gets the processor back, if it does.
\<close>

datatype flow = Returns | Leaves

definition irq_handler :: "device \<Rightarrow> (addr \<Rightarrow> irq_state \<Rightarrow> irq_state \<times> flow) \<Rightarrow> u8 \<Rightarrow> irq_state \<Rightarrow> irq_state \<times> flow" where
  "irq_handler dev run irq s =
     (if irq \<ge> 16 then (s, Returns)
      else let s = s\<lparr>irq_counts := (irq_counts s)(irq := irq_counts s irq + 1)\<rparr>;
               (t, spurious) = pic_is_spurious dev irq (io s);
               s = s\<lparr>io := t\<rparr>
           in if spurious then (s, Returns)
              else let (s, fl) = (if irq_handlers s irq \<noteq> NULL then run (irq_handlers s irq) s
                            else (s\<lparr>unhandled_count := (unhandled_count s)(irq := unhandled_count s irq + 1)\<rparr>, Returns))
                   in case fl of Leaves \<Rightarrow> (s, Leaves)
                      | Returns \<Rightarrow> (s\<lparr>io := pic_send_eoi irq (io s)\<rparr>, Returns))"

definition irq_get_count :: "u8 \<Rightarrow> irq_state \<Rightarrow> u64" where
  "irq_get_count irq s = (if irq \<ge> 16 then 0 else irq_counts s irq)"

definition interrupt_handler ::
    "device \<Rightarrow> (addr \<Rightarrow> irq_state \<Rightarrow> irq_state \<times> flow) \<Rightarrow> (u32 \<Rightarrow> irq_state \<Rightarrow> irq_state \<times> flow) \<Rightarrow> u32 \<Rightarrow>
     irq_state \<Rightarrow> irq_state \<times> flow" where
  "interrupt_handler dev run exception_handler int_no s =
     (if int_no < 32 then exception_handler int_no s
      else if int_no \<ge> 32 \<and> int_no < 48 then irq_handler dev run (ucast (int_no - 32)) s
      else (s, Returns))"

section \<open>What the processor reads\<close>

text \<open>The fields of a segment descriptor and of a gate as the processor decodes them.\<close>

definition seg_base :: "gdt_entry \<Rightarrow> u32" where
  "seg_base e = ucast (base_low e) OR push_bit 16 (ucast (base_middle e)) OR push_bit 24 (ucast (base_high e))"

definition seg_limit :: "gdt_entry \<Rightarrow> u32" where
  "seg_limit e = ucast (limit_low e) OR push_bit 16 (ucast (granularity e AND 0x0F))"

definition seg_flags :: "gdt_entry \<Rightarrow> u8" where
  "seg_flags e = granularity e AND 0xF0"

definition gate_offset :: "idt_entry \<Rightarrow> u32" where
  "gate_offset e = ucast (offset_low e) OR push_bit 16 (ucast (offset_high e))"

definition gate_dpl :: "idt_entry \<Rightarrow> u8" where
  "gate_dpl e = drop_bit 5 (type_attr e) AND 3"

definition gate_present :: "idt_entry \<Rightarrow> bool" where
  "gate_present e \<longleftrightarrow> bit (type_attr e) 7"

text \<open>\<^verbatim>\<open>int n\<close> at privilege level 3 is allowed exactly when the gate is present and its level is 3.\<close>

definition user_callable :: "idt \<Rightarrow> u8 \<Rightarrow> bool" where
  "user_callable t n \<longleftrightarrow> gate_present (t n) \<and> gate_dpl (t n) = 3"

text \<open>
  A port access at privilege level 3 with I/O privilege level 0 is allowed when the port's bit in the
  bitmap that starts \<open>iomap_base\<close> bytes into the state segment is clear and the two bytes the
  processor reads there lie within the segment's limit.
\<close>

definition tss_dwords :: "tss_entry \<Rightarrow> u32 list" where
  "tss_dwords t = [prev_tss t, esp0 t, ss0 t, esp1 t, ss1 t, esp2 t, ss2 t, tss_cr3 t, tss_eip t, tss_eflags t,
     tss_eax t, tss_ecx t, tss_edx t, tss_ebx t, tss_esp t, tss_ebp t, tss_esi t, tss_edi t, tss_es t, tss_cs t,
     tss_ss t, tss_ds t, tss_fs t, tss_gs t, tss_ldt t, ucast (tss_trap t) OR push_bit 16 (ucast (iomap_base t))]"

definition tss_byte :: "tss_entry \<Rightarrow> nat \<Rightarrow> u8" where
  "tss_byte t k = ucast (drop_bit (8 * (k mod 4)) (tss_dwords t ! (k div 4)))"

definition user_port_open :: "gdt_entry \<Rightarrow> tss_entry \<Rightarrow> u16 \<Rightarrow> bool" where
  "user_port_open d t port =
     (let k = unat (iomap_base t) + unat port div 8
      in k + 1 \<le> unat (seg_limit d) \<and> \<not> bit (tss_byte t k) (unat port mod 8))"

section \<open>Descriptors and gates encode their fields\<close>

lemma mask_bits:
  "(0xFFFF :: 32 word) = mask 16" "(0xFF :: 32 word) = mask 8" "(0x0F :: 32 word) = mask 4"
  "(0x0F :: 8 word) = mask 4" "(0xF0 :: 8 word) = push_bit 4 (mask 4)"
  by (simp_all add: mask_eq_exp_minus_1)

text \<open>A segment descriptor and an interrupt gate give the processor back what was stored.\<close>

theorem descriptors_roundtrip:
  "seg_base (gdt_descriptor base limit acc gran) = base \<and>
   seg_limit (gdt_descriptor base limit acc gran) = take_bit 20 limit \<and>
   seg_flags (gdt_descriptor base limit acc gran) = gran AND 0xF0 \<and>
   gate_offset (idt_set_gate n h sel fl t n) = h"
proof -
  have "seg_base (gdt_descriptor base limit acc gran) = base"
    unfolding seg_base_def gdt_descriptor_def mask_bits
    by (rule bit_word_eqI, rename_tac n, case_tac "n < 24") (auto simp: bit_simps)
  moreover have "seg_limit (gdt_descriptor base limit acc gran) = take_bit 20 limit"
    unfolding seg_limit_def gdt_descriptor_def mask_bits
    by (rule bit_word_eqI) (auto simp: bit_simps)
  moreover have "seg_flags (gdt_descriptor base limit acc gran) = gran AND 0xF0"
    unfolding seg_flags_def gdt_descriptor_def mask_bits
    by (rule bit_word_eqI) (auto simp: bit_simps)
  moreover have "gate_offset (idt_set_gate n h sel fl t n) = h"
    unfolding gate_offset_def idt_set_gate_def mask_bits
    by (rule bit_word_eqI) (auto simp: bit_simps)
  ultimately show ?thesis by blast
qed

section \<open>The tables after boot\<close>

lemma fold_gates:
  "b + m \<le> 256 \<Longrightarrow>
   fold (\<lambda>k. idt_set_gate (of_nat (b + k)) (h k) sel (f k)) [0..<m] t n =
   (if b \<le> unat n \<and> unat n < b + m then idt_set_gate n (h (unat n - b)) sel (f (unat n - b)) t n else t n)"
proof (induction m)
  case (Suc m)
  have "unat (of_nat (b + m) :: u8) = b + m"
    using Suc.prems by (simp only: unat_of_nat take_bit_nat_eq_self) simp
  then have "n = of_nat (b + m) \<longleftrightarrow> unat n = b + m"
    by (auto simp only: word_unat_eq_iff)
  with Suc show ?case
    by (auto simp: idt_set_gate_def)
qed auto

definition boot_idt :: "(nat \<Rightarrow> u32) \<Rightarrow> (nat \<Rightarrow> u32) \<Rightarrow> u32 \<Rightarrow> idt" where
  "boot_idt isr irq h = syscall_init h (fst (idt_init isr irq 0))"

lemma boot_idt_gate:
  "boot_idt isr irq h n =
     (if n = 0x80 then idt_set_gate n h 0x08 0xEE (\<lambda>_. zero_gate) n
      else if unat n < 32 then idt_set_gate n (isr (unat n)) 0x08 (isr_attr (unat n)) (\<lambda>_. zero_gate) n
      else if unat n < 48 then idt_set_gate n (irq (unat n - 32)) 0x08 IDT_ATTR_INTERRUPT (\<lambda>_. zero_gate) n
      else zero_gate)"
  using fold_gates [of 0 32 isr "0x08" isr_attr "\<lambda>_. zero_gate" n]
    fold_gates [of 32 16 irq "0x08" "\<lambda>_. IDT_ATTR_INTERRUPT"
      "fold (\<lambda>n. idt_set_gate (of_nat n) (isr n) 0x08 (isr_attr n)) [0..<32] (\<lambda>_. zero_gate)" n]
  by (auto simp: boot_idt_def syscall_init_def idt_init_def idt_install_isrs_def idt_install_irqs_def
      idt_set_gate_def simp del: upt_rec_numeral)

text \<open>
  \<^bold>\<open>C20.\<close> After \<^verbatim>\<open>idt_init\<close> and \<^verbatim>\<open>syscall_init\<close> user code can raise exactly two vectors by an
  \<^verbatim>\<open>int\<close> instruction: the system call vector 0x80 and vector 14, the page fault.
\<close>

theorem user_vectors:
  "{n. user_callable (boot_idt isr irq h) n} = {14, 0x80}"
proof -
  have "user_callable (boot_idt isr irq h) n \<longleftrightarrow> n = 14 \<or> n = 0x80" for n
  proof -
    have "unat n = 14 \<longleftrightarrow> n = 14" "unat n = 3 \<longleftrightarrow> n = 3"
      by (auto simp: word_unat_eq_iff)
    then show ?thesis
      by (simp add: user_callable_def gate_present_def gate_dpl_def boot_idt_gate idt_set_gate_def zero_gate_def
          isr_attr_def IDT_ATTR_INTERRUPT_def IDT_ATTR_TRAP_def)
  qed
  then show ?thesis by auto
qed

text \<open>
  \<^bold>\<open>C21.\<close> The state segment that \<^verbatim>\<open>tss_init\<close> builds opens I/O ports to user code: \<^verbatim>\<open>iomap_base\<close> stays 0, so the
  zero fields of the segment serve as the permission bitmap, and every port from 0x60 (keyboard
  controller) to 0x23F (with the ATA ports 0x1F0) is open at privilege level 3, whatever kernel stack is set later.
\<close>

theorem user_ports_open:
  assumes "length g = 6" "0x60 \<le> port" "port < 0x240"
  shows "user_port_open (fst (tss_init a stack g) ! 5) (tss_set_kernel_stack k (snd (tss_init a stack g))) port"
proof -
  let ?t = "tss_set_kernel_stack k (snd (tss_init a stack g))"
  have p: "96 \<le> unat port" "unat port < 576"
    using assms(2,3) by (simp_all add: word_le_nat_alt word_less_nat_alt)
  then have "unat port div 32 \<in> {3..<18}" by auto
  then have z: "tss_dwords ?t ! (unat port div 32) = 0"
    by (auto simp: tss_dwords_def tss_set_kernel_stack_def tss_init_def zero_tss_def Let_def
        atLeastLessThan_nat_numeral dest!: less_SucE)
  have "seg_limit (fst (tss_init a stack g) ! 5) = 103"
    using assms(1) by (simp add: tss_init_def gdt_update_tss_def gdt_set_gate_def seg_limit_def gdt_descriptor_def
        tss_get_size_def Let_def)
  moreover have "iomap_base ?t = 0"
    by (simp add: tss_set_kernel_stack_def tss_init_def zero_tss_def Let_def)
  ultimately show ?thesis
    using p z by (simp add: user_port_open_def tss_byte_def div_mult2_eq [symmetric] Let_def)
qed

theorem user_ports_open_witness:
  "user_port_open (fst (tss_init 0xC0200000 0xC0300000 (replicate 6 (gdt_descriptor 0 0 0 0))) ! 5)
     (tss_set_kernel_stack 0xC0400000 (snd (tss_init 0xC0200000 0xC0300000 (replicate 6 (gdt_descriptor 0 0 0 0))))) 0x64"
  by (rule user_ports_open) simp_all

section \<open>Requests are acknowledged\<close>

text \<open>What the controllers report in service when they are asked in the state \<open>t\<close>.\<close>

definition spurious :: "device \<Rightarrow> u8 \<Rightarrow> io_trace \<Rightarrow> bool" where
  "spurious dev irq t =
     (let t = t @ [Out 0x20 0x0B, Out 0xA0 0x0B]
      in irq = 7 \<and> \<not> bit (dev t 0x20) 7 \<or> irq = 15 \<and> \<not> bit (dev (t @ [In 0x20]) 0xA0) 7)"

definition isr_query :: io_trace where
  "isr_query = [Out 0x20 0x0B, Out 0xA0 0x0B, In 0x20, In 0xA0]"

lemma isr_bits:
  "(push_bit 8 (ucast (s :: u8)) OR ucast (m :: u8) :: u16) AND 0x80 = 0 \<longleftrightarrow> \<not> bit m 7"
  "(push_bit 8 (ucast (s :: u8)) OR ucast (m :: u8) :: u16) AND 0x8000 = 0 \<longleftrightarrow> \<not> bit s 7"
proof -
  have *: "w AND push_bit n 1 = 0 \<longleftrightarrow> \<not> bit w n" if "n < 16" for w :: u16 and n
    using that by (auto simp: bit_eq_iff [of "_ AND _"] bit_simps)
  have p: "push_bit 7 1 = (0x80 :: u16)" "push_bit 15 1 = (0x8000 :: u16)"
    by (simp_all add: push_bit_eq_mult)
  show "(push_bit 8 (ucast s) OR ucast m :: u16) AND 0x80 = 0 \<longleftrightarrow> \<not> bit m 7"
    using * [of 7 "push_bit 8 (ucast s) OR ucast m"] by (simp add: bit_simps p)
  show "(push_bit 8 (ucast s) OR ucast m :: u16) AND 0x8000 = 0 \<longleftrightarrow> \<not> bit s 7"
    using * [of 15 "push_bit 8 (ucast s) OR ucast m"] bit_imp_le_length [of m 15] by (auto simp: bit_simps p)
qed

lemma pic_is_spurious_eq:
  "pic_is_spurious dev irq t =
     (t @ (if irq = 7 \<or> irq = 15 then isr_query else []) @
        (if irq = 15 \<and> spurious dev irq t then [Out 0x20 0x20] else []), spurious dev irq t)"
  by (simp add: pic_is_spurious_def pic_get_isr_def spurious_def isr_query_def outb_def inb_def Let_def isr_bits)

text \<open>
  \<^bold>\<open>C22.\<close> A hardware interrupt is counted.  If the controllers report it spurious, no handler runs and
  the only acknowledgement is the one to the master for line 15.  Otherwise the handler runs, or the
  unhandled count goes up when there is none, and exactly when the handler returns the end of interrupt is
  sent: last of all to the master, and to the slave just before when the line is one of the slave's.
  When the handler leaves by switching to another process, nothing is sent on that path: a process that
  the timer interrupt starts for the first time runs while line 0 is still in service.
\<close>

theorem irq_acknowledged:
  assumes "irq < 16"
  shows "irq_handler dev run irq s =
    (let n = s\<lparr>irq_counts := (irq_counts s)(irq := irq_counts s irq + 1),
               io := io s @ (if irq = 7 \<or> irq = 15 then isr_query else [])\<rparr>;
         h = irq_handlers s irq;
         (d, fl) = (if h \<noteq> NULL then run h n
              else (n\<lparr>unhandled_count := (unhandled_count s)(irq := unhandled_count s irq + 1)\<rparr>, Returns))
     in if spurious dev irq (io s) then (n\<lparr>io := io n @ (if irq = 15 then [Out 0x20 0x20] else [])\<rparr>, Returns)
        else if fl = Returns
        then (d\<lparr>io := io d @ (if irq \<ge> 8 then [Out 0xA0 0x20, Out 0x20 0x20] else [Out 0x20 0x20])\<rparr>, Returns)
        else (d, Leaves))"
proof -
  have "spurious dev irq t \<Longrightarrow> irq = 7 \<or> irq = 15" for t
    by (auto simp: spurious_def Let_def)
  with assms show ?thesis
    by (auto simp: irq_handler_def pic_is_spurious_eq pic_send_eoi_def outb_def Let_def not_le split: flow.splits prod.splits)
qed

definition demo_irq :: irq_state where
  "demo_irq = \<lparr>io = [], irq_handlers = \<lambda>_. 0x1000, irq_counts = \<lambda>_. 0, unhandled_count = \<lambda>_. 0\<rparr>"

theorem irq_acknowledged_witness:
  "io (fst (irq_handler (\<lambda>_ _. 0) (\<lambda>_ s. (s, Returns)) 9 demo_irq)) = [Out 0xA0 0x20, Out 0x20 0x20] \<and>
   irq_handler (\<lambda>_ _. 0) (\<lambda>_ s. (s, Leaves)) 0 demo_irq = (demo_irq\<lparr>irq_counts := (\<lambda>_. 0)(0 := 1)\<rparr>, Leaves)"
  using irq_acknowledged [of 9 "\<lambda>_ _. 0" "\<lambda>_ s. (s, Returns)" demo_irq]
    irq_acknowledged [of 0 "\<lambda>_ _. 0" "\<lambda>_ s. (s, Leaves)" demo_irq]
  by (simp add: demo_irq_def spurious_def Let_def)

text \<open>
  Masking or unmasking line \<open>irq\<close> writes back the byte read from the mask register of the line's
  own controller with only the line's bit changed.
\<close>

theorem mask_changes_one_line:
  assumes "irq < 16"
  defines "port \<equiv> if irq < 8 then 0x21 else 0xA1"
  shows "\<exists>v w. pic_mask_irq dev irq t = t @ [In port, Out port v] \<and>
               pic_unmask_irq dev irq t = t @ [In port, Out port w] \<and>
               (\<forall>i < 8. bit v i = (i = unat irq mod 8 \<or> bit (dev t port) i) \<and>
                        bit w i = (i \<noteq> unat irq mod 8 \<and> bit (dev t port) i))"
proof -
  define k where "k = unat irq mod 8"
  have k: "k < 8" "unat (snd (irq_port irq)) = k" "fst (irq_port irq) = port"
    using assms(1) by (auto simp: k_def irq_port_def port_def word_less_nat_alt unat_sub word_le_nat_alt not_less
        le_mod_geq)
  define v :: u8 where "v = dev t port OR ucast (push_bit k (1 :: u32))"
  define w :: u8 where "w = dev t port AND ucast (NOT (push_bit k (1 :: u32)))"
  have "pic_mask_irq dev irq t = t @ [In port, Out port v]" "pic_unmask_irq dev irq t = t @ [In port, Out port w]"
    using k by (simp_all add: pic_mask_irq_def pic_unmask_irq_def inb_def outb_def v_def w_def Let_def split_beta)
  moreover have "bit v i = (i = k \<or> bit (dev t port) i) \<and> bit w i = (i \<noteq> k \<and> bit (dev t port) i)" if "i < 8" for i
    using that k(1) by (auto simp: v_def w_def bit_simps)
  ultimately show ?thesis unfolding k_def by blast
qed

theorem mask_changes_one_line_witness:
  "pic_mask_irq (\<lambda>_ _. 0) 12 [] = [In 0xA1, Out 0xA1 0x10] \<and>
   (\<exists>v w. pic_mask_irq (\<lambda>_ _. 0) 12 [] = [In 0xA1, Out 0xA1 v] \<and> (\<forall>i < 8. bit v i = (i = 4)))"
  using mask_changes_one_line [of 12 "\<lambda>_ _. 0" "[]"]
  by (auto simp: pic_mask_irq_def irq_port_def inb_def outb_def)

end
