(* ===== verification/Syscall.thy ===== *)
theory Syscall
  imports Interrupts
begin

text \<open>
  System calls: the table of \<^verbatim>\<open>syscall/syscall_table.c\<close>, the dispatcher of \<^verbatim>\<open>syscall/syscall.c\<close> and the entry
  code of \<^verbatim>\<open>syscall/syscall_entry.asm\<close>.  What each call does is the argument \<open>func\<close>, over a kernel state
  of any type.
\<close>

datatype syscall =
    Sys_exit | Sys_fork | Sys_read | Sys_write | Sys_open | Sys_close | Sys_waitpid | Sys_creat | Sys_unlink
  | Sys_execve | Sys_chdir | Sys_time | Sys_lseek | Sys_getpid | Sys_pause | Sys_nice | Sys_kill
  | Sys_gettimeofday | Sys_select | Sys_mkdir | Sys_getpriority | Sys_setpriority | Sys_rmdir | Sys_dup
  | Sys_pipe | Sys_brk | Sys_signal | Sys_ioctl | Sys_fcntl | Sys_dup2 | Sys_getppid | Sys_sigaction
  | Sys_mmap | Sys_munmap | Sys_ftruncate | Sys_stat | Sys_lstat | Sys_fstat | Sys_sigprocmask
  | Sys_sched_setscheduler | Sys_sched_getscheduler | Sys_sched_yield | Sys_nanosleep | Sys_poll
  | Sys_shm_open | Sys_shm_unlink

definition MAX_SYSCALLS :: u32 where "MAX_SYSCALLS = 512"

definition syscall_entries :: "(u32 \<times> syscall) list" where
  "syscall_entries =
    [(1, Sys_exit), (2, Sys_fork), (3, Sys_read), (4, Sys_write), (5, Sys_open), (6, Sys_close),
     (7, Sys_waitpid), (8, Sys_creat), (10, Sys_unlink), (11, Sys_execve), (12, Sys_chdir), (13, Sys_time),
     (19, Sys_lseek), (20, Sys_getpid), (29, Sys_pause), (34, Sys_nice), (37, Sys_kill),
     (78, Sys_gettimeofday), (82, Sys_select), (39, Sys_mkdir), (96, Sys_getpriority),
     (97, Sys_setpriority), (40, Sys_rmdir), (41, Sys_dup), (42, Sys_pipe), (45, Sys_brk), (48, Sys_signal),
     (54, Sys_ioctl), (55, Sys_fcntl), (63, Sys_dup2), (64, Sys_getppid), (67, Sys_sigaction),
     (90, Sys_mmap), (91, Sys_munmap), (93, Sys_ftruncate), (106, Sys_stat), (107, Sys_lstat),
     (108, Sys_fstat), (126, Sys_sigprocmask), (156, Sys_sched_setscheduler),
     (157, Sys_sched_getscheduler), (158, Sys_sched_yield), (162, Sys_nanosleep), (168, Sys_poll),
     (305, Sys_shm_open), (306, Sys_shm_unlink)]"

definition syscall_table :: "u32 \<Rightarrow> syscall option" where
  "syscall_table = map_of syscall_entries"

text \<open>The registers as the entry code leaves them on the kernel stack, lowest address first.\<close>

record syscall_frame =
  f_gs :: u32
  f_fs :: u32
  f_es :: u32
  f_ds :: u32
  f_edi :: u32
  f_esi :: u32
  f_ebp :: u32
  f_esp_dummy :: u32
  f_ebx :: u32
  f_edx :: u32
  f_ecx :: u32
  f_eax :: u32

type_synonym 's syscall_func = "syscall \<Rightarrow> u32 list \<Rightarrow> 's \<Rightarrow> 's \<times> int"

definition syscall_dispatch ::
    "'s syscall_func \<Rightarrow> syscall_frame option \<Rightarrow> 's \<Rightarrow> 's \<times> syscall_frame option \<times> int" where
  "syscall_dispatch func frame s =
     (case frame of None \<Rightarrow> (s, None, - 22)
      | Some fr \<Rightarrow>
          if f_eax fr \<ge> MAX_SYSCALLS then (s, Some fr, - 38)
          else case syscall_table (f_eax fr) of None \<Rightarrow> (s, Some fr, - 38)
               | Some c \<Rightarrow>
                   let (s', ret) = func c [f_ebx fr, f_ecx fr, f_edx fr, f_esi fr, f_edi fr, f_ebp fr] s
                   in (s', Some (fr\<lparr>f_eax := word_of_int ret\<rparr>), ret))"

text \<open>The registers of user code across \<^verbatim>\<open>int 0x80\<close>: \<^verbatim>\<open>pushad\<close>, four segment registers, and back.\<close>

record user_regs =
  eax :: u32
  ebx :: u32
  ecx :: u32
  edx :: u32
  esi :: u32
  edi :: u32
  ebp :: u32
  segs :: "u32 \<times> u32 \<times> u32 \<times> u32"

text \<open>
  The pushes of the stub and the structure that C reads are matched by the names of the registers; that
  their order on the stack agrees with the order of the fields is not part of the model.
\<close>

definition push_frame :: "u32 \<Rightarrow> user_regs \<Rightarrow> syscall_frame" where
  "push_frame esp r = (case segs r of (ds, es, fs, gs) \<Rightarrow>
     \<lparr>f_gs = gs, f_fs = fs, f_es = es, f_ds = ds, f_edi = edi r, f_esi = esi r, f_ebp = ebp r, f_esp_dummy = esp,
      f_ebx = ebx r, f_edx = edx r, f_ecx = ecx r, f_eax = eax r\<rparr>)"

definition pop_frame :: "syscall_frame \<Rightarrow> user_regs" where
  "pop_frame fr = \<lparr>eax = f_eax fr, ebx = f_ebx fr, ecx = f_ecx fr, edx = f_edx fr, esi = f_esi fr, edi = f_edi fr,
     ebp = f_ebp fr, segs = (f_ds fr, f_es fr, f_fs fr, f_gs fr)\<rparr>"

definition syscall_handler :: "'s syscall_func \<Rightarrow> u32 \<Rightarrow> user_regs \<Rightarrow> 's \<Rightarrow> 's \<times> user_regs" where
  "syscall_handler func esp r s =
     (case syscall_dispatch func (Some (push_frame esp r)) s of (s', fr, _) \<Rightarrow> (s', pop_frame (the fr)))"

lemma pop_push_frame [simp]: "pop_frame (push_frame esp r) = r"
  by (cases "segs r") (simp add: pop_frame_def push_frame_def)

lemma pop_frame_eax [simp]: "pop_frame (fr\<lparr>f_eax := v\<rparr>) = (pop_frame fr)\<lparr>eax := v\<rparr>"
  by (simp add: pop_frame_def)

lemma push_frame_args [simp]:
  "f_eax (push_frame esp r) = eax r" "f_ebx (push_frame esp r) = ebx r" "f_ecx (push_frame esp r) = ecx r"
  "f_edx (push_frame esp r) = edx r" "f_esi (push_frame esp r) = esi r" "f_edi (push_frame esp r) = edi r"
  "f_ebp (push_frame esp r) = ebp r"
  by (cases "segs r"; simp add: push_frame_def)+

lemma syscall_table_small: "syscall_table n = Some c \<Longrightarrow> n < MAX_SYSCALLS"
  unfolding syscall_table_def syscall_entries_def MAX_SYSCALLS_def
  by (auto split: if_splits)


lemma syscall_table_distinct: "distinct (map fst syscall_entries)" "distinct (map snd syscall_entries)"
  by (simp_all add: syscall_entries_def)

lemma syscall_table_entry: "(n, c) \<in> set syscall_entries \<longleftrightarrow> syscall_table n = Some c"
  unfolding syscall_table_def by (rule map_of_eq_Some_iff [OF syscall_table_distinct(1), symmetric])

text \<open>
  Every system call of the table has exactly one number, and the number is below the bound that
  the dispatcher checks: each call is reachable and no two numbers share one.
\<close>

theorem syscall_numbers:
  "\<exists>!n. n < MAX_SYSCALLS \<and> syscall_table n = Some c"
proof -
  have "c \<in> snd ` set syscall_entries"
    by (cases c) (simp_all add: syscall_entries_def)
  then obtain n where n: "(n, c) \<in> set syscall_entries" by auto
  then have "syscall_table n = Some c" by (simp add: syscall_table_entry)
  moreover have "m = n" if "syscall_table m = Some c" for m
    using syscall_table_distinct(2) that n inj_onD [of snd "set syscall_entries" "(m, c)" "(n, c)"]
    by (simp add: distinct_map syscall_table_entry)
  ultimately show ?thesis
    using syscall_table_small by blast
qed

end
