(* ===== verification/Kmap.thy ===== *)
theory Kmap
  imports Vmm
begin

text \<open>
  Temporary kernel mappings, \<^verbatim>\<open>mm/kmap.c\<close>, and the operations of \<^verbatim>\<open>mm/vmm.c\<close> on a page directory that
  is not the current one.  \<^verbatim>\<open>kmap\<close> hands out one of 1024 pages at \<^verbatim>\<open>KMAP_BASE\<close>; \<open>kmap_inv\<close> says that
  each slot in use is mapped to the frame it records and that no frame has two slots.  The spin lock around the slot
  table is not modelled: the operations are atomic.
\<close>

section \<open>Slots\<close>

definition KMAP_BASE :: u32 where "KMAP_BASE = 0xF0000000"
definition KMAP_PAGES :: nat where "KMAP_PAGES = 1024"
definition KMAP_SIZE :: u32 where "KMAP_SIZE = of_nat KMAP_PAGES * 4096"

record kmap_slot =
  phys_addr :: u32
  ref_count :: u32

record kmap_state =
  kmap_slots :: "kmap_slot list"
  kmap_initialized :: bool

definition kmap_init :: "kmap_state \<Rightarrow> kmap_state" where
  "kmap_init k =
     (if kmap_initialized k then k
      else \<lparr>kmap_slots = replicate KMAP_PAGES \<lparr>phys_addr = 0, ref_count = 0\<rparr>, kmap_initialized = True\<rparr>)"

text \<open>The loops that look for the first slot with a property.\<close>

fun find_slot :: "(kmap_slot \<Rightarrow> bool) \<Rightarrow> kmap_slot list \<Rightarrow> nat option" where
  "find_slot P [] = None"
| "find_slot P (x # xs) = (if P x then Some 0 else map_option Suc (find_slot P xs))"

definition set_slot :: "nat \<Rightarrow> kmap_slot \<Rightarrow> kmap_state \<Rightarrow> kmap_state" where
  "set_slot i x k = k\<lparr>kmap_slots := (kmap_slots k)[i := x]\<rparr>"

definition kmap :: "u32 \<Rightarrow> kmap_state \<Rightarrow> vm \<Rightarrow> (kmap_state \<times> vm \<times> addr) option" where
  "kmap paddr k m =
     (let k = kmap_init k;
          page_addr = paddr AND NOT 0xFFF
      in if page_addr < 0x400000 then Some (k, m, paddr + 0xC0000000)
         else let paddr = page_addr in
           case find_slot (\<lambda>s. phys_addr s = paddr \<and> ref_count s > 0) (kmap_slots k) of
             Some i \<Rightarrow>
               let s = kmap_slots k ! i
               in Some (set_slot i (s\<lparr>ref_count := ref_count s + 1\<rparr>) k, m, KMAP_BASE + of_nat i * 4096)
           | None \<Rightarrow>
               (case find_slot (\<lambda>s. ref_count s = 0) (kmap_slots k) of
                  Some i \<Rightarrow>
                    let k = set_slot i \<lparr>phys_addr = paddr, ref_count = 1\<rparr> k;
                        vaddr = KMAP_BASE + of_nat i * 4096
                    in do { m \<leftarrow> vmm_map_page vaddr paddr 0x03 m; Some (k, m, vaddr) }
                | None \<Rightarrow> Some (k, m, NULL)))"

definition kunmap :: "addr \<Rightarrow> kmap_state \<Rightarrow> vm \<Rightarrow> (kmap_state \<times> vm) option" where
  "kunmap vaddr k m =
     (if \<not> kmap_initialized k then Some (k, m)
      else if vaddr < KMAP_BASE \<or> vaddr \<ge> KMAP_BASE + KMAP_SIZE then Some (k, m)
      else let index = unat ((vaddr - KMAP_BASE) div 4096); s = kmap_slots k ! index
           in if index < KMAP_PAGES \<and> ref_count s > 0 then
                let s = s\<lparr>ref_count := ref_count s - 1\<rparr>
                in if ref_count s = 0 then do {
                     m \<leftarrow> vmm_unmap_page (KMAP_BASE + of_nat index * 4096) m;
                     Some (set_slot index (s\<lparr>phys_addr := 0\<rparr>) k, m)
                   } else Some (set_slot index s k, m)
              else Some (k, m))"

section \<open>Other page directories\<close>

text \<open>
  A page directory is given by its structure, \<open>None\<close> for a null pointer.  \<^verbatim>\<open>memset\<close> on the new page table
  stores words through the pointer of \<^verbatim>\<open>kmap\<close>.
\<close>

definition vmm_map_page_in_directory ::
    "page_directory option \<Rightarrow> u32 \<Rightarrow> u32 \<Rightarrow> u32 \<Rightarrow> kmap_state \<Rightarrow> vm \<Rightarrow> (kmap_state \<times> vm) option" where
  "vmm_map_page_in_directory pd virt phys flags k m =
     (case pd of None \<Rightarrow> Some (k, m)
      | Some pd \<Rightarrow> do {
          let pd_index = PD_INDEX virt;
          let pt_index = PT_INDEX virt;
          (k, m, page_directory) \<leftarrow> kmap (physical_addr pd) k m;
          if page_directory = NULL then Some (k, m)
          else do {
            pde \<leftarrow> rd32 m (page_directory + 4 * pd_index);
            (k, m, ok) \<leftarrow>
              (if \<not> pte_is_present pde then
                 (case pmm_alloc_frame (vm_pmm m) of
                    (pm, pt_phys) \<Rightarrow>
                      let m = m\<lparr>vm_pmm := pm\<rparr> in
                      if pt_phys = 0 then do {
                        (k, m) \<leftarrow> kunmap page_directory k m;
                        Some (k, m, False)
                      } else do {
                        (k, m, pt_temp) \<leftarrow> kmap pt_phys k m;
                        (k, m) \<leftarrow> (if pt_temp \<noteq> NULL then do {
                                     m \<leftarrow> zero_words 1024 pt_temp m;
                                     kunmap pt_temp k m
                                   } else Some (k, m));
                        m \<leftarrow> wr32 m (page_directory + 4 * pd_index)
                               (pde_create pt_phys (PAGE_PRESENT OR PAGE_WRITE OR PAGE_USER));
                        Some (k, m, True)
                      })
               else Some (k, m, True));
            if \<not> ok then Some (k, m)
            else do {
              pde \<leftarrow> rd32 m (page_directory + 4 * pd_index);
              let pt_phys = pde_get_addr pde;
              (k, m, page_table) \<leftarrow> kmap pt_phys k m;
              if page_table = NULL then kunmap page_directory k m
              else do {
                m \<leftarrow> wr32 m (page_table + 4 * pt_index) (pte_create phys flags);
                (k, m) \<leftarrow> kunmap page_table k m;
                kunmap page_directory k m
              }
            }
          }
        })"

definition vmm_virt_to_phys_in_directory :: "page_directory option \<Rightarrow> u32 \<Rightarrow> vm \<Rightarrow> u32 option" where
  "vmm_virt_to_phys_in_directory pd virt m =
     (case pd of None \<Rightarrow> Some 0
      | Some pd \<Rightarrow> do {
          let pd_index = PD_INDEX virt;
          let pt_index = PT_INDEX virt;
          let offset = PAGE_OFFSET virt;
          let page_directory = physical_addr pd + 0xC0000000;
          pde \<leftarrow> rd32 m (page_directory + 4 * pd_index);
          if \<not> pte_is_present pde then Some 0
          else do {
            let page_table = pde_get_addr pde + 0xC0000000;
            pte \<leftarrow> rd32 m (page_table + 4 * pt_index);
            if \<not> pte_is_present pte then Some 0 else Some (pte_get_addr pte + offset)
          }
        })"

section \<open>Invariant\<close>

definition kmap_addr :: "nat \<Rightarrow> u32" where
  "kmap_addr i = KMAP_BASE + of_nat i * 4096"

definition live_slot :: "kmap_state \<Rightarrow> nat \<Rightarrow> bool" where
  "live_slot k i \<longleftrightarrow> i < KMAP_PAGES \<and> 0 < ref_count (kmap_slots k ! i)"

definition kmap_inv :: "kmap_state \<Rightarrow> vm \<Rightarrow> bool" where
  "kmap_inv k m \<longleftrightarrow> (kmap_initialized k \<longrightarrow> length (kmap_slots k) = KMAP_PAGES \<and>
     (\<forall>i. live_slot k i \<longrightarrow> page_base (phys_addr (kmap_slots k ! i)) \<and>
        mmu_walk m (kmap_addr i) = Some (phys_addr (kmap_slots k ! i))) \<and>
     (\<forall>i j. live_slot k i \<and> live_slot k j \<and> phys_addr (kmap_slots k ! i) = phys_addr (kmap_slots k ! j) \<longrightarrow> i = j))"

text \<open>The direct map of the first four megabytes.\<close>

definition direct_map :: "vm \<Rightarrow> bool" where
  "direct_map m \<longleftrightarrow> (\<forall>a. a < 0x400000 \<longrightarrow> mmu_walk m (a + 0xC0000000) = Some a)"

text \<open>Addresses outside the pages that \<^verbatim>\<open>kmap\<close> hands out and the recursive window.\<close>

definition outside_kmap :: "u32 \<Rightarrow> bool" where
  "outside_kmap w \<longleftrightarrow> PD_INDEX w \<noteq> 960 \<and> PD_INDEX w \<noteq> 1023"

lemma unat_kmap_addr: "i < KMAP_PAGES \<Longrightarrow> unat (kmap_addr i) = 0xF0000000 + i * 4096"
proof -
  assume i: "i < KMAP_PAGES"
  have "unat (of_nat i * 4096 :: u32) = i * 4096"
    using i by (simp add: unat_word_ariths unat_of_nat take_bit_nat_eq_self KMAP_PAGES_def)
  then show ?thesis
    using i by (simp add: kmap_addr_def KMAP_BASE_def unat_word_ariths KMAP_PAGES_def)
qed

lemma kmap_addr_facts:
  assumes "i < KMAP_PAGES"
  shows "PD_INDEX (kmap_addr i) = 960" "PD_INDEX (kmap_addr i) \<noteq> 1023" "PAGE_OFFSET (kmap_addr i) = 0"
    "kmap_addr i \<noteq> 0"
  using assms unat_kmap_addr [OF assms]
  by (auto simp: unat_inj index_nat KMAP_PAGES_def)

lemma kmap_addr_page:
  "i < KMAP_PAGES \<Longrightarrow> j < KMAP_PAGES \<Longrightarrow> unat (kmap_addr i) div 4096 = unat (kmap_addr j) div 4096 \<longleftrightarrow> i = j"
  by (auto simp: unat_kmap_addr KMAP_PAGES_def)

lemma find_slot_Some: "find_slot P xs = Some i \<Longrightarrow> i < length xs \<and> P (xs ! i)"
  by (induction xs arbitrary: i) (auto split: if_splits)

lemma find_slot_None: "find_slot P xs = None \<longleftrightarrow> (\<forall>i < length xs. \<not> P (xs ! i))"
  by (induction xs) (auto simp: nth_Cons split: nat.split)

lemma page_mask: "(a :: u32) AND - 4096 = a AND 0xFFFFF000"
proof -
  have "- 4096 = (0xFFFFF000 :: u32)" by simp
  then show ?thesis by (simp only:)
qed

lemma low_page: "(a :: u32) AND 0xFFFFF000 < 0x400000 \<longleftrightarrow> a < 0x400000"
  by (auto simp: word_less_nat_alt and_numeral_page_mask)

lemma kmap_init_inv:
  "kmap_inv k m \<Longrightarrow> kmap_inv (kmap_init k) m" "kmap_initialized (kmap_init k)"
  by (auto simp: kmap_inv_def kmap_init_def live_slot_def)

lemma kmap_invD:
  assumes "kmap_inv k m" "kmap_initialized k"
  shows "length (kmap_slots k) = KMAP_PAGES"
    "live_slot k i \<Longrightarrow> page_base (phys_addr (kmap_slots k ! i))"
    "live_slot k i \<Longrightarrow> mmu_walk m (kmap_addr i) = Some (phys_addr (kmap_slots k ! i))"
    "live_slot k i \<Longrightarrow> live_slot k j \<Longrightarrow> phys_addr (kmap_slots k ! i) = phys_addr (kmap_slots k ! j) \<Longrightarrow> i = j"
  using assms by (auto simp: kmap_inv_def)

lemma set_slot_simps [simp]:
  "kmap_initialized (set_slot i x k) = kmap_initialized k"
  "length (kmap_slots (set_slot i x k)) = length (kmap_slots k)"
  "i < length (kmap_slots k) \<Longrightarrow> kmap_slots (set_slot i x k) ! j = (if j = i then x else kmap_slots k ! j)"
  by (auto simp: set_slot_def nth_list_update)

text \<open>Changing one slot keeps the invariant when the new contents and the other pages are right.\<close>

lemma kmap_inv_set_slot:
  assumes inv: "kmap_inv k m" "kmap_initialized k" and i: "i < KMAP_PAGES"
    and x: "0 < ref_count x \<Longrightarrow> page_base (phys_addr x) \<and> mmu_walk m' (kmap_addr i) = Some (phys_addr x)"
    and new: "0 < ref_count x \<Longrightarrow> (\<And>j. live_slot k j \<Longrightarrow> j \<noteq> i \<Longrightarrow> phys_addr (kmap_slots k ! j) \<noteq> phys_addr x)"
    and other: "\<And>j. live_slot k j \<Longrightarrow> j \<noteq> i \<Longrightarrow> mmu_walk m' (kmap_addr j) = mmu_walk m (kmap_addr j)"
  shows "kmap_inv (set_slot i x k) m'"
proof -
  note D = kmap_invD [OF inv]
  have live: "live_slot (set_slot i x k) j \<longleftrightarrow> (if j = i then 0 < ref_count x else live_slot k j)" for j
    using i D(1) by (simp add: live_slot_def)
  have at: "kmap_slots (set_slot i x k) ! j = (if j = i then x else kmap_slots k ! j)" for j
    using i D(1) by simp
  have "page_base (phys_addr (kmap_slots (set_slot i x k) ! j)) \<and>
      mmu_walk m' (kmap_addr j) = Some (phys_addr (kmap_slots (set_slot i x k) ! j))"
    if "live_slot (set_slot i x k) j" for j
    using that x D(2,3) [of j] other [of j] by (cases "j = i") (simp_all add: live at)
  moreover have "a = b" if "live_slot (set_slot i x k) a" "live_slot (set_slot i x k) b"
    "phys_addr (kmap_slots (set_slot i x k) ! a) = phys_addr (kmap_slots (set_slot i x k) ! b)" for a b
    using that new [of a] new [of b] D(4) [of a b] by (cases "a = i"; cases "b = i") (auto simp: live at)
  ultimately show ?thesis
    using D(1) unfolding kmap_inv_def by (simp only: set_slot_simps) blast
qed

lemma direct_map_cong:
  assumes "direct_map m" "\<And>w. outside_kmap w \<Longrightarrow> mmu_walk m' w = mmu_walk m w"
  shows "direct_map m'"
proof -
  have "outside_kmap (a + 0xC0000000)" if "a < 0x400000" for a
    using that by (auto simp: outside_kmap_def unat_inj unat_PD_INDEX word_less_nat_alt unat_word_ariths)
  then show ?thesis
    using assms by (simp add: direct_map_def)
qed

lemma kmap_cases:
  assumes "kmap paddr k m = Some (k', m', v)"
  obtains (low) "paddr < 0x400000" "k' = kmap_init k" "m' = m" "v = paddr + 0xC0000000"
    | (shared) i where "\<not> paddr < 0x400000" "i < length (kmap_slots (kmap_init k))" "m' = m" "v = kmap_addr i"
        "phys_addr (kmap_slots (kmap_init k) ! i) = paddr AND 0xFFFFF000" "0 < ref_count (kmap_slots (kmap_init k) ! i)"
        "k' = set_slot i ((kmap_slots (kmap_init k) ! i)\<lparr>ref_count := ref_count (kmap_slots (kmap_init k) ! i) + 1\<rparr>) (kmap_init k)"
    | (fresh) i where "\<not> paddr < 0x400000" "i < length (kmap_slots (kmap_init k))" "v = kmap_addr i"
        "\<And>j. j < length (kmap_slots (kmap_init k)) \<Longrightarrow> 0 < ref_count (kmap_slots (kmap_init k) ! j) \<Longrightarrow>
           phys_addr (kmap_slots (kmap_init k) ! j) \<noteq> paddr AND 0xFFFFF000"
        "vmm_map_page (kmap_addr i) (paddr AND 0xFFFFF000) 3 m = Some m'"
        "k' = set_slot i \<lparr>phys_addr = paddr AND 0xFFFFF000, ref_count = 1\<rparr> (kmap_init k)"
    | (full) "\<not> paddr < 0x400000" "k' = kmap_init k" "m' = m" "v = NULL"
        "\<And>j. j < length (kmap_slots (kmap_init k)) \<Longrightarrow> 0 < ref_count (kmap_slots (kmap_init k) ! j)"
proof (cases "paddr < 0x400000")
  case True
  then show thesis
    using assms low by (simp add: kmap_def page_mask low_page Let_def)
next
  case False
  let ?k = "kmap_init k" and ?p = "paddr AND 0xFFFFF000"
  show thesis
  proof (cases "find_slot (\<lambda>s. phys_addr s = ?p \<and> ref_count s > 0) (kmap_slots ?k)")
    case (Some i)
    show thesis
      using assms Some False find_slot_Some [OF Some]
      by (intro shared [of i]) (simp_all add: kmap_def page_mask low_page Let_def kmap_addr_def)
  next
    case None
    note no = this [unfolded find_slot_None]
    show thesis
    proof (cases "find_slot (\<lambda>s. ref_count s = 0) (kmap_slots ?k)")
      case (Some i)
      show thesis
        using assms None Some False find_slot_Some [OF Some] no
        by (intro fresh [of i]) (auto simp: kmap_def page_mask low_page Let_def kmap_addr_def bind_eq_Some_conv)
    next
      case None': None
      show thesis
        using assms None None' False
        by (intro full) (auto simp: kmap_def page_mask low_page Let_def find_slot_None word_neq_0_conv)
    qed
  qed
qed

lemma kmap_correct':
  assumes "kmap_inv k m" "vm_inv m" "direct_map m" "kmap paddr k m = Some (k', m', v)"
  shows "kmap_inv k' m' \<and> vm_inv m' \<and> direct_map m' \<and>
    (\<forall>w. outside_kmap w \<longrightarrow> mmu_walk m' w = mmu_walk m w) \<and>
    (if v = NULL then \<forall>i < KMAP_PAGES. live_slot (kmap_init k) i
     else mmu_walk m' v = Some (if paddr < 0x400000 then paddr else paddr AND 0xFFFFF000))"
proof -
  note inv = kmap_init_inv(1) [OF assms(1)] kmap_init_inv(2)
  note len = kmap_invD(1) [OF inv]
  show ?thesis
    using assms(4)
  proof (cases rule: kmap_cases)
    case low
    have "paddr + 0xC0000000 \<noteq> 0"
      using low(1) by (simp add: unat_inj word_less_nat_alt unat_word_ariths)
    with low show ?thesis
      using assms inv by (simp add: direct_map_def)
  next
    case (shared i)
    have i: "i < KMAP_PAGES" "live_slot (kmap_init k) i"
      using shared(2,6) len by (simp_all add: live_slot_def)
    have "kmap_inv k' m'"
      unfolding shared(3,7)
      using kmap_invD(2,3) [OF inv i(2)] kmap_invD(4) [OF inv _ i(2)]
      by (intro kmap_inv_set_slot [OF inv i(1)]) auto
    then show ?thesis
      using shared(1,3,4,5) assms(2,3) kmap_invD(3) [OF inv i(2)] kmap_addr_facts(4) [OF i(1)] by simp
  next
    case (fresh i)
    have i: "i < KMAP_PAGES"
      using fresh(2) len by simp
    have "maps_page (kmap_addr i) (paddr AND 0xFFFFF000) m m'"
      using map_page_step [OF assms(2) kmap_addr_facts(2) [OF i], of "paddr AND 0xFFFFF000" 3] fresh(5) by simp
    then have m': "vm_inv m'" "\<And>w. PD_INDEX w \<noteq> 1023 \<Longrightarrow> mmu_walk m' w =
        (if unat w div 4096 = unat (kmap_addr i) div 4096 then Some ((paddr AND 0xFFFFF000) + PAGE_OFFSET w)
         else mmu_walk m w)"
      by (simp_all add: maps_page_def)
    have w: "mmu_walk m' (kmap_addr i) = Some (paddr AND 0xFFFFF000)"
      using m'(2) [OF kmap_addr_facts(2) [OF i]] kmap_addr_facts(3) [OF i] by simp
    have out: "mmu_walk m' w = mmu_walk m w" if "outside_kmap w" for w
    proof -
      have "unat w div 4096 \<noteq> unat (kmap_addr i) div 4096"
        using that same_page [of w "kmap_addr i"] kmap_addr_facts(1) [OF i] by (auto simp: outside_kmap_def)
      then show ?thesis
        using that m'(2) [of w] by (simp add: outside_kmap_def)
    qed
    have oth: "mmu_walk m' (kmap_addr j) = mmu_walk m (kmap_addr j)" if "live_slot (kmap_init k) j" "j \<noteq> i" for j
      using that m'(2) [OF kmap_addr_facts(2), of j] kmap_addr_page [of j i] i by (simp add: live_slot_def)
    have "kmap_inv k' m'"
      unfolding fresh(6)
      using w fresh(4) len oth by (intro kmap_inv_set_slot [OF inv i]) (auto simp: live_slot_def)
    then show ?thesis
      using m'(1) w fresh(1,3) out direct_map_cong [OF assms(3) out] kmap_addr_facts(4) [OF i] by simp
  next
    case full
    then show ?thesis
      using assms inv len by (simp add: live_slot_def)
  qed
qed


text \<open>
  \<^bold>\<open>C24.\<close> \<^verbatim>\<open>kmap\<close> returns an address that the processor translates to the frame asked for, sharing the slot
  of a frame that is mapped already; it fails only when all 1024 slots are in use, and no translation
  outside the slots and the recursive window changes.  For an address above four megabytes the
  offset in the page is lost: the pointer leads to the start of the page.
\<close>

theorem kmap_correct:
  assumes "kmap_inv k m" "vm_inv m" "direct_map m" "kmap paddr k m = Some (k', m', v)"
  shows "kmap_inv k' m' \<and> vm_inv m' \<and> direct_map m' \<and>
    (\<forall>w. outside_kmap w \<longrightarrow> mmu_walk m' w = mmu_walk m w) \<and>
    (if v = NULL then \<forall>i < KMAP_PAGES. live_slot (kmap_init k) i
     else mmu_walk m' v = Some (if paddr < 0x400000 then paddr else paddr AND 0xFFFFF000))"
  using kmap_correct' [OF assms] .

definition demo_kmap :: kmap_state where
  "demo_kmap = \<lparr>kmap_slots = [], kmap_initialized = False\<rparr>"

lemma low_direct_map: "low_map m \<Longrightarrow> direct_map m"
proof -
  assume m: "low_map m"
  have "mmu_walk m (a + 0xC0000000) = Some a" if "a < 0x400000" for a
  proof -
    have "unat a < 4194304"
      using that by (simp add: word_less_nat_alt)
    from low_map_walk(2) [OF m this] show ?thesis
      by (simp only: add.commute)
  qed
  then show ?thesis
    by (simp add: direct_map_def)
qed

lemma demo_kmap_inv: "kmap_inv demo_kmap m"
  by (simp add: kmap_inv_def demo_kmap_def)

theorem kmap_correct_witness:
  "\<exists>k m v. kmap 0x500123 demo_kmap demo_vm = Some (k, m, v) \<and> v \<noteq> NULL \<and> mmu_walk m v = Some 0x500000"
proof -
  have s: "find_slot P (kmap_slots (kmap_init demo_kmap)) = (if P \<lparr>phys_addr = 0, ref_count = 0\<rparr> then Some 0 else None)" for P
    using find_slot_None [of P "replicate 1023 \<lparr>phys_addr = 0, ref_count = 0\<rparr>"]
      replicate_Suc [of 1023 "\<lparr>phys_addr = 0, ref_count = 0\<rparr>"]
    by (simp add: kmap_init_def demo_kmap_def KMAP_PAGES_def)
  have f: "frames_left (vm_pmm demo_vm) \<noteq> 0"
    by (simp add: demo_vm_facts demo16_inv)
  have i: "PD_INDEX 0xF0000000 \<noteq> 1023"
    by (simp add: unat_inj unat_PD_INDEX)
  obtain m where m: "vmm_map_page 0xF0000000 0x500000 3 demo_vm = Some m"
    using map_page_step [OF demo_vm_facts(1) i, of "0x500000" 3] f by (auto split: option.splits)
  then have k: "kmap 0x500123 demo_kmap demo_vm =
      Some (set_slot 0 \<lparr>phys_addr = 0x500000, ref_count = 1\<rparr> (kmap_init demo_kmap), m, 0xF0000000)"
    by (simp add: kmap_def s KMAP_BASE_def)
  with kmap_correct [OF demo_kmap_inv demo_vm_facts(1) low_direct_map [OF demo_vm_facts(2)] k] show ?thesis
    by simp
qed

text \<open>Releasing an address: the last release of a slot removes its translation.\<close>

lemma kunmap_step:
  assumes "kmap_inv k m" "vm_inv m" "direct_map m"
  obtains k' m' where "kunmap v k m = Some (k', m')" "kmap_inv k' m'" "vm_inv m'" "direct_map m'"
    "\<And>w. outside_kmap w \<Longrightarrow> mmu_walk m' w = mmu_walk m w"
proof -
  note result = that
  define i where "i = unat ((v - KMAP_BASE) div 4096)"
  let ?s = "kmap_slots k ! i"
  have None: thesis if "kunmap v k m = Some (k, m)"
    using that assms by (intro result [of k m]) simp_all
  show thesis
  proof (cases "kmap_initialized k \<and> \<not> v < KMAP_BASE \<and> \<not> v \<ge> KMAP_BASE + KMAP_SIZE \<and> i < KMAP_PAGES \<and> 0 < ref_count ?s")
    case False
    then show thesis
      by (intro None) (auto simp: kunmap_def i_def [symmetric] Let_def)
  next
    case True
    then have ini: "kmap_initialized k" and i: "i < KMAP_PAGES" and r: "0 < ref_count ?s" by simp_all
    have live: "live_slot k i"
      using i r by (simp add: live_slot_def)
    note D = kmap_invD [OF assms(1) ini]
    show thesis
    proof (cases "ref_count ?s = 1")
      case False
      have "kmap_inv (set_slot i (?s\<lparr>ref_count := ref_count ?s - 1\<rparr>) k) m"
        using D(2,3) [OF live] D(4) [OF _ live] by (intro kmap_inv_set_slot [OF assms(1) ini i]) auto
      moreover have "kunmap v k m = Some (set_slot i (?s\<lparr>ref_count := ref_count ?s - 1\<rparr>) k, m)"
        using True False by (auto simp: kunmap_def i_def [symmetric] Let_def)
      ultimately show thesis
        using assms by (intro result) simp_all
    next
      case one: True
      obtain m' where m': "vmm_unmap_page (kmap_addr i) m = Some m'" "vm_inv m'"
        "\<And>w. mmu_walk m' w = (if unat w div 4096 = unat (kmap_addr i) div 4096 then None else mmu_walk m w)"
        using unmap_page_step [OF assms(2) kmap_addr_facts(2) [OF i]] by metis
      have out: "mmu_walk m' w = mmu_walk m w" if "outside_kmap w" for w
        using that m'(3) [of w] same_page [of w "kmap_addr i"] kmap_addr_facts(1) [OF i] by (auto simp: outside_kmap_def)
      have "kmap_inv (set_slot i (?s\<lparr>ref_count := 0, phys_addr := 0\<rparr>) k) m'"
        using m'(3) kmap_addr_page [OF _ i]
        by (intro kmap_inv_set_slot [OF assms(1) ini i]) (auto simp: live_slot_def)
      moreover have "kunmap v k m = Some (set_slot i (?s\<lparr>ref_count := 0, phys_addr := 0\<rparr>) k, m')"
        using True one m'(1) by (auto simp: kunmap_def i_def [symmetric] Let_def kmap_addr_def)
      ultimately show thesis
        using m'(2) out direct_map_cong [OF assms(3) out]
        by (intro result [of "set_slot i (?s\<lparr>ref_count := 0, phys_addr := 0\<rparr>) k" m']) simp_all
    qed
  qed
qed

text \<open>
  \<^verbatim>\<open>kmap\<close> followed by \<^verbatim>\<open>kunmap\<close> of the result keeps the slot table sound and every translation
  outside the slots as it was before both.
\<close>

lemma kmap_kunmap_restores:
  assumes "kmap_inv k m" "vm_inv m" "direct_map m" "kmap paddr k m = Some (k1, m1, v)"
  shows "\<exists>k' m'. kunmap v k1 m1 = Some (k', m') \<and> kmap_inv k' m' \<and> vm_inv m' \<and>
    (\<forall>w. outside_kmap w \<longrightarrow> mmu_walk m' w = mmu_walk m w)"
proof -
  have inv1: "kmap_inv k1 m1" "vm_inv m1" "direct_map m1" and w: "\<forall>w. outside_kmap w \<longrightarrow> mmu_walk m1 w = mmu_walk m w"
    using kmap_correct' [OF assms] by blast+
  obtain k' m' where "kunmap v k1 m1 = Some (k', m')" "kmap_inv k' m'" "vm_inv m'"
    "\<And>w. outside_kmap w \<Longrightarrow> mmu_walk m' w = mmu_walk m1 w"
    by (rule kunmap_step [OF inv1, of v]) auto
  with w show ?thesis
    by (intro exI [of _ k'] exI [of _ m']) simp
qed

section \<open>Walking another directory\<close>

lemma direct_map_read:
  assumes "direct_map m" "page_base b" "b < 0x400000" "i < 1024"
  shows "rd32 m (b + 0xC0000000 + 4 * i) = Some (ram m (b + 4 * i))"
proof -
  have "unat b \<le> 4190208"
    using assms(2,3) by (auto simp: page_base_nat word_less_nat_alt elim!: dvdE)
  then have "b + 4 * i < 0x400000"
    using unat_slot [OF assms(2,4)] assms(4) by (simp add: word_less_nat_alt)
  then show ?thesis
    using assms(1) by (simp add: rd32_def direct_map_def add.commute [of _ "0xC0000000"] add.assoc)
qed

text \<open>
  When the page directory and the page table it names for an address lie in the direct map,
  \<^verbatim>\<open>vmm_virt_to_phys_in_directory\<close> computes what the processor would translate after a switch to that
  directory, with 0 for a page fault.
\<close>

theorem virt_to_phys_in_directory_agrees:
  assumes "direct_map m" "page_base (physical_addr pd)" "physical_addr pd < 0x400000"
    and "pde_get_addr (pd_entry (m\<lparr>cr3 := physical_addr pd\<rparr>) (PD_INDEX v)) < 0x400000"
  shows "vmm_virt_to_phys_in_directory (Some pd) v m =
    Some (case mmu_walk (m\<lparr>cr3 := physical_addr pd\<rparr>) v of None \<Rightarrow> 0 | Some a \<Rightarrow> a)"
  using direct_map_read [OF assms(1-3), of "PD_INDEX v"]
    direct_map_read [OF assms(1) _ assms(4), of "PT_INDEX v"] assms(2)
  by (simp add: vmm_virt_to_phys_in_directory_def walk_eq pd_entry_def pte_slot_def Let_def)

theorem virt_to_phys_in_directory_agrees_witness:
  "vmm_virt_to_phys_in_directory (Some \<lparr>physical_addr = 0x9000, pd_entries = 0\<rparr>) 0x1234 demo_vm = Some 0x1234"
proof -
  have l: "cr3 demo_vm = 0x9000" "pd_entry demo_vm 0 = 0xA003"
    using demo_vm_facts(2) by (simp_all add: low_map_def PAGE_DIRECTORY_ADDR_def)
  then have c: "demo_vm\<lparr>cr3 := 0x9000\<rparr> = demo_vm" by simp
  have i: "PD_INDEX 0x1234 = 0"
    by (simp add: unat_inj unat_PD_INDEX)
  show ?thesis
    using virt_to_phys_in_directory_agrees [OF low_direct_map [OF demo_vm_facts(2)],
        of "\<lparr>physical_addr = 0x9000, pd_entries = 0\<rparr>" "0x1234"]
      low_map_walk(1) [OF demo_vm_facts(2), of "0x1234"]
    by (simp add: c i l(2) page_base_def pde_get_addr_def)
qed

end
