(* ===== verification/Addrspace.thy ===== *)
theory Addrspace
  imports Kheap Kmap
begin

text \<open>
  Creating and switching address spaces in \<^verbatim>\<open>mm/vmm.c\<close>.  A new page directory is filled through a
  temporary page table that is hung into slot 767 of the current directory.  \<open>opens m v b\<close> says that the page at
  virtual address \<open>v\<close> gives access to the frame \<open>b\<close>, which holds none of the current page tables;
  writes through such a page change no translation.
\<close>

section \<open>Operations\<close>

fun copy_entries :: "nat \<Rightarrow> u32 \<Rightarrow> u32 \<Rightarrow> vm \<Rightarrow> vm option" where
  "copy_entries 0 i dst m = Some m"
| "copy_entries (Suc n) i dst m = do {
     x \<leftarrow> rd32 m (GET_PAGE_DIRECTORY + 4 * i);
     m \<leftarrow> wr32 m (dst + 4 * i) x;
     copy_entries n (i + 1) dst m
   }"

text \<open>Both branches of the code clear the temporary page table through the direct map.\<close>

definition fill_directory :: "u32 \<Rightarrow> u32 \<Rightarrow> vm \<Rightarrow> vm option" where
  "fill_directory pd_phys temp_pt_phys m = do {
     let temp_pt = temp_pt_phys + 0xC0000000;
     m \<leftarrow> zero_words 1024 temp_pt m;
     m \<leftarrow> wr32 m temp_pt (pte_create pd_phys (PAGE_PRESENT OR PAGE_WRITE));
     old_pde_767 \<leftarrow> rd32 m (GET_PAGE_DIRECTORY + 4 * 767);
     m \<leftarrow> wr32 m (GET_PAGE_DIRECTORY + 4 * 767) (pde_create temp_pt_phys (PAGE_PRESENT OR PAGE_WRITE));
     let temp_virt = 0xBFC00000;
     m \<leftarrow> zero_words 1024 temp_virt m;
     m \<leftarrow> copy_entries 255 768 temp_virt m;
     m \<leftarrow> wr32 m (temp_virt + 4 * 1023) (pde_create pd_phys (PAGE_PRESENT OR PAGE_WRITE));
     wr32 m (GET_PAGE_DIRECTORY + 4 * 767) old_pde_767
   }"

type_synonym pd_store = "addr \<Rightarrow> page_directory"

definition with_pmm :: "pmm \<Rightarrow> kheap \<Rightarrow> kheap" where
  "with_pmm pm h = h\<lparr>kvm := (kvm h)\<lparr>vm_pmm := pm\<rparr>\<rparr>"

definition vmm_create_page_directory :: "pd_store \<Rightarrow> kheap \<Rightarrow> (pd_store \<times> kheap \<times> addr) option" where
  "vmm_create_page_directory pds h = do {
     (h, pd) \<leftarrow> kmalloc 8 h;
     if pd = NULL then Some (pds, h, NULL)
     else case pmm_alloc_frame (vm_pmm (kvm h)) of (pm, phys) \<Rightarrow>
       let h = with_pmm pm h; pds = pds(pd := (pds pd)\<lparr>physical_addr := phys\<rparr>) in
       if phys = 0 then do { h \<leftarrow> kfree pd h; Some (pds, h, NULL) }
       else case pmm_alloc_frame (vm_pmm (kvm h)) of (pm, temp_pt_phys) \<Rightarrow>
         let h = with_pmm pm h in
         if temp_pt_phys = 0 then
           let h = with_pmm (pmm_free_frame phys (vm_pmm (kvm h))) h
           in do { h \<leftarrow> kfree pd h; Some (pds, h, NULL) }
         else do {
           m \<leftarrow> fill_directory phys temp_pt_phys (kvm h);
           Some (pds, h\<lparr>kvm := m\<lparr>vm_pmm := pmm_free_frame temp_pt_phys (vm_pmm m)\<rparr>\<rparr>, pd)
         }
   }"

definition vmm_destroy_page_directory :: "pd_ref \<Rightarrow> pd_store \<Rightarrow> kheap \<Rightarrow> kheap option" where
  "vmm_destroy_page_directory pd pds h =
     (case pd of PD_NULL \<Rightarrow> Some h | PD_KERNEL \<Rightarrow> Some h
      | PD_HEAP a \<Rightarrow> kfree a (with_pmm (pmm_free_frame (physical_addr (pds a)) (vm_pmm (kvm h))) h))"

definition vmm_switch_page_directory :: "pd_ref \<Rightarrow> pd_store \<Rightarrow> vm \<Rightarrow> vm" where
  "vmm_switch_page_directory pd pds m =
     (case pd of PD_NULL \<Rightarrow> m
      | PD_KERNEL \<Rightarrow> m\<lparr>current_directory := pd, cr3 := physical_addr (kernel_directory m)\<rparr>
      | PD_HEAP a \<Rightarrow> m\<lparr>current_directory := pd, cr3 := physical_addr (pds a)\<rparr>)"

definition vmm_get_current_page_directory :: "vm \<Rightarrow> pd_ref" where
  "vmm_get_current_page_directory m = current_directory m"

section \<open>Writing frames that hold no page table\<close>

abbreviation (input) frame_of :: "u32 \<Rightarrow> nat" where "frame_of a \<equiv> unat a div 4096"

definition opens :: "vm \<Rightarrow> u32 \<Rightarrow> u32 \<Rightarrow> bool" where
  "opens m v b \<longleftrightarrow> recursive m \<and> page_base b \<and> frame_of b \<notin> table_frames m \<and>
     (\<forall>k<1024. mmu_walk m (v + 4 * k) = Some (b + 4 * k))"

lemma directory_frame: "recursive m \<Longrightarrow> i < 1024 \<Longrightarrow> frame_of (cr3 m + 4 * i) \<in> table_frames m"
  unfolding table_frames_def
  by (rule image_eqI [of _ _ 1023]) (auto simp: recursive_def present_tables_def slot_page)

lemma table_frame:
  "i \<in> present_tables m \<Longrightarrow> j < 1024 \<Longrightarrow> frame_of (pde_get_addr (pd_entry m i) + 4 * j) \<in> table_frames m"
  unfolding table_frames_def by (rule image_eqI [of _ _ i]) (auto simp: slot_page)

lemma tables_cong:
  assumes rec: "recursive m" and same: "\<And>a. frame_of a \<in> table_frames m \<Longrightarrow> mem a = ram m a"
  shows "i < 1024 \<Longrightarrow> pd_entry (m\<lparr>ram := mem\<rparr>) i = pd_entry m i" "recursive (m\<lparr>ram := mem\<rparr>)"
    "table_frames (m\<lparr>ram := mem\<rparr>) = table_frames m" "mmu_walk (m\<lparr>ram := mem\<rparr>) v = mmu_walk m v"
proof -
  have pd: "pd_entry (m\<lparr>ram := mem\<rparr>) i = pd_entry m i" if "i < 1024" for i
    using same [OF directory_frame [OF rec that]] by (simp add: pd_entry_def)
  then show "i < 1024 \<Longrightarrow> pd_entry (m\<lparr>ram := mem\<rparr>) i = pd_entry m i" .
  show "recursive (m\<lparr>ram := mem\<rparr>)"
    using rec by (simp add: recursive_def pd)
  have pt: "present_tables (m\<lparr>ram := mem\<rparr>) = present_tables m"
    by (auto simp: present_tables_def pd)
  then show "table_frames (m\<lparr>ram := mem\<rparr>) = table_frames m"
    by (auto simp: table_frames_def pd present_tables_def intro!: image_cong)
  have "mem (pte_slot m v) = ram m (pte_slot m v)" if "pte_is_present (pd_entry m (PD_INDEX v))"
    using same table_frame [OF present_tables_index [OF that], of "PT_INDEX v"] by (simp add: pte_slot_def)
  then show "mmu_walk (m\<lparr>ram := mem\<rparr>) v = mmu_walk m v"
    using rec by (auto simp: walk_eq recursive_def pd pte_slot_def)
qed

text \<open>\<open>only b m mem\<close>: the memory \<open>mem\<close> differs from that of \<open>m\<close> in the frame \<open>b\<close> only.\<close>

definition only :: "u32 \<Rightarrow> vm \<Rightarrow> (u32 \<Rightarrow> u32) \<Rightarrow> bool" where
  "only b m mem \<longleftrightarrow> (\<forall>a. frame_of a \<noteq> frame_of b \<longrightarrow> mem a = ram m a)"

lemma opens_cong:
  assumes "opens m v b" "only b m mem"
  shows "opens (m\<lparr>ram := mem\<rparr>) v b" "mmu_walk (m\<lparr>ram := mem\<rparr>) w = mmu_walk m w"
    "i < 1024 \<Longrightarrow> pd_entry (m\<lparr>ram := mem\<rparr>) i = pd_entry m i"
proof -
  have "mem a = ram m a" if "frame_of a \<in> table_frames m" for a
    using that assms unfolding opens_def only_def by metis
  note * = tables_cong [OF _ this]
  show "opens (m\<lparr>ram := mem\<rparr>) v b" "mmu_walk (m\<lparr>ram := mem\<rparr>) w = mmu_walk m w"
    "i < 1024 \<Longrightarrow> pd_entry (m\<lparr>ram := mem\<rparr>) i = pd_entry m i"
    using assms(1) * by (simp_all add: opens_def)
qed

lemma opens_wr:
  assumes "opens m v b" "k < 1024"
  shows "wr32 m (v + 4 * k) x = Some (m\<lparr>ram := (ram m)(b + 4 * k := x)\<rparr>)" "only b m ((ram m)(b + 4 * k := x))"
  using assms by (auto simp: wr32_def opens_def only_def slot_page)

lemma of_nat_slot_eq: "page_base b \<Longrightarrow> j < 1024 \<Longrightarrow> k < 1024 \<Longrightarrow>
    b + 4 * of_nat j = b + 4 * of_nat k \<longleftrightarrow> j = k" for j k :: nat
  using slot_eq [of b b "of_nat j" "of_nat k"] of_nat_slot_less [of j] of_nat_slot_less [of k]
  by (auto simp: unat_inj unat_of_nat take_bit_nat_eq_self)

lemma opens_zero:
  assumes "opens m v b" "j + n \<le> 1024"
  obtains mem where "zero_words n (v + 4 * of_nat j) m = Some (m\<lparr>ram := mem\<rparr>)" "only b m mem"
    "\<And>k. k < 1024 \<Longrightarrow> mem (b + 4 * of_nat k) = (if j \<le> k \<and> k < j + n then 0 else ram m (b + 4 * of_nat k))"
  using assms
proof (induction n arbitrary: j m thesis)
  case 0
  show ?case
    by (rule 0(1) [of "ram m"]) (auto simp: only_def)
next
  case (Suc n)
  let ?m = "m\<lparr>ram := (ram m)(b + 4 * of_nat j := 0)\<rparr>"
  have j: "(of_nat j :: u32) < 1024" "page_base b"
    using Suc.prems by (auto intro: of_nat_slot_less simp: opens_def)
  note w = opens_wr [OF Suc.prems(2) j(1), of 0]
  have o: "opens ?m v b" "Suc j + n \<le> 1024"
    using opens_cong(1) [OF Suc.prems(2) w(2)] Suc.prems(3) by simp_all
  obtain mem where mem: "zero_words n (v + 4 * of_nat (Suc j)) ?m = Some (?m\<lparr>ram := mem\<rparr>)" "only b ?m mem"
    "\<And>k. k < 1024 \<Longrightarrow> mem (b + 4 * of_nat k) = (if Suc j \<le> k \<and> k < Suc j + n then 0 else ram ?m (b + 4 * of_nat k))"
    by (rule Suc.IH [OF _ o]) auto
  have nx: "v + 4 * of_nat (Suc j) = v + 4 * of_nat j + 4"
    by (simp add: algebra_simps)
  show ?case
  proof (rule Suc.prems(1) [of mem])
    show "zero_words (Suc n) (v + 4 * of_nat j) m = Some (m\<lparr>ram := mem\<rparr>)"
      using w(1) mem(1) unfolding nx by simp
    show "only b m mem"
      using mem(2) w(2) by (auto simp: only_def)
    show "mem (b + 4 * of_nat k) = (if j \<le> k \<and> k < j + Suc n then 0 else ram m (b + 4 * of_nat k))"
      if "k < 1024" for k
      using mem(3) [OF that] of_nat_slot_eq [OF j(2) that, of j] Suc.prems(3) by auto
  qed
qed

lemma opens_copy:
  assumes "opens m v b" "j + n \<le> 1024"
  obtains mem where "copy_entries n (of_nat j) v m = Some (m\<lparr>ram := mem\<rparr>)" "only b m mem"
    "\<And>k. k < 1024 \<Longrightarrow> mem (b + 4 * of_nat k) =
       (if j \<le> k \<and> k < j + n then pd_entry m (of_nat k) else ram m (b + 4 * of_nat k))"
  using assms
proof (induction n arbitrary: j m thesis)
  case 0
  show ?case
    by (rule 0(1) [of "ram m"]) (auto simp: only_def)
next
  case (Suc n)
  let ?x = "pd_entry m (of_nat j)"
  let ?m = "m\<lparr>ram := (ram m)(b + 4 * of_nat j := ?x)\<rparr>"
  have j: "(of_nat j :: u32) < 1024" "page_base b" "recursive m"
    using Suc.prems by (auto intro: of_nat_slot_less simp: opens_def)
  note w = opens_wr [OF Suc.prems(2) j(1), of ?x]
  have o: "opens ?m v b" "Suc j + n \<le> 1024"
    using opens_cong(1) [OF Suc.prems(2) w(2)] Suc.prems(3) by simp_all
  have pd: "pd_entry ?m (of_nat k) = pd_entry m (of_nat k)" if "k < 1024" for k
    using opens_cong(3) [OF Suc.prems(2) w(2) of_nat_slot_less [OF that]] .
  obtain mem where mem: "copy_entries n (of_nat (Suc j)) v ?m = Some (?m\<lparr>ram := mem\<rparr>)" "only b ?m mem"
    "\<And>k. k < 1024 \<Longrightarrow> mem (b + 4 * of_nat k) =
       (if Suc j \<le> k \<and> k < Suc j + n then pd_entry ?m (of_nat k) else ram ?m (b + 4 * of_nat k))"
    by (rule Suc.IH [OF _ o]) auto
  show ?case
  proof (rule Suc.prems(1) [of mem])
    show "copy_entries (Suc n) (of_nat j) v m = Some (m\<lparr>ram := mem\<rparr>)"
      using w(1) mem(1) rd32_directory [OF j(3,1)] by (simp add: add.commute)
    show "only b m mem"
      using mem(2) w(2) by (auto simp: only_def)
    show "mem (b + 4 * of_nat k) = (if j \<le> k \<and> k < j + Suc n then pd_entry m (of_nat k) else ram m (b + 4 * of_nat k))"
      if "k < 1024" for k
      using mem(3) [OF that] pd [OF that] of_nat_slot_eq [OF j(2) that, of j] Suc.prems(3) by auto
  qed
qed

section \<open>A new directory\<close>

lemma direct_map_opens:
  assumes "recursive m" "direct_map m" "page_base t" "t < 0x400000" "frame_of t \<notin> table_frames m"
  shows "opens m (t + 0xC0000000) t"
proof -
  have "unat t \<le> 4190208"
    using assms(3,4) by (auto simp: page_base_nat word_less_nat_alt elim!: dvdE)
  then have "t + 4 * k < 0x400000" if "k < 1024" for k
    using unat_slot [OF assms(3) that] that by (simp add: word_less_nat_alt)
  then have "mmu_walk m (t + 0xC0000000 + 4 * k) = Some (t + 4 * k)" if "k < 1024" for k
    using that assms(2) by (simp add: direct_map_def add.commute [of _ "0xC0000000"] add.assoc)
  with assms show ?thesis by (simp add: opens_def)
qed

text \<open>The page at 0xBFC00000 once slot 767 of the directory points to a table whose first entry is \<open>p\<close>.\<close>

lemma window_767: "k < 1024 \<Longrightarrow> PD_INDEX (0xBFC00000 + 4 * k) = 767"
  "k < 1024 \<Longrightarrow> PT_INDEX (0xBFC00000 + 4 * k) = 0" "k < 1024 \<Longrightarrow> PAGE_OFFSET (0xBFC00000 + 4 * k) = 4 * k"
proof -
  assume k: "k < 1024"
  have "page_base 0xBFC00000"
    by (simp add: page_base_def)
  from unat_slot [OF this k] have u: "unat (0xBFC00000 + 4 * k) = 3217031168 + 4 * unat k" by simp
  have v: "unat k < 1024" "unat (4 * k) = 4 * unat k"
    using k unat_slot [of 0 k] by (simp_all add: word_less_nat_alt page_base_def)
  then show "PD_INDEX (0xBFC00000 + 4 * k) = 767" "PT_INDEX (0xBFC00000 + 4 * k) = 0"
    "PAGE_OFFSET (0xBFC00000 + 4 * k) = 4 * k"
    unfolding unat_inj index_nat u by (simp_all add: div_add1_eq mod_add_eq [symmetric] div_eq_0_iff)
qed

definition set_pde :: "u32 \<Rightarrow> u32 \<Rightarrow> vm \<Rightarrow> vm" where
  "set_pde i e m = m\<lparr>ram := (ram m)(cr3 m + 4 * i := e)\<rparr>"

lemma set_pde_facts:
  assumes "recursive m" "i < 1024" "i \<noteq> 1023"
  shows "wr32 m (GET_PAGE_DIRECTORY + 4 * i) e = Some (set_pde i e m)"
    "j < 1024 \<Longrightarrow> pd_entry (set_pde i e m) j = (if j = i then e else pd_entry m j)"
    "recursive (set_pde i e m)" "table_frames (set_pde i e m) \<subseteq> insert (frame_of (pde_get_addr e)) (table_frames m)"
proof -
  have pb: "page_base (cr3 m)"
    using assms(1) by (simp add: recursive_def)
  show "wr32 m (GET_PAGE_DIRECTORY + 4 * i) e = Some (set_pde i e m)"
    using walk_directory [OF assms(1,2)] by (simp add: wr32_def set_pde_def)
  show pd: "j < 1024 \<Longrightarrow> pd_entry (set_pde i e m) j = (if j = i then e else pd_entry m j)" for j
    using pd_entry_upd [OF pb pb _ assms(2)] by (auto simp: set_pde_def)
  show "recursive (set_pde i e m)"
    using assms pd [of 1023] by (simp add: recursive_def set_pde_def)
  show "table_frames (set_pde i e m) \<subseteq> insert (frame_of (pde_get_addr e)) (table_frames m)"
    by (auto simp: table_frames_def present_tables_def pd split: if_splits)
qed

lemma window_opens:
  assumes rec: "recursive m" and p: "page_base p" "frame_of p \<notin> table_frames m" and t: "page_base t" "frame_of p \<noteq> frame_of t"
    and e: "ram m t = pte_create p (PAGE_PRESENT OR PAGE_WRITE)" and d: "frame_of t \<notin> table_frames m"
  shows "opens (set_pde 767 (pde_create t (PAGE_PRESENT OR PAGE_WRITE)) m) 0xBFC00000 p"
proof -
  let ?e = "pde_create t (PAGE_PRESENT OR PAGE_WRITE)"
  let ?m = "set_pde 767 ?e m"
  note f = set_pde_facts [OF rec, where i = 767 and e = ?e]
  have b: "t AND 0xFFFFF000 = t" "p AND 0xFFFFF000 = p"
    using t(1) p(1) by (simp_all add: page_base_def)
  have "t \<noteq> cr3 m + 4 * 767"
    using directory_frame [OF rec, of 767] d by auto
  then have r: "ram ?m t = pte_create p (PAGE_PRESENT OR PAGE_WRITE)"
    using e by (simp add: set_pde_def)
  have "mmu_walk ?m (0xBFC00000 + 4 * k) = Some (p + 4 * k)" if "k < 1024" for k
    using f(2) [where j = 767] f(3) that by (simp add: walk_eq recursive_def pte_slot_def window_767 r b)
  then show ?thesis
    using f(3,4) p t b unfolding opens_def by auto
qed

text \<open>What the fill of a directory leaves behind: the frame \<open>p\<close> holds a directory that shares the kernel's tables.\<close>

definition directory_word :: "vm \<Rightarrow> u32 \<Rightarrow> nat \<Rightarrow> u32" where
  "directory_word m p k =
     (if k = 1023 then pde_create p (PAGE_PRESENT OR PAGE_WRITE)
      else if 768 \<le> k then pd_entry m (of_nat k) else 0)"

lemma write_directory:
  assumes "opens m v p"
  obtains mem where
    "(do { m \<leftarrow> zero_words 1024 v m; m \<leftarrow> copy_entries 255 768 v m;
           wr32 m (v + 4 * 1023) (pde_create p (PAGE_PRESENT OR PAGE_WRITE)) }) = Some (m\<lparr>ram := mem\<rparr>)"
    "only p m mem" "\<And>k. k < 1024 \<Longrightarrow> mem (p + 4 * of_nat k) = directory_word m p k"
proof -
  let ?e = "pde_create p (PAGE_PRESENT OR PAGE_WRITE)"
  have pb: "page_base p"
    using assms by (simp add: opens_def)
  obtain mem1 where z: "zero_words 1024 v m = Some (m\<lparr>ram := mem1\<rparr>)" "only p m mem1"
    "\<And>k. k < 1024 \<Longrightarrow> mem1 (p + 4 * of_nat k) = 0"
    by (rule opens_zero [OF assms, of 0 1024]) auto
  define m1 where "m1 = m\<lparr>ram := mem1\<rparr>"
  note o1 = opens_cong(1,3) [OF assms z(2), folded m1_def]
  obtain mem2 where c: "copy_entries 255 768 v m1 = Some (m1\<lparr>ram := mem2\<rparr>)" "only p m1 mem2"
    "\<And>k. k < 1024 \<Longrightarrow> mem2 (p + 4 * of_nat k) =
       (if 768 \<le> k \<and> k < 1023 then pd_entry m1 (of_nat k) else ram m1 (p + 4 * of_nat k))"
    by (rule opens_copy [OF o1(1), of 768 255]) auto
  define m2 where "m2 = m1\<lparr>ram := mem2\<rparr>"
  note w = opens_wr [OF opens_cong(1) [OF o1(1) c(2), folded m2_def], of 1023 ?e]
  have pd: "pd_entry m1 (of_nat k) = pd_entry m (of_nat k)" if "k < 1024" for k
    by (rule o1(2) [OF of_nat_slot_less [OF that]])
  show thesis
  proof (rule that [of "mem2(p + 4 * 1023 := ?e)"])
    show "(do { m \<leftarrow> zero_words 1024 v m; m \<leftarrow> copy_entries 255 768 v m; wr32 m (v + 4 * 1023) ?e }) =
        Some (m\<lparr>ram := mem2(p + 4 * 1023 := ?e)\<rparr>)"
      using z(1) c(1) w(1) by (simp add: m1_def m2_def)
    show "only p m (mem2(p + 4 * 1023 := ?e))"
      using z(2) c(2) w(2) by (auto simp: only_def m1_def m2_def)
    show "(mem2(p + 4 * 1023 := ?e)) (p + 4 * of_nat k) = directory_word m p k" if "k < 1024" for k
      using that c(3) [OF that] z(3) [OF that] pd [OF that] of_nat_slot_eq [OF pb that, of 1023]
      by (auto simp: directory_word_def m1_def)
  qed
qed

lemma open_window:
  assumes rec: "recursive m" and dm: "direct_map m"
    and p: "page_base p" "frame_of p \<notin> table_frames m"
    and t: "page_base t" "frame_of t \<notin> table_frames m" "t < 0x400000" "frame_of p \<noteq> frame_of t"
  obtains mem where
    "(do { m \<leftarrow> zero_words 1024 (t + 0xC0000000) m;
           wr32 m (t + 0xC0000000) (pte_create p (PAGE_PRESENT OR PAGE_WRITE)) }) = Some (m\<lparr>ram := mem\<rparr>)"
    "only t m mem" "recursive (m\<lparr>ram := mem\<rparr>)" "\<And>i. i < 1024 \<Longrightarrow> pd_entry (m\<lparr>ram := mem\<rparr>) i = pd_entry m i"
    "opens (set_pde 767 (pde_create t (PAGE_PRESENT OR PAGE_WRITE)) (m\<lparr>ram := mem\<rparr>)) 0xBFC00000 p"
proof -
  let ?e = "pte_create p (PAGE_PRESENT OR PAGE_WRITE)"
  have o1: "opens m (t + 0xC0000000) t"
    by (rule direct_map_opens [OF rec dm t(1,3,2)])
  obtain mem1 where z: "zero_words 1024 (t + 0xC0000000) m = Some (m\<lparr>ram := mem1\<rparr>)" "only t m mem1"
    by (rule opens_zero [OF o1, of 0 1024]) auto
  note w = opens_wr [OF opens_cong(1) [OF o1 z(2)], of 0 ?e]
  define mem where "mem = mem1(t := ?e)"
  have mt: "mem t = ?e"
    by (simp add: mem_def)
  have o: "only t m mem"
    using z(2) by (auto simp: only_def mem_def)
  have "mem a = ram m a" if "frame_of a \<in> table_frames m" for a
    using that o t(2) unfolding only_def by metis
  note same = tables_cong [OF rec this]
  show thesis
  proof (rule that [of mem])
    show "opens (set_pde 767 (pde_create t (PAGE_PRESENT OR PAGE_WRITE)) (m\<lparr>ram := mem\<rparr>)) 0xBFC00000 p"
      by (rule window_opens [OF same(2) p(1) _ t(1,4)]) (simp_all add: same(3) p(2) t(2) mt)
    show "(do { m \<leftarrow> zero_words 1024 (t + 0xC0000000) m; wr32 m (t + 0xC0000000) ?e }) = Some (m\<lparr>ram := mem\<rparr>)"
      using z(1) w(1) by (simp add: mem_def)
  qed (rule o same; assumption?)+
qed

lemma fill_directory_result:
  assumes rec: "recursive m" and dm: "direct_map m"
    and p: "page_base p" "frame_of p \<notin> table_frames m"
    and t: "page_base t" "frame_of t \<notin> table_frames m" "t < 0x400000" "frame_of p \<noteq> frame_of t"
  obtains mem where "fill_directory p t m = Some (m\<lparr>ram := mem\<rparr>)"
    "\<And>a. frame_of a \<noteq> frame_of p \<Longrightarrow> frame_of a \<noteq> frame_of t \<Longrightarrow> mem a = ram m a"
    "\<And>k. k < 1024 \<Longrightarrow> mem (p + 4 * of_nat k) = directory_word m p k"
proof -
  let ?d = "pde_create t (PAGE_PRESENT OR PAGE_WRITE)"
  obtain mem2 where a: "(do { m \<leftarrow> zero_words 1024 (t + 0xC0000000) m;
           wr32 m (t + 0xC0000000) (pte_create p (PAGE_PRESENT OR PAGE_WRITE)) }) = Some (m\<lparr>ram := mem2\<rparr>)"
      "only t m mem2" "recursive (m\<lparr>ram := mem2\<rparr>)" "\<And>i. i < 1024 \<Longrightarrow> pd_entry (m\<lparr>ram := mem2\<rparr>) i = pd_entry m i"
      "opens (set_pde 767 ?d (m\<lparr>ram := mem2\<rparr>)) 0xBFC00000 p"
    by (rule open_window [OF assms]) (rule that; assumption)
  define m2 where "m2 = m\<lparr>ram := mem2\<rparr>"
  define m3 where "m3 = set_pde 767 ?d m2"
  note r2 = a(3) [folded m2_def]
  note f3 = set_pde_facts [OF r2, where i = 767 and e = ?d, folded m3_def]
  obtain mem6 where b: "(do { m \<leftarrow> zero_words 1024 0xBFC00000 m3; m \<leftarrow> copy_entries 255 768 0xBFC00000 m;
           wr32 m (0xBFC00000 + 4 * 1023) (pde_create p (PAGE_PRESENT OR PAGE_WRITE)) }) = Some (m3\<lparr>ram := mem6\<rparr>)"
      "only p m3 mem6" "\<And>k. k < 1024 \<Longrightarrow> mem6 (p + 4 * of_nat k) = directory_word m3 p k"
    by (rule write_directory [OF a(5) [folded m2_def, folded m3_def]]) (rule that; assumption)
  define m6 where "m6 = m3\<lparr>ram := mem6\<rparr>"
  have r6: "recursive m6" and c6: "cr3 m6 = cr3 m"
    using opens_cong(1) [OF a(5) [folded m2_def, folded m3_def] b(2), folded m6_def]
    by (simp_all add: opens_def) (simp add: m6_def m3_def m2_def set_pde_def)
  have w7: "wr32 m6 (GET_PAGE_DIRECTORY + 4 * 767) (pd_entry m 767) = Some (set_pde 767 (pd_entry m 767) m6)"
    by (rule set_pde_facts(1) [OF r6]) simp_all
  have rd: "rd32 m2 (GET_PAGE_DIRECTORY + 4 * 767) = Some (pd_entry m 767)"
    using rd32_directory [OF r2, of 767] a(4) [of 767] by (simp add: m2_def)
  let ?mem = "mem6(cr3 m + 4 * 767 := pd_entry m 767)"
  have off: "frame_of (cr3 m + 4 * 767) \<noteq> frame_of p" "frame_of (cr3 m + 4 * 767) \<noteq> frame_of t"
    using directory_frame [OF rec, of 767] p(2) t(2) by auto
  show thesis
  proof (rule that [of ?mem])
    have "set_pde 767 (pd_entry m 767) m6 = m\<lparr>ram := ?mem\<rparr>"
      using c6 by (simp add: set_pde_def m6_def m3_def m2_def)
    then show "fill_directory p t m = Some (m\<lparr>ram := ?mem\<rparr>)"
      using a(1) b(1) f3(1) w7 rd unfolding fill_directory_def Let_def m2_def [symmetric] m6_def [symmetric]
      by (auto simp: bind_eq_Some_conv m2_def [symmetric] m6_def [symmetric])
    show "?mem x = ram m x" if "frame_of x \<noteq> frame_of p" "frame_of x \<noteq> frame_of t" for x
      using that a(2) b(2) by (simp add: only_def m3_def m2_def set_pde_def pd_entry_def)
    show "?mem (p + 4 * of_nat k) = directory_word m p k" if "k < 1024" for k
    proof -
      have "p + 4 * of_nat k \<noteq> cr3 m + 4 * 767"
        using off(1) slot_page [OF p(1) of_nat_slot_less [OF that]] by metis
      moreover have "directory_word m3 p k = directory_word m p k"
        using that f3(2) [OF _ _ of_nat_slot_less [OF that]] a(4) [OF of_nat_slot_less [OF that]]
        by (auto simp: directory_word_def m2_def unat_inj unat_of_nat take_bit_nat_eq_self)
      ultimately show ?thesis
        using b(3) [OF that] by simp
    qed
  qed
qed

lemma new_directory_entry:
  assumes "page_base p" "\<And>k. k < 1024 \<Longrightarrow> mem (p + 4 * of_nat k) = directory_word m p k" "i < 1024"
  shows "pd_entry (m\<lparr>ram := mem, cr3 := p\<rparr>) i = directory_word m p (unat i)"
  using assms(2) [of "unat i"] assms(3) by (simp add: pd_entry_def word_less_nat_alt)

lemma fill_directory_shares_kernel':
  assumes "vm_inv m" "direct_map m" "page_base p" "frame_of p \<notin> table_frames m"
    "page_base t" "frame_of t \<notin> table_frames m" "t < 0x400000" "p \<noteq> t"
  shows "\<exists>m'. fill_directory p t m = Some m' \<and> (\<forall>v. mmu_walk m' v = mmu_walk m v) \<and>
    recursive (m'\<lparr>cr3 := p\<rparr>) \<and>
    (\<forall>v. PD_INDEX v \<noteq> 1023 \<longrightarrow>
       mmu_walk (m'\<lparr>cr3 := p\<rparr>) v = (if v < 0xC0000000 then None else mmu_walk m v))"
proof -
  note rec = vm_invD(1) [OF assms(1)]
  have pt: "frame_of p \<noteq> frame_of t"
    using assms(3,5,8) by (auto simp: page_base_nat unat_inj dvd_div_eq_iff)
  obtain mem where mem: "fill_directory p t m = Some (m\<lparr>ram := mem\<rparr>)"
    "\<And>a. frame_of a \<noteq> frame_of p \<Longrightarrow> frame_of a \<noteq> frame_of t \<Longrightarrow> mem a = ram m a"
    "\<And>k. k < 1024 \<Longrightarrow> mem (p + 4 * of_nat k) = directory_word m p k"
    by (rule fill_directory_result [OF rec assms(2-7) pt]) (rule that; assumption)
  have same: "mem a = ram m a" if "frame_of a \<in> table_frames m" for a
    using that mem(2) [of a] assms(4,6) by metis
  have p: "p AND 0xFFFFF000 = p"
    using assms(3) by (simp add: page_base_def)
  note e = new_directory_entry [OF assms(3) mem(3)]
  let ?n = "m\<lparr>ram := mem, cr3 := p\<rparr>"
  have r: "recursive ?n"
    using e [of 1023] assms(3) by (simp add: recursive_def directory_word_def p)
  have "mmu_walk ?n v = (if v < 0xC0000000 then None else mmu_walk m v)" if v: "PD_INDEX v \<noteq> 1023" for v
  proof (cases "v < 0xC0000000")
    case True
    then have "unat (PD_INDEX v) < 768"
      by (simp add: word_less_nat_alt unat_PD_INDEX)
    with True show ?thesis
      using r e [of "PD_INDEX v"] by (simp add: walk_eq recursive_def directory_word_def present_bit)
  next
    case False
    then have i: "768 \<le> unat (PD_INDEX v)" "unat (PD_INDEX v) < 1023"
      using PD_INDEX_below [OF v] by (auto simp: word_less_nat_alt unat_PD_INDEX)
    then have pd: "pd_entry ?n (PD_INDEX v) = pd_entry m (PD_INDEX v)"
      using e [of "PD_INDEX v"] by (simp add: directory_word_def)
    have "mem (pte_slot m v) = ram m (pte_slot m v)" if "pte_is_present (pd_entry m (PD_INDEX v))"
      using same [OF table_frame [OF present_tables_index [OF that]], of "PT_INDEX v"] by (simp add: pte_slot_def)
    then show ?thesis
      using False r rec pd by (auto simp: walk_eq recursive_def pte_slot_def)
  qed
  with mem(1) tables_cong(4) [OF rec same] r show ?thesis
    by (intro exI [of _ "m\<lparr>ram := mem\<rparr>"] conjI allI impI)
qed

text \<open>
  \<^bold>\<open>C8.\<close> Filling a new page directory at the frame \<open>p\<close> through a temporary page table \<open>t\<close> in the direct
  map returns, leaves every translation of the current address space as it was, and gives an
  address space in which everything below the kernel faults, the kernel translates as before, and
  the recursive entry points to the new directory itself.
\<close>

theorem fill_directory_shares_kernel:
  assumes "vm_inv m" "direct_map m" "page_base p" "frame_of p \<notin> table_frames m"
    "page_base t" "frame_of t \<notin> table_frames m" "t < 0x400000" "p \<noteq> t"
  shows "\<exists>m'. fill_directory p t m = Some m' \<and> (\<forall>v. mmu_walk m' v = mmu_walk m v) \<and>
    recursive (m'\<lparr>cr3 := p\<rparr>) \<and>
    (\<forall>v. PD_INDEX v \<noteq> 1023 \<longrightarrow>
       mmu_walk (m'\<lparr>cr3 := p\<rparr>) v = (if v < 0xC0000000 then None else mmu_walk m v))"
  using fill_directory_shares_kernel' [OF assms] .

theorem fill_directory_shares_kernel_witness:
  "\<exists>m'. fill_directory 0xC000 0xD000 demo_vm = Some m' \<and> mmu_walk (m'\<lparr>cr3 := 0xC000\<rparr>) 0x5000 = None \<and>
     mmu_walk (m'\<lparr>cr3 := 0xC000\<rparr>) 0xC0005000 = Some 0x5000"
proof -
  have f: "frame_of 0xC000 \<notin> table_frames demo_vm" "frame_of 0xD000 \<notin> table_frames demo_vm"
    using table_frames_used [OF demo_vm_facts(1)] by (auto simp: demo_vm_facts demo16_used)
  have i: "PD_INDEX 0x5000 \<noteq> 1023" "PD_INDEX 0xC0005000 \<noteq> 1023"
    by (simp_all add: unat_inj unat_PD_INDEX)
  show ?thesis
    using fill_directory_shares_kernel [OF demo_vm_facts(1) low_direct_map [OF demo_vm_facts(2)] _ f(1) _ f(2)] i
      low_map_walk(2) [OF demo_vm_facts(2), of "0x5000"]
    by (force simp: page_base_def)
qed

lemma wr32_pmm: "wr32 m v x = Some m' \<Longrightarrow> vm_pmm m' = vm_pmm m"
  by (auto simp: wr32_def)

lemma zero_words_pmm: "zero_words n v m = Some m' \<Longrightarrow> vm_pmm m' = vm_pmm m"
  by (induction n arbitrary: v m) (auto simp: bind_eq_Some_conv dest: wr32_pmm)

lemma copy_entries_pmm: "copy_entries n i v m = Some m' \<Longrightarrow> vm_pmm m' = vm_pmm m"
  by (induction n arbitrary: i m) (auto simp: bind_eq_Some_conv dest: wr32_pmm)

lemma fill_directory_pmm: "fill_directory p t m = Some m' \<Longrightarrow> vm_pmm m' = vm_pmm m"
  by (auto simp: fill_directory_def Let_def bind_eq_Some_conv dest!: wr32_pmm zero_words_pmm copy_entries_pmm)

text \<open>
  The whole of \<^verbatim>\<open>vmm_create_page_directory\<close>, when memory for the structure and two frames are there and the
  second frame lies in the direct map; the temporary table is given back.
\<close>

lemma create_page_directory_result:
  assumes inv: "vm_inv (kvm h1)" "direct_map (kvm h1)" and k: "kmalloc 8 h = Some (h1, pd)" "pd \<noteq> NULL"
    and a: "pmm_alloc_frame (vm_pmm (kvm h1)) = (pm1, p)" "p \<noteq> 0"
    and b: "pmm_alloc_frame pm1 = (pm2, t)" "t \<noteq> 0" "t < 0x400000"
  obtains h' where "vmm_create_page_directory pds h = Some (pds(pd := (pds pd)\<lparr>physical_addr := p\<rparr>), h', pd)"
    "\<And>v. mmu_walk (kvm h') v = mmu_walk (kvm h1) v"
    "used_set (vm_pmm (kvm h')) = insert (frame_of p) (used_set (vm_pmm (kvm h1)))"
    "\<And>v. PD_INDEX v \<noteq> 1023 \<Longrightarrow> mmu_walk (vmm_switch_page_directory (PD_HEAP pd) (pds(pd := (pds pd)\<lparr>physical_addr := p\<rparr>)) (kvm h')) v =
       (if v < 0xC0000000 then None else mmu_walk (kvm h1) v)"
proof -
  note fp = pmm.alloc_frame [OF vm_invD(2) [OF inv(1)] a]
  then have z: "zero_reserved pm1" by blast
  note ft = pmm.alloc_frame [OF z b(1,2)]
  let ?m = "(kvm h1)\<lparr>vm_pmm := pm2\<rparr>"
  have "vm_inv ((kvm h1)\<lparr>vm_pmm := pm1\<rparr>)"
    by (rule vm_inv_alloc [OF inv(1) a(1)])
  then have i2: "vm_inv ?m"
    using vm_inv_alloc [of "(kvm h1)\<lparr>vm_pmm := pm1\<rparr>" pm2 t] b(1) by simp
  have d2: "direct_map ?m"
    using inv(2) by (simp add: direct_map_def)
  have fr: "frame_of p \<notin> table_frames ?m" "frame_of t \<notin> table_frames ?m" "page_base p" "page_base t" "p \<noteq> t"
    using table_frames_used [OF inv(1)] fp ft by (auto simp: page_base_nat)
  obtain m' where m': "fill_directory p t ?m = Some m'" "\<forall>v. mmu_walk m' v = mmu_walk ?m v"
    "\<forall>v. PD_INDEX v \<noteq> 1023 \<longrightarrow> mmu_walk (m'\<lparr>cr3 := p\<rparr>) v = (if v < 0xC0000000 then None else mmu_walk ?m v)"
    using fill_directory_shares_kernel' [OF i2 d2 fr(3,1,4,2) b(3) fr(5)] by blast
  have pm: "vm_pmm m' = pm2"
    using m'(1) fill_directory_pmm by fastforce
  have sw: "mmu_walk (m'\<lparr>vm_pmm := x, current_directory := y, cr3 := p\<rparr>) v = mmu_walk (m'\<lparr>cr3 := p\<rparr>) v" for x y v
    by (simp add: mmu_walk_def Let_def)
  have "used_set (pmm_free_frame t pm2) = used_set pm1"
    using pmm.alloc_free_used [OF z b(1,2)] by simp
  then show thesis
    using k a b m' fp
    by (intro that [of "h1\<lparr>kvm := m'\<lparr>vm_pmm := pmm_free_frame t pm2\<rparr>\<rparr>"])
      (simp_all add: vmm_create_page_directory_def with_pmm_def Let_def pm vmm_switch_page_directory_def sw)
qed

end
