(* ===== verification/Vma.thy ===== *)
theory Vma
  imports Addrspace Fdtable Vfs_Refs
begin

text \<open>
  Virtual memory areas of a process: \<^verbatim>\<open>mm/vma.c\<close>, the memory mapping calls of \<^verbatim>\<open>mm/mmap.c\<close> and
  \<^verbatim>\<open>syscall/sys_mem.c\<close>.  The fields \<open>vma_list\<close> and \<open>proc_pd\<close> are those of the current process, \<open>brk_start\<close>
  and \<open>current_brk\<close> the static variables of \<^verbatim>\<open>sys_brk\<close>, \<open>vma_list_head\<close> the static list of \<^verbatim>\<open>mmap.c\<close>.
  What the frame buffer driver and the shared memory objects provide are the arguments \<open>fb\<close> and \<open>shm\<close>.
  Filling a page on a fault (\<^verbatim>\<open>vma_handle_page_fault\<close>) is not part of this theory.
\<close>

section \<open>State\<close>

record vma =
  vm_start :: u32
  vm_end :: u32
  vm_flags :: u32
  vm_file_offset :: u32
  vm_fd :: int
  vm_private :: addr
  vm_next :: addr

record vm_area =
  va_start :: u32
  va_end :: u32
  va_flags :: u32
  va_prot :: u32
  va_fd :: int
  va_offset :: u32
  va_next :: addr

record mm_state =
  vs :: vst
  km :: kmap_state
  pds :: pd_store
  vma_at :: "addr \<Rightarrow> vma"
  vma_list :: addr
  proc_pd :: addr
  vm_area_at :: "addr \<Rightarrow> vm_area"
  vma_list_head :: addr
  brk_start :: addr
  current_brk :: addr

type_synonym 'a mop = "mm_state \<Rightarrow> (mm_state \<times> 'a) option"

abbreviation (input) VMA_READ :: u32 where "VMA_READ \<equiv> 0x01"
abbreviation (input) VMA_WRITE :: u32 where "VMA_WRITE \<equiv> 0x02"
abbreviation (input) VMA_EXEC :: u32 where "VMA_EXEC \<equiv> 0x04"
abbreviation (input) VMA_FILE :: u32 where "VMA_FILE \<equiv> 0x10"
abbreviation (input) VMA_SHARED :: u32 where "VMA_SHARED \<equiv> 0x20"
abbreviation (input) VMA_PRIVATE :: u32 where "VMA_PRIVATE \<equiv> 0x40"
abbreviation (input) VMA_ANONYMOUS :: u32 where "VMA_ANONYMOUS \<equiv> 0x80"

abbreviation (input) MAP_SHARED :: u32 where "MAP_SHARED \<equiv> 0x01"
abbreviation (input) MAP_FIXED :: u32 where "MAP_FIXED \<equiv> 0x10"
abbreviation (input) MAP_ANONYMOUS :: u32 where "MAP_ANONYMOUS \<equiv> 0x20"

definition cvm :: "mm_state \<Rightarrow> vm" where "cvm s = kvm (kh (vs s))"

definition set_cvm :: "vm \<Rightarrow> mm_state \<Rightarrow> mm_state" where
  "set_cvm m s = s\<lparr>vs := (vs s)\<lparr>kh := (kh (vs s))\<lparr>kvm := m\<rparr>\<rparr>\<rparr>"

definition lift_v :: "'a kop \<Rightarrow> 'a mop" where
  "lift_v f s = map_option (\<lambda>(v, x). (s\<lparr>vs := v\<rparr>, x)) (f (vs s))"

definition upd_vma :: "addr \<Rightarrow> (vma \<Rightarrow> vma) \<Rightarrow> mm_state \<Rightarrow> mm_state" where
  "upd_vma a f s = s\<lparr>vma_at := (vma_at s)(a := f (vma_at s a))\<rparr>"

definition PAGE_UP :: "u32 \<Rightarrow> u32" where "PAGE_UP x = (x + 0xFFF) AND NOT 0xFFF"

section \<open>Areas\<close>

definition vma_create :: "u32 \<Rightarrow> u32 \<Rightarrow> u32 \<Rightarrow> addr mop" where
  "vma_create start fin flags s = do {
     (s, vma) \<leftarrow> lift_v (kalloc 28) s;
     if vma = NULL then Some (s, NULL)
     else Some (upd_vma vma (\<lambda>_. \<lparr>vm_start = start AND NOT 0xFFF, vm_end = PAGE_UP fin, vm_flags = flags,
                 vm_file_offset = 0, vm_fd = - 1, vm_private = NULL, vm_next = NULL\<rparr>) s, vma)
   }"

definition vma_destroy :: "addr \<Rightarrow> unit mop" where
  "vma_destroy vma s = (if vma \<noteq> NULL then lift_v (krelease vma) s else Some (s, ()))"

definition contains :: "vma \<Rightarrow> u32 \<Rightarrow> bool" where
  "contains v a \<longleftrightarrow> a \<ge> vm_start v \<and> a < vm_end v"

partial_function (option) vma_find :: "(addr \<Rightarrow> vma) \<Rightarrow> addr \<Rightarrow> u32 \<Rightarrow> addr option" where
  "vma_find mem vma a =
     (if vma = NULL then Some NULL
      else if contains (mem vma) a then Some vma
      else vma_find mem (vm_next (mem vma)) a)"

definition vma_add :: "addr \<Rightarrow> mm_state \<Rightarrow> mm_state" where
  "vma_add vma s =
     (if vma = NULL then s
      else (upd_vma vma (\<lambda>v. v\<lparr>vm_next := vma_list s\<rparr>) s)\<lparr>vma_list := vma\<rparr>)"

partial_function (option) remove_loop :: "addr \<Rightarrow> addr \<Rightarrow> addr \<Rightarrow> mm_state \<Rightarrow> mm_state option" where
  "remove_loop vma prev cur s =
     (if cur = NULL then Some s
      else if cur = vma then
        if prev \<noteq> NULL then Some (upd_vma prev (\<lambda>v. v\<lparr>vm_next := vm_next (vma_at s cur)\<rparr>) s)
        else Some (s\<lparr>vma_list := vm_next (vma_at s cur)\<rparr>)
      else remove_loop vma cur (vm_next (vma_at s cur)) s)"

definition vma_remove :: "addr \<Rightarrow> mm_state \<Rightarrow> mm_state option" where
  "vma_remove vma s = (if vma = NULL then Some s else remove_loop vma NULL (vma_list s) s)"

partial_function (option) vma_destroy_all :: "addr \<Rightarrow> mm_state \<Rightarrow> mm_state option" where
  "vma_destroy_all lst s =
     (if lst = NULL then Some s
      else let nxt = vm_next (vma_at s lst)
           in Option.bind (vma_destroy lst s) (\<lambda>(s, _). vma_destroy_all nxt s))"

section \<open>Mapping\<close>

partial_function (option) free_vaddr_loop :: "(addr \<Rightarrow> vm_area) \<Rightarrow> u32 \<Rightarrow> addr \<Rightarrow> u32 \<Rightarrow> u32 option" where
  "free_vaddr_loop mem bytes vma cur =
     (if vma = NULL then Some (if cur + bytes \<le> 0x80000000 then cur else 0)
      else if cur + bytes \<le> va_start (mem vma) then Some cur
      else free_vaddr_loop mem bytes (va_next (mem vma)) (PAGE_UP (va_end (mem vma))))"

definition find_free_vaddr :: "u32 \<Rightarrow> mm_state \<Rightarrow> u32 option" where
  "find_free_vaddr bytes s = free_vaddr_loop (vm_area_at s) bytes (vma_list_head s) 0x40000000"

datatype map_kind = Plain | Device | Shm addr

definition map_kind_of :: "(addr \<Rightarrow> addr) \<Rightarrow> u32 \<Rightarrow> int \<Rightarrow> mm_state \<Rightarrow> map_kind" where
  "map_kind_of shm flags fd s =
     (if flags AND MAP_ANONYMOUS = 0 \<and> fd \<ge> 0 \<and> current (vs s) \<and> cur_fdt (vs s) \<noteq> NULL \<and>
         fd < int MAX_FILES_PER_PROCESS then
        let file = files (fdt_at (vs s) (cur_fdt (vs s))) ! nat fd; f = file_at (vs s) file in
        if file = NULL then Plain
        else if fpriv f \<noteq> NULL \<and> finode f = NULL then Shm (shm (fpriv f))
        else if finode f \<noteq> NULL \<and> drop_bit 20 (rdev (inode_at (vs s) (finode f))) = 29 then Device
        else Plain
      else Plain)"

definition prot_flags :: "u32 \<Rightarrow> u32" where
  "prot_flags prot =
     (if prot AND 1 \<noteq> 0 then VMA_READ else 0) OR (if prot AND 2 \<noteq> 0 then VMA_WRITE else 0) OR
     (if prot AND 4 \<noteq> 0 then VMA_EXEC else 0)"

definition lazy_flags :: "map_kind \<Rightarrow> u32 \<Rightarrow> u32 \<Rightarrow> u32" where
  "lazy_flags kind prot flags =
     prot_flags prot OR
     (if flags AND MAP_ANONYMOUS \<noteq> 0 then VMA_ANONYMOUS else if kind = Device then VMA_ANONYMOUS else VMA_FILE) OR
     (if flags AND MAP_SHARED \<noteq> 0 then VMA_SHARED else VMA_PRIVATE)"

text \<open>The mapping of a process: an area whose pages are allocated on demand.\<close>

definition mmap_lazy :: "u32 \<Rightarrow> map_kind \<Rightarrow> u32 \<Rightarrow> u32 \<Rightarrow> u32 \<Rightarrow> u32 \<Rightarrow> int \<Rightarrow> u32 \<Rightarrow> u32 mop" where
  "mmap_lazy fb kind vaddr len prot flags fd offset s = do {
     (s, vma) \<leftarrow> vma_create vaddr (vaddr + len) (lazy_flags kind prot flags) s;
     if vma = NULL then Some (s, word_of_int (- ENOMEM))
     else let s = (if flags AND MAP_ANONYMOUS = 0 then
                     let s = upd_vma vma (\<lambda>v. v\<lparr>vm_fd := fd, vm_file_offset := offset\<rparr>) s in
                     case kind of
                       Device \<Rightarrow> if fb \<noteq> 0 then upd_vma vma (\<lambda>v. v\<lparr>vm_private := fb\<rparr>) s else s
                     | Shm d \<Rightarrow> if d \<noteq> NULL then upd_vma vma (\<lambda>v. v\<lparr>vm_private := d\<rparr>) s else s
                     | Plain \<Rightarrow> s
                   else s)
          in Some (vma_add vma s, vaddr)
   }"

text \<open>The mapping made without a current process: every page gets a cleared frame at once.\<close>

partial_function (option) immediate_loop :: "page_directory \<Rightarrow> u32 \<Rightarrow> addr \<Rightarrow> u32 \<Rightarrow> u32 \<Rightarrow> u32 \<Rightarrow> mm_state \<Rightarrow> (mm_state \<times> u32) option" where
  "immediate_loop pd pflags vma vaddr va stop s =
     (if va < stop then
        (case pmm_alloc_frame (vm_pmm (cvm s)) of
           (pm, paddr) \<Rightarrow>
             let s = set_cvm ((cvm s)\<lparr>vm_pmm := pm\<rparr>) s in
             if paddr = 0 then Option.bind (lift_v (krelease vma) s) (\<lambda>(s, _). Some (s, word_of_int (- ENOMEM)))
             else Option.bind (if paddr < 0x400000 then zero_words 1024 (paddr + 0xC0000000) (cvm s) else Some (cvm s))
               (\<lambda>m. Option.bind (vmm_map_page_in_directory (Some pd) va paddr pflags (km s) m)
                  (\<lambda>(k, m). immediate_loop pd pflags vma vaddr (va + 4096) stop ((set_cvm m s)\<lparr>km := k\<rparr>))))
      else Some (s, vaddr))"

definition mmap_immediate :: "u32 \<Rightarrow> u32 \<Rightarrow> u32 \<Rightarrow> u32 \<Rightarrow> int \<Rightarrow> u32 \<Rightarrow> u32 mop" where
  "mmap_immediate vaddr len prot flags fd offset s = do {
     (s, vma) \<leftarrow> lift_v (kalloc 28) s;
     if vma = NULL then Some (s, word_of_int (- ENOMEM))
     else let s = s\<lparr>vm_area_at := (vm_area_at s)(vma := \<lparr>va_start = vaddr, va_end = vaddr + len, va_flags = flags,
                      va_prot = prot, va_fd = fd, va_offset = offset, va_next = vma_list_head s\<rparr>),
                    vma_list_head := vma\<rparr>;
              pflags = 0x05 OR (if prot AND 2 \<noteq> 0 then 0x02 else 0)
          in case vmm_get_current_page_directory (cvm s) of
               PD_NULL \<Rightarrow> do { (s, _) \<leftarrow> lift_v (krelease vma) s; Some (s, word_of_int (- EINVAL)) }
             | PD_KERNEL \<Rightarrow> immediate_loop (kernel_directory (cvm s)) pflags vma vaddr vaddr (vaddr + len) s
             | PD_HEAP a \<Rightarrow> immediate_loop (pds s a) pflags vma vaddr vaddr (vaddr + len) s
   }"

definition mmap_impl :: "u32 \<Rightarrow> (addr \<Rightarrow> addr) \<Rightarrow> u32 \<Rightarrow> u32 \<Rightarrow> u32 \<Rightarrow> u32 \<Rightarrow> int \<Rightarrow> u32 \<Rightarrow> u32 mop" where
  "mmap_impl fb shm addr len prot flags fd offset s =
     (let kind = map_kind_of shm flags fd s in
      if len = 0 then Some (s, word_of_int (- EINVAL))
      else let len = PAGE_UP len in
        if flags AND MAP_FIXED \<noteq> 0 then
          if addr = 0 \<or> addr AND 0xFFF \<noteq> 0 then Some (s, word_of_int (- EINVAL))
          else if current (vs s) then mmap_lazy fb kind addr len prot flags fd offset s
          else mmap_immediate addr len prot flags fd offset s
        else do {
          vaddr \<leftarrow> find_free_vaddr len s;
          if vaddr = 0 then Some (s, word_of_int (- ENOMEM))
          else if current (vs s) then mmap_lazy fb kind vaddr len prot flags fd offset s
          else mmap_immediate vaddr len prot flags fd offset s
        })"

definition cur_pd :: "mm_state \<Rightarrow> page_directory option" where
  "cur_pd s = (if proc_pd s = NULL then None else Some (pds s (proc_pd s)))"

text \<open>The loop that releases the pages of a range.\<close>

partial_function (option) release_loop :: "bool \<Rightarrow> u32 \<Rightarrow> u32 \<Rightarrow> mm_state \<Rightarrow> mm_state option" where
  "release_loop priv va stop s =
     (if va < stop then
        Option.bind (vmm_virt_to_phys_in_directory (cur_pd s) va (cvm s))
          (\<lambda>paddr. if paddr \<noteq> 0 then
              let m = (if priv then (cvm s)\<lparr>vm_pmm := pmm_free_frame paddr (vm_pmm (cvm s))\<rparr> else cvm s)
              in Option.bind (vmm_unmap_page va m) (\<lambda>m. release_loop priv (va + 4096) stop (set_cvm m s))
            else release_loop priv (va + 4096) stop s)
      else Some s)"

definition munmap_impl :: "u32 \<Rightarrow> u32 \<Rightarrow> int mop" where
  "munmap_impl vaddr len s =
     (if vaddr = 0 \<or> vaddr AND 0xFFF \<noteq> 0 \<or> len = 0 then Some (s, - EINVAL)
      else let len = PAGE_UP len in
      if \<not> current (vs s) \<or> proc_pd s = NULL then Some (s, - EINVAL)
      else do {
        vma \<leftarrow> vma_find (vma_at s) (vma_list s) vaddr;
        if vma = NULL then Some (s, - EINVAL)
        else do {
          s \<leftarrow> release_loop (vm_flags (vma_at s vma) AND VMA_PRIVATE \<noteq> 0) vaddr (vaddr + len) s;
          s \<leftarrow> vma_remove vma s;
          (s, _) \<leftarrow> vma_destroy vma s;
          Some (s, 0)
        }
      })"

partial_function (option) protect_loop :: "u32 \<Rightarrow> u32 \<Rightarrow> u32 \<Rightarrow> mm_state \<Rightarrow> mm_state option" where
  "protect_loop pflags va stop s =
     (if va < stop then
        Option.bind (vmm_virt_to_phys_in_directory (cur_pd s) va (cvm s))
          (\<lambda>paddr. if paddr \<noteq> 0 then
              Option.bind (vmm_map_page_in_directory (cur_pd s) va paddr pflags (km s) (cvm s))
                (\<lambda>(k, m). protect_loop pflags (va + 4096) stop ((set_cvm m s)\<lparr>km := k\<rparr>))
            else protect_loop pflags (va + 4096) stop s)
      else Some s)"

definition sys_mprotect :: "u32 \<Rightarrow> u32 \<Rightarrow> u32 \<Rightarrow> int mop" where
  "sys_mprotect vaddr len prot s =
     (if vaddr = 0 \<or> vaddr AND 0xFFF \<noteq> 0 \<or> len = 0 then Some (s, - EINVAL)
      else let len = PAGE_UP len in
      if \<not> current (vs s) \<or> proc_pd s = NULL then Some (s, - EINVAL)
      else do {
        vma \<leftarrow> vma_find (vma_at s) (vma_list s) vaddr;
        if vma = NULL \<or> vaddr + len > vm_end (vma_at s vma) then Some (s, - ENOMEM)
        else do {
          let s = upd_vma vma (\<lambda>v. v\<lparr>vm_flags := (vm_flags v AND NOT 7) OR prot_flags prot\<rparr>) s;
          s \<leftarrow> protect_loop (0x05 OR (if prot AND 2 \<noteq> 0 then 0x02 else 0)) vaddr (vaddr + len) s;
          Some (s, 0)
        }
      })"

section \<open>System calls\<close>

text \<open>The first call sets the start of the heap; both variables are shared by all processes.\<close>

definition brk_init :: "mm_state \<Rightarrow> mm_state" where
  "brk_init s = (if brk_start s = NULL then s\<lparr>brk_start := 0x10000000, current_brk := 0x10000000\<rparr> else s)"

definition brk_grow :: "u32 \<Rightarrow> u32 \<Rightarrow> bool mop" where
  "brk_grow old_brk new_brk s = do {
     existing \<leftarrow> vma_find (vma_at s) (vma_list s) old_brk;
     if existing \<noteq> NULL \<and> vm_start (vma_at s existing) = brk_start s
     then Some (upd_vma existing (\<lambda>v. v\<lparr>vm_end := new_brk\<rparr>) s, True)
     else do {
       (s, heap_vma) \<leftarrow> vma_create old_brk new_brk (VMA_READ OR VMA_WRITE OR VMA_ANONYMOUS) s;
       if heap_vma \<noteq> NULL
       then Some (vma_add heap_vma (upd_vma heap_vma (\<lambda>v. v\<lparr>vm_fd := - 1\<rparr>) s), True)
       else Some (s, False)
     }
   }"

definition brk_shrink :: "u32 \<Rightarrow> u32 \<Rightarrow> mm_state \<Rightarrow> mm_state option" where
  "brk_shrink old_brk new_brk s = do {
     vma \<leftarrow> vma_find (vma_at s) (vma_list s) (old_brk - 4096);
     if vma \<noteq> NULL \<and> vm_start (vma_at s vma) = brk_start s
     then release_loop True new_brk old_brk (upd_vma vma (\<lambda>v. v\<lparr>vm_end := new_brk\<rparr>) s)
     else Some s
   }"

definition sys_brk :: "u32 \<Rightarrow> u32 mop" where
  "sys_brk addr s =
     (if \<not> current (vs s) then Some (s, - 1)
      else let s = brk_init s in
      if addr = NULL then Some (s, current_brk s)
      else if addr < brk_start s then Some (s, current_brk s)
      else if addr \<ge> 0xC0000000 then Some (s, current_brk s)
      else let new_brk = PAGE_UP addr; old_brk = PAGE_UP (current_brk s) in
      if new_brk > old_brk then do {
        (s, ok) \<leftarrow> brk_grow old_brk new_brk s;
        if ok then Some (s\<lparr>current_brk := addr\<rparr>, addr) else Some (s, current_brk s)
      }
      else if new_brk < old_brk then do {
        s \<leftarrow> brk_shrink old_brk new_brk s;
        Some (s\<lparr>current_brk := addr\<rparr>, addr)
      }
      else Some (s\<lparr>current_brk := addr\<rparr>, addr))"

text \<open>The six arguments are read through a temporary mapping of the page that holds them.\<close>

fun read_args :: "nat \<Rightarrow> u32 \<Rightarrow> vm \<Rightarrow> u32 list option" where
  "read_args 0 p m = Some []"
| "read_args (Suc n) p m = do { x \<leftarrow> rd32 m p; xs \<leftarrow> read_args n (p + 4) m; Some (x # xs) }"

definition sys_mmap :: "u32 \<Rightarrow> (addr \<Rightarrow> addr) \<Rightarrow> u32 \<Rightarrow> u32 mop" where
  "sys_mmap fb shm args_ptr s =
     (if current (vs s) \<and> proc_pd s \<noteq> NULL \<and> args_ptr \<ge> 0x08000000 \<and> args_ptr < 0xC0000000 then do {
        args_phys \<leftarrow> vmm_virt_to_phys_in_directory (cur_pd s) args_ptr (cvm s);
        if args_phys = 0 then Some (s, word_of_int (- EFAULT))
        else do {
          (k, m, mapped) \<leftarrow> kmap args_phys (km s) (cvm s);
          let s = (set_cvm m s)\<lparr>km := k\<rparr>;
          if mapped = NULL then Some (s, word_of_int (- EFAULT))
          else do {
            a \<leftarrow> read_args 6 mapped (cvm s);
            (k, m) \<leftarrow> kunmap mapped (km s) (cvm s);
            mmap_impl fb shm (a ! 0) (a ! 1) (a ! 2) (a ! 3) (sint (a ! 4)) (a ! 5) ((set_cvm m s)\<lparr>km := k\<rparr>)
          }
        }
      }
      else Some (s, word_of_int (- EINVAL)))"

definition sys_munmap :: "u32 \<Rightarrow> u32 \<Rightarrow> int mop" where
  "sys_munmap vaddr len s = munmap_impl vaddr len s"

section \<open>The list of areas\<close>

text \<open>\<open>vlist mem p as\<close>: the list that starts at \<open>p\<close> has the nodes \<open>as\<close>.\<close>

fun vlist :: "(addr \<Rightarrow> vma) \<Rightarrow> addr \<Rightarrow> addr list \<Rightarrow> bool" where
  "vlist mem p [] \<longleftrightarrow> p = NULL"
| "vlist mem p (a # as) \<longleftrightarrow> p = a \<and> a \<noteq> NULL \<and> vlist mem (vm_next (mem a)) as"

lemma vlist_cong: "(\<And>a. a \<in> set as \<Longrightarrow> vm_next (mem' a) = vm_next (mem a)) \<Longrightarrow> vlist mem' p as = vlist mem p as"
  by (induction as arbitrary: p) auto

lemma vma_find_list:
  "vlist mem p as \<Longrightarrow>
   vma_find mem p x = Some (case find (\<lambda>a. contains (mem a) x) as of None \<Rightarrow> NULL | Some a \<Rightarrow> a)"
  by (induction as arbitrary: p) (auto simp: vma_find.simps)

lemma find_found: "find P xs = Some x \<Longrightarrow> x \<in> set xs \<and> P x"
  by (auto simp: find_Some_iff)

lemma find_exists: "x \<in> set xs \<Longrightarrow> P x \<Longrightarrow> \<exists>y. find P xs = Some y \<and> y \<in> set xs \<and> P y"
  by (induction xs) auto

lemma vlist_not_null: "vlist mem p as \<Longrightarrow> a \<in> set as \<Longrightarrow> a \<noteq> NULL"
  by (induction as arbitrary: p) auto

lemma vma_find_mem:
  assumes "vlist mem p as" "a \<in> set as" "contains (mem a) x"
  shows "\<exists>b \<in> set as. vma_find mem p x = Some b \<and> contains (mem b) x \<and> b \<noteq> NULL"
  using vma_find_list [OF assms(1), of x] find_exists [OF assms(2), of "\<lambda>a. contains (mem a) x"] assms(3)
    vlist_not_null [OF assms(1)] by auto

section \<open>Properties\<close>

lemma kalloc_frame: "kalloc n v = Some (v', p) \<Longrightarrow> \<exists>h. v' = v\<lparr>kh := h\<rparr>"
  by (auto simp: kalloc_def)

text \<open>A new area stands at the head of the list and changes no other area.\<close>

lemma vma_create_result:
  assumes "vma_create start fin flags s = Some (s', x)" "vlive (vs s) L" "x \<noteq> NULL"
  obtains v m where "L x = None" "vlive v (L(x \<mapsto> m))" "current v = current (vs s)"
    "s' = upd_vma x (\<lambda>_. \<lparr>vm_start = start AND NOT 0xFFF, vm_end = PAGE_UP fin, vm_flags = flags,
                 vm_file_offset = 0, vm_fd = - 1, vm_private = NULL, vm_next = NULL\<rparr>) (s\<lparr>vs := v\<rparr>)"
proof -
  obtain v where k: "kalloc 28 (vs s) = Some (v, x)"
    and s': "s' = upd_vma x (\<lambda>_. \<lparr>vm_start = start AND NOT 0xFFF, vm_end = PAGE_UP fin, vm_flags = flags,
                 vm_file_offset = 0, vm_fd = - 1, vm_private = NULL, vm_next = NULL\<rparr>) (s\<lparr>vs := v\<rparr>)"
    using assms(1,3) by (auto simp: vma_create_def lift_v_def bind_eq_Some_conv split: if_splits)
  obtain m where m: "L x = None" "vlive v (L(x \<mapsto> m))"
    using kobj.alloc_new [OF assms(2) _ k assms(3)] by auto
  have "current v = current (vs s)"
    using kalloc_frame [OF k] by auto
  with m s' show thesis by (intro that)
qed

lemma mmap_lazy_result:
  assumes m: "mmap_lazy fb kind vaddr len prot flags fd off s = Some (s', r)" "r \<noteq> word_of_int (- ENOMEM)" and l: "vlive (vs s) L"
  obtains x k where "r = vaddr" "vma_list s' = x" "vm_next (vma_at s' x) = vma_list s" "L x = None"
    "vlive (vs s') (L(x \<mapsto> k))" "x \<noteq> NULL" "vm_start (vma_at s' x) = vaddr AND NOT 0xFFF"
    "vm_end (vma_at s' x) = PAGE_UP (vaddr + len)"
    "\<And>a. a \<noteq> x \<Longrightarrow> vma_at s' a = vma_at s a" "current (vs s') = current (vs s)" "vma_list_head s' = vma_list_head s"
proof -
  obtain s0 x where c: "vma_create vaddr (vaddr + len) (lazy_flags kind prot flags) s = Some (s0, x)"
    using m(1) by (auto simp: mmap_lazy_def bind_eq_Some_conv)
  have x: "x \<noteq> NULL"
    using m c by (auto simp: mmap_lazy_def)
  obtain v k where v: "L x = None" "vlive v (L(x \<mapsto> k))" "current v = current (vs s)"
    "s0 = upd_vma x (\<lambda>_. \<lparr>vm_start = vaddr AND NOT 0xFFF, vm_end = PAGE_UP (vaddr + len), vm_flags = lazy_flags kind prot flags,
                 vm_file_offset = 0, vm_fd = - 1, vm_private = NULL, vm_next = NULL\<rparr>) (s\<lparr>vs := v\<rparr>)"
    by (rule vma_create_result [OF c l x]) (rule that; assumption)
  obtain g where s': "s' = vma_add x (upd_vma x g s0)" "r = vaddr" and
    g: "\<And>w. vm_start (g w) = vm_start w" "\<And>w. vm_end (g w) = vm_end w"
  proof (cases "flags AND MAP_ANONYMOUS = 0")
    case False
    with m(1) c x show thesis
      by (intro that [of "\<lambda>w. w"]) (simp_all add: mmap_lazy_def upd_vma_def)
  next
    case True
    define p where "p = (case kind of Device \<Rightarrow> fb | Shm d \<Rightarrow> d | Plain \<Rightarrow> 0)"
    define f where "f w = w\<lparr>vm_fd := fd, vm_file_offset := off\<rparr>" for w :: vma
    have u: "upd_vma x h (upd_vma x f s0) = upd_vma x (\<lambda>w. h (f w)) s0" for h
      by (simp add: upd_vma_def)
    have q: "s' = vma_add x (case kind of
                       Device \<Rightarrow> if fb \<noteq> 0 then upd_vma x (\<lambda>v. v\<lparr>vm_private := fb\<rparr>) (upd_vma x f s0) else upd_vma x f s0
                     | Shm d \<Rightarrow> if d \<noteq> NULL then upd_vma x (\<lambda>v. v\<lparr>vm_private := d\<rparr>) (upd_vma x f s0) else upd_vma x f s0
                     | Plain \<Rightarrow> upd_vma x f s0) \<and> r = vaddr"
      using m(1) c x True unfolding mmap_lazy_def Let_def f_def by simp
    have "s' = vma_add x (if p \<noteq> 0 then upd_vma x (\<lambda>v. v\<lparr>vm_private := p\<rparr>) (upd_vma x f s0) else upd_vma x f s0)"
      "r = vaddr"
      using q by (cases kind; simp add: p_def)+
    then show thesis
      by (intro that [of "\<lambda>w. if p \<noteq> 0 then (f w)\<lparr>vm_private := p\<rparr> else f w"]) (cases "p = 0"; simp add: u; simp add: f_def)+
  qed
  show thesis
    using x v(1-3) by (intro that [of x k]) (simp_all add: s' v(4) vma_add_def upd_vma_def g)
qed

lemma unat_PAGE_UP: "unat x \<le> 4294963200 \<Longrightarrow> unat (PAGE_UP x) = (unat x + 4095) div 4096 * 4096"
  by (simp add: PAGE_UP_def page_mask and_numeral_page_mask unat_word_ariths)

lemma page_up_numbers:
  assumes "0 < len" "len \<le> 0x40000000"
  shows "len \<le> PAGE_UP len" "PAGE_UP len \<le> 0x40000000" "PAGE_UP (0x40000000 + PAGE_UP len) = 0x40000000 + PAGE_UP len"
    "0x40000000 + PAGE_UP len \<le> 0x80000000" "0x40000000 < 0x40000000 + PAGE_UP len"
proof -
  have n: "0 < unat len" "unat len \<le> 1073741824"
    using assms by (simp_all add: word_le_nat_alt word_less_nat_alt)
  then have u: "unat (PAGE_UP len) = (unat len + 4095) div 4096 * 4096"
    by (intro unat_PAGE_UP) simp
  have "(unat len + 4095) div 4096 \<le> 262144"
    using div_le_mono [of "unat len + 4095" 1073745919 4096] n by simp
  moreover have "unat len + 4095 < (unat len + 4095) div 4096 * 4096 + 4096"
    using dividend_less_div_times [of 4096 "unat len + 4095"] by simp
  ultimately have b: "unat len \<le> unat (PAGE_UP len)" "unat (PAGE_UP len) \<le> 1073741824"
    unfolding u by linarith+
  have s: "unat (0x40000000 + PAGE_UP len) = 1073741824 + unat (PAGE_UP len)"
    using b by (simp add: unat_word_ariths)
  show "len \<le> PAGE_UP len" "PAGE_UP len \<le> 0x40000000" "0x40000000 + PAGE_UP len \<le> 0x80000000"
    "0x40000000 < 0x40000000 + PAGE_UP len"
    using n b s by (simp_all add: word_le_nat_alt word_less_nat_alt)
  have "unat (PAGE_UP (0x40000000 + PAGE_UP len)) = (1073741824 + unat (PAGE_UP len) + 4095) div 4096 * 4096"
    using unat_PAGE_UP [of "0x40000000 + PAGE_UP len"] s b by simp
  also have "\<dots> = 1073741824 + unat (PAGE_UP len)"
  proof -
    have "(1073741824 + q * 4096 + 4095) div 4096 * 4096 = 1073741824 + q * 4096" for q :: nat
      by simp
    then show ?thesis unfolding u .
  qed
  finally show "PAGE_UP (0x40000000 + PAGE_UP len) = 0x40000000 + PAGE_UP len"
    unfolding unat_inj s by simp
qed

lemma mmap_impl_process:
  assumes "current (vs s)" "vma_list_head s = NULL" "flags AND MAP_FIXED = 0" "0 < len" "len \<le> 0x40000000"
  shows "mmap_impl fb shm addr len prot flags fd off s =
    mmap_lazy fb (map_kind_of shm flags fd s) 0x40000000 (PAGE_UP len) prot flags fd off s"
  using assms page_up_numbers [OF assms(4,5)]
  by (auto simp: mmap_impl_def find_free_vaddr_def free_vaddr_loop.simps Let_def)

text \<open>
  Two mappings that a process asks for without fixing the address are given the same address
  range: the search for a free range reads the list of the kernel's own mappings, where the areas
  of a process never appear.  The second area hides the first.
\<close>

theorem mmap_same_range:
  assumes "vlive (vs s) L" "current (vs s)" "vma_list_head s = NULL"
    and f: "flags AND MAP_FIXED = 0" "0 < len" "len \<le> 0x40000000"
    and f': "flags' AND MAP_FIXED = 0" "0 < len'" "len' \<le> 0x40000000"
    and m: "mmap_impl fb shm addr len prot flags fd off s = Some (s1, a)" "a \<noteq> word_of_int (- ENOMEM)"
    and m': "mmap_impl fb shm addr' len' prot' flags' fd' off' s1 = Some (s2, b)" "b \<noteq> word_of_int (- ENOMEM)"
  shows "a = 0x40000000 \<and> b = 0x40000000 \<and>
    (\<exists>x y. x \<noteq> y \<and> vma_list s2 = y \<and> vm_next (vma_at s2 y) = x \<and> contains (vma_at s2 x) 0x40000000 \<and>
       contains (vma_at s2 y) 0x40000000 \<and> vma_find (vma_at s2) (vma_list s2) 0x40000000 = Some y)"
proof -
  note n = page_up_numbers [OF f(2,3)] and n' = page_up_numbers [OF f'(2,3)]
  obtain x k where x: "a = 0x40000000" "vma_list s1 = x" "x \<noteq> NULL" "vlive (vs s1) (L(x \<mapsto> k))"
    "vm_start (vma_at s1 x) = 0x40000000 AND NOT 0xFFF" "vm_end (vma_at s1 x) = PAGE_UP (0x40000000 + PAGE_UP len)"
    "current (vs s1)" "vma_list_head s1 = NULL"
    by (rule mmap_lazy_result [OF m(1) [unfolded mmap_impl_process [OF assms(2,3) f]] m(2) assms(1)])
      (rule that; simp add: assms(2,3))
  obtain y j where y: "b = 0x40000000" "vma_list s2 = y" "vm_next (vma_at s2 y) = x" "y \<noteq> NULL" "(L(x \<mapsto> k)) y = None"
    "vm_start (vma_at s2 y) = 0x40000000 AND NOT 0xFFF" "vm_end (vma_at s2 y) = PAGE_UP (0x40000000 + PAGE_UP len')"
    "\<And>a. a \<noteq> y \<Longrightarrow> vma_at s2 a = vma_at s1 a"
    by (rule mmap_lazy_result [OF m'(1) [unfolded mmap_impl_process [OF x(7,8) f']] m'(2) x(4)])
      (rule that; simp add: x(2))
  have "y \<noteq> x"
    using y(5) by auto
  moreover have "contains (vma_at s2 x) 0x40000000" "contains (vma_at s2 y) 0x40000000"
    using x(5,6) y(6,7,8) \<open>y \<noteq> x\<close> n n' by (simp_all add: contains_def)
  ultimately show ?thesis
    using x(1) y by (simp add: vma_find.simps)
qed

definition zero_vma :: vma where
  "zero_vma = \<lparr>vm_start = 0, vm_end = 0, vm_flags = 0, vm_file_offset = 0, vm_fd = 0, vm_private = 0, vm_next = 0\<rparr>"

definition demo_mm :: mm_state where
  "demo_mm = \<lparr>vs = demo_vst, km = demo_kmap, pds = (\<lambda>_. \<lparr>physical_addr = 0, pd_entries = 0\<rparr>), vma_at = (\<lambda>_. zero_vma),
     vma_list = 0, proc_pd = 0,
     vm_area_at = (\<lambda>_. \<lparr>va_start = 0, va_end = 0, va_flags = 0, va_prot = 0, va_fd = 0, va_offset = 0, va_next = 0\<rparr>),
     vma_list_head = 0, brk_start = 0, current_brk = 0\<rparr>"

lemma demo_mm_live: "vlive (vs demo_mm) [0xD0000014 \<mapsto> 104]" "heap_rel (kh (vs demo_mm)) [(0xD0000000, 124, True), (0xD000007C, 3972, False)]"
  using demo_heap3_rel
  by (auto simp: demo_mm_def demo_vst_def vlive_def demo_heap4_def heap_live_def live_map_def heap_rel_payload)

lemma demo_mm_alloc:
  obtains h h' where "kalloc 28 (vs demo_mm) = Some ((vs demo_mm)\<lparr>kh := h\<rparr>, 0xD0000090)"
    "kalloc 28 ((vs demo_mm)\<lparr>kh := h\<rparr>) = Some ((vs demo_mm)\<lparr>kh := h'\<rparr>, 0xD00000C4)"
proof -
  let ?b0 = "[(0xD0000000, 124, True), (0xD000007C, 3972, False)] :: blk list"
  let ?b1 = "[(0xD0000000, 124, True), (0xD000007C, 52, True), (0xD00000B0, 3920, False)] :: blk list"
  have e: "request 28 = 52"
    by (simp add: request_def)
  have al: "alloc_list 52 ?b0 = Some (0xD0000090, ?b1)" "\<exists>bs. alloc_list 52 ?b1 = Some (0xD00000C4, bs)"
    by (simp_all add: fits_def carve_def)
  obtain h where h: "kmalloc 28 (kh (vs demo_mm)) = Some (h, 0xD0000090)" "heap_rel h ?b1"
    using kmalloc_fit [OF demo_mm_live(2), of 28 "0xD0000090"] al(1) by (auto simp: e simp del: alloc_list.simps)
  obtain h' where h': "kmalloc 28 h = Some (h', 0xD00000C4)"
    using kmalloc_fit [OF h(2), of 28 "0xD00000C4"] al(2) by (auto simp: e simp del: alloc_list.simps)
  show thesis
    using h(1) h' by (intro that [of h h']) (simp_all add: kalloc_def)
qed

theorem mmap_same_range_witness:
  "\<exists>s1 s2. mmap_impl 0 (\<lambda>_. 0) 0 0x2000 3 0x22 (- 1) 0 demo_mm = Some (s1, 0x40000000) \<and>
     mmap_impl 0 (\<lambda>_. 0) 0 0x1000 3 0x22 (- 1) 0 s1 = Some (s2, 0x40000000) \<and>
     vma_find (vma_at s2) (vma_list s2) 0x40000000 = Some (vma_list s2)"
proof -
  obtain h h' where k: "kalloc 28 (vs demo_mm) = Some ((vs demo_mm)\<lparr>kh := h\<rparr>, 0xD0000090)"
    "kalloc 28 ((vs demo_mm)\<lparr>kh := h\<rparr>) = Some ((vs demo_mm)\<lparr>kh := h'\<rparr>, 0xD00000C4)"
    by (rule demo_mm_alloc)
  have c: "current (vs demo_mm)" "vma_list_head demo_mm = NULL"
    by (simp_all add: demo_mm_def demo_vst_def)
  obtain s1 where s1: "mmap_impl 0 (\<lambda>_. 0) 0 0x2000 3 0x22 (- 1) 0 demo_mm = Some (s1, 0x40000000)"
    "vs s1 = (vs demo_mm)\<lparr>kh := h\<rparr>" "vma_list_head s1 = NULL"
    using k(1) c by (auto simp: mmap_impl_process mmap_lazy_def vma_create_def lift_v_def vma_add_def upd_vma_def Let_def)
  then obtain s2 where s2: "mmap_impl 0 (\<lambda>_. 0) 0 0x1000 3 0x22 (- 1) 0 s1 = Some (s2, 0x40000000)"
    using k(2) c by (auto simp: mmap_impl_process mmap_lazy_def vma_create_def lift_v_def vma_add_def upd_vma_def Let_def)
  show ?thesis
    using s1(1) s2 mmap_same_range [OF demo_mm_live(1) c _ _ _ _ _ _ s1(1) _ s2] by auto
qed

section \<open>The program break\<close>

lemma unat_PAGE_UP_up: "unat x \<le> 4294963200 \<Longrightarrow> PAGE_UP (PAGE_UP x) = PAGE_UP x"
proof -
  assume x: "unat x \<le> 4294963200"
  have u: "unat (PAGE_UP x) = (unat x + 4095) div 4096 * 4096"
    by (rule unat_PAGE_UP [OF x])
  moreover have "(unat x + 4095) div 4096 \<le> 1048575"
    using div_le_mono [of "unat x + 4095" 4294967295 4096] x by simp
  ultimately have "unat (PAGE_UP x) \<le> 4294963200" by simp
  from unat_PAGE_UP [OF this] show ?thesis
    unfolding unat_inj by (simp add: u)
qed

lemma PAGE_UP_aligned: "PAGE_UP x AND NOT 0xFFF = PAGE_UP x"
  by (simp add: PAGE_UP_def and.assoc)

lemma vlist_upd:
  "vm_next (f (mem b)) = vm_next (mem b) \<Longrightarrow> vlist (mem(b := f (mem b))) p as = vlist mem p as"
  by (rule vlist_cong) auto

lemma vlist_fresh: "x \<notin> set as \<Longrightarrow> vlist (mem(x := v)) p as = vlist mem p as"
  by (rule vlist_cong) auto

lemma brk_grow_covers:
  assumes "brk_grow old new s = Some (s', True)" "vlive (vs s) L" "vlist (vma_at s) (vma_list s) as" "\<forall>a\<in>set as. L a \<noteq> None"
    and al: "old AND NOT 0xFFF = old" "PAGE_UP new = new" and a: "old \<le> a" "a < new"
  shows "\<exists>v. vma_find (vma_at s') (vma_list s') a = Some v \<and> v \<noteq> NULL \<and> contains (vma_at s' v) a"
proof -
  obtain e where e: "vma_find (vma_at s) (vma_list s) old = Some e"
    using vma_find_list [OF assms(3)] by blast
  show ?thesis
  proof (cases "e \<noteq> NULL \<and> vm_start (vma_at s e) = brk_start s")
    case True
    have s': "s' = upd_vma e (\<lambda>v. v\<lparr>vm_end := new\<rparr>) s"
      using assms(1) e True by (simp add: brk_grow_def)
    have em: "e \<in> set as" "contains (vma_at s e) old"
      using e True vma_find_list [OF assms(3), of old] by (auto split: option.splits dest!: find_found)
    have "vlist (vma_at s') (vma_list s') as"
      using assms(3) vlist_upd [of "\<lambda>v. v\<lparr>vm_end := new\<rparr>" "vma_at s" e] by (simp add: s' upd_vma_def)
    moreover have "contains (vma_at s' e) a"
      using em(2) a by (auto simp: s' upd_vma_def contains_def intro: order_trans)
    ultimately show ?thesis
      using vma_find_mem [OF _ em(1), of "vma_at s'" "vma_list s'" a] by blast
  next
    case False
    then obtain s0 x where c: "vma_create old new (VMA_READ OR VMA_WRITE OR VMA_ANONYMOUS) s = Some (s0, x)" "x \<noteq> NULL"
      "s' = vma_add x (upd_vma x (\<lambda>v. v\<lparr>vm_fd := - 1\<rparr>) s0)"
      using assms(1) e by (auto simp: brk_grow_def bind_eq_Some_conv split: if_splits)
    obtain v m where v: "L x = None"
      "s0 = upd_vma x (\<lambda>_. \<lparr>vm_start = old AND NOT 0xFFF, vm_end = PAGE_UP new, vm_flags = VMA_READ OR VMA_WRITE OR VMA_ANONYMOUS,
                 vm_file_offset = 0, vm_fd = - 1, vm_private = NULL, vm_next = NULL\<rparr>) (s\<lparr>vs := v\<rparr>)"
      by (rule vma_create_result [OF c(1) assms(2) c(2)]) (rule that; assumption)
    have x: "x \<notin> set as"
      using v(1) assms(4) by auto
    have "contains (vma_at s' x) a" "vma_list s' = x"
      using a c(2) al by (simp_all add: c(3) v(2) vma_add_def upd_vma_def contains_def)
    then show ?thesis
      using c(2) by (simp add: vma_find.simps)
  qed
qed

text \<open>
  After a successful \<^verbatim>\<open>sys_brk\<close> that raises the program break, every address between the old and the
  new break lies in an area of the process, so a fault there can be served.
\<close>

theorem brk_growth_has_area:
  assumes "vlive (vs s) L" "vlist (vma_at s) (vma_list s) as" "\<forall>a\<in>set as. L a \<noteq> None"
    and r: "sys_brk addr s = Some (s', addr)" "current (vs s)"
    and a: "PAGE_UP (current_brk (brk_init s)) \<le> a" "a < PAGE_UP addr"
  shows "\<exists>v. vma_find (vma_at s') (vma_list s') a = Some v \<and> v \<noteq> NULL \<and> contains (vma_at s' v) a"
proof -
  let ?s = "brk_init s"
  have b: "vs ?s = vs s" "vma_at ?s = vma_at s" "vma_list ?s = vma_list s"
    by (simp_all add: brk_init_def)
  have lt: "PAGE_UP (current_brk ?s) < PAGE_UP addr"
    using a by simp
  have ne: "addr \<noteq> current_brk ?s" "addr \<noteq> 0"
    using lt by (auto simp: PAGE_UP_def)
  have ad: "addr < 0xC0000000"
    using r ne by (auto simp: sys_brk_def Let_def not_less split: if_splits)
  then have up: "PAGE_UP (PAGE_UP addr) = PAGE_UP addr"
    by (intro unat_PAGE_UP_up) (simp add: word_less_nat_alt)
  obtain t where t: "brk_grow (PAGE_UP (current_brk ?s)) (PAGE_UP addr) ?s = Some (t, True)" "s' = t\<lparr>current_brk := addr\<rparr>"
  proof -
    obtain t ok where g: "brk_grow (PAGE_UP (current_brk ?s)) (PAGE_UP addr) ?s = Some (t, ok)"
      "(if ok then Some (t\<lparr>current_brk := addr\<rparr>, addr) else Some (t, current_brk t)) = Some (s', addr)"
      using r ne lt by (auto simp: sys_brk_def Let_def bind_eq_Some_conv split: if_splits)
    have "current_brk t = current_brk ?s"
      using g(1) by (auto simp: brk_grow_def vma_create_def lift_v_def vma_add_def upd_vma_def bind_eq_Some_conv split: if_splits)
    with g ne show thesis by (intro that [of t]) (auto split: if_splits)
  qed
  show ?thesis
    using brk_grow_covers [OF t(1) _ _ assms(3), of a] assms(1,2) a up PAGE_UP_aligned b by (simp add: t(2))
qed

theorem brk_growth_has_area_witness:
  "\<exists>s'. sys_brk 0x10001800 demo_mm = Some (s', 0x10001800) \<and>
     (\<exists>v. vma_find (vma_at s') (vma_list s') 0x10001FFF = Some v \<and> v \<noteq> NULL \<and> contains (vma_at s' v) 0x10001FFF)"
proof -
  obtain h h' where k: "kalloc 28 (vs demo_mm) = Some ((vs demo_mm)\<lparr>kh := h\<rparr>, 0xD0000090)"
    by (rule demo_mm_alloc)
  have c: "current (vs demo_mm)" "vlist (vma_at demo_mm) (vma_list demo_mm) []"
    by (simp_all add: demo_mm_def demo_vst_def)
  have i: "brk_init demo_mm = demo_mm\<lparr>brk_start := 0x10000000, current_brk := 0x10000000\<rparr>"
    by (simp add: brk_init_def demo_mm_def)
  have l: "vma_list demo_mm = 0"
    by (simp add: demo_mm_def)
  obtain s' where s': "sys_brk 0x10001800 demo_mm = Some (s', 0x10001800)"
    using k c(1) by (auto simp: sys_brk_def i brk_grow_def vma_find.simps l vma_create_def lift_v_def PAGE_UP_def Let_def)
  show ?thesis
    using s' brk_growth_has_area [OF demo_mm_live(1) c(2) _ s' c(1), of "0x10001FFF"]
    by (simp add: i PAGE_UP_def)
qed

end
