(* ===== verification/Lock.thy ===== *)
theory Lock
  imports Prelude
begin

text \<open>
  Waiting for a resource that several processes share: the busy-wait loop of \<^verbatim>\<open>sem_wait\<close>,
  \<^verbatim>\<open>mutex_lock\<close> and \<^verbatim>\<open>spin_lock\<close>, processes that interleave their attempts, and the contract of a
  resource of which a fixed number of units can be taken.  The kernel runs on one processor and the
  code around an attempt runs with interrupts off, so an attempt is one atomic step; what other
  processes do to the state between two attempts is the argument \<open>env\<close>, indexed by the number of
  failed attempts.
\<close>

section \<open>Busy waiting\<close>

partial_function (option) busy_wait ::
  "('s \<Rightarrow> 's \<times> bool) \<Rightarrow> (nat \<Rightarrow> 's \<Rightarrow> 's) \<Rightarrow> nat \<Rightarrow> 's \<Rightarrow> 's option" where
  "busy_wait attempt env k s =
     (if snd (attempt s) then Some (fst (attempt s))
      else busy_wait attempt env (Suc k) (env k (fst (attempt s))))"

text \<open>The state before the \<open>j\<close>-th attempt, if those before it fail.\<close>

primrec waiting :: "('s \<Rightarrow> 's \<times> bool) \<Rightarrow> (nat \<Rightarrow> 's \<Rightarrow> 's) \<Rightarrow> nat \<Rightarrow> 's \<Rightarrow> nat \<Rightarrow> 's" where
  "waiting attempt env k s 0 = s"
| "waiting attempt env k s (Suc j) = waiting attempt env (Suc k) (env k (fst (attempt s))) j"

lemma waiting_Suc:
  "waiting attempt env k s (Suc j) = env (k + j) (fst (attempt (waiting attempt env k s j)))"
  by (induction j arbitrary: k s) simp_all

lemma busy_wait_first:
  "snd (attempt (waiting attempt env k s j)) \<Longrightarrow> (\<And>i. i < j \<Longrightarrow> \<not> snd (attempt (waiting attempt env k s i))) \<Longrightarrow>
   busy_wait attempt env k s = Some (fst (attempt (waiting attempt env k s j)))"
proof (induction j arbitrary: k s)
  case 0
  then show ?case by (simp add: busy_wait.simps [of attempt env k s])
next
  case (Suc j)
  have "\<not> snd (attempt s)"
    using Suc.prems(2) [of 0] by simp
  then show ?case
    using Suc.IH [of "Suc k" "env k (fst (attempt s))"] Suc.prems(1) Suc.prems(2) [of "Suc _"]
    by (simp add: busy_wait.simps [of attempt env k s])
qed

lemma busy_wait_Some:
  "busy_wait attempt env k s = Some r \<Longrightarrow> \<exists>j. snd (attempt (waiting attempt env k s j)) \<and>
     (\<forall>i < j. \<not> snd (attempt (waiting attempt env k s i))) \<and> r = fst (attempt (waiting attempt env k s j))"
proof (induction rule: busy_wait.raw_induct [rotated, consumes 1])
  case (1 busy_wait attempt env k s r)
  show ?case
  proof (cases "snd (attempt s)")
    case True
    then show ?thesis
      using 1(2) by (intro exI [of _ 0]) simp
  next
    case False
    then have "busy_wait attempt env (Suc k) (env k (fst (attempt s))) = Some r"
      using 1(2) by simp
    from 1(1) [OF this] obtain j where j: "snd (attempt (waiting attempt env (Suc k) (env k (fst (attempt s))) j))"
      "\<forall>i < j. \<not> snd (attempt (waiting attempt env (Suc k) (env k (fst (attempt s))) i))"
      "r = fst (attempt (waiting attempt env (Suc k) (env k (fst (attempt s))) j))"
      by blast
    have "\<not> snd (attempt (waiting attempt env k s i))" if "i < Suc j" for i
      using False j(2) that by (cases i) auto
    then show ?thesis
      using j by (intro exI [of _ "Suc j"]) simp
  qed
qed

text \<open>The loop ends exactly if some attempt succeeds.\<close>

lemma busy_wait_ends:
  "(\<exists>r. busy_wait attempt env k s = Some r) \<longleftrightarrow> (\<exists>j. snd (attempt (waiting attempt env k s j)))"
proof
  let ?P = "\<lambda>j. snd (attempt (waiting attempt env k s j))"
  assume "\<exists>j. ?P j"
  then have "?P (Least ?P)"
    by (rule LeastI_ex)
  moreover have "\<not> ?P i" if "i < Least ?P" for i
    using that by (rule not_less_Least)
  ultimately have "busy_wait attempt env k s = Some (fst (attempt (waiting attempt env k s (Least ?P))))"
    by (rule busy_wait_first)
  then show "\<exists>r. busy_wait attempt env k s = Some r" ..
qed (use busy_wait_Some [of attempt env k s] in blast)

section \<open>Interleaved processes\<close>

datatype phase = Outside | Trying | Inside

text \<open>
  Each process asks for a unit, makes attempts until one succeeds, and gives the unit back; only a
  process that has a unit gives one back.
\<close>

inductive sys_step :: "('s \<Rightarrow> 's \<times> bool) \<Rightarrow> ('s \<Rightarrow> 's) \<Rightarrow> 's \<times> (nat \<Rightarrow> phase) \<Rightarrow> 's \<times> (nat \<Rightarrow> phase) \<Rightarrow> bool"
  for attempt release where
  ask: "c p = Outside \<Longrightarrow> sys_step attempt release (s, c) (s, c(p := Trying))"
| enter: "c p = Trying \<Longrightarrow> attempt s = (s', True) \<Longrightarrow> sys_step attempt release (s, c) (s', c(p := Inside))"
| retry: "c p = Trying \<Longrightarrow> attempt s = (s', False) \<Longrightarrow> sys_step attempt release (s, c) (s', c)"
| leave: "c p = Inside \<Longrightarrow> sys_step attempt release (s, c) (release s, c(p := Outside))"

inductive_cases sys_stepE [consumes 1, case_names ask enter retry leave]: "sys_step attempt release (s, c) t"

definition inside :: "(nat \<Rightarrow> phase) \<Rightarrow> nat set" where
  "inside c = {p. c p = Inside}"

lemma inside_upd:
  "inside (c(p := Inside)) = insert p (inside c)" "ph \<noteq> Inside \<Longrightarrow> inside (c(p := ph)) = inside c - {p}"
  "p \<in> inside c \<longleftrightarrow> c p = Inside" "inside (\<lambda>_. Outside) = {}"
  by (auto simp: inside_def)

section \<open>The contract\<close>

text \<open>\<open>avail s\<close> units are free; \<open>ok\<close> is the invariant of the implementation.\<close>

locale resource =
  fixes ok :: "'s \<Rightarrow> bool"
    and avail :: "'s \<Rightarrow> nat"
    and capacity :: nat
    and attempt :: "'s \<Rightarrow> 's \<times> bool"
    and release :: "'s \<Rightarrow> 's"
  assumes attempt_some: "ok s \<Longrightarrow> avail s = Suc n \<Longrightarrow> attempt s = (s', b) \<Longrightarrow> b \<and> ok s' \<and> avail s' = n"
    and attempt_none: "ok s \<Longrightarrow> avail s = 0 \<Longrightarrow> attempt s = (s', b) \<Longrightarrow> \<not> b \<and> ok s' \<and> avail s' = 0"
    and release_gives: "ok s \<Longrightarrow> avail s < capacity \<Longrightarrow> ok (release s) \<and> avail (release s) = Suc (avail s)"
begin

definition sys_inv :: "nat \<Rightarrow> 's \<times> (nat \<Rightarrow> phase) \<Rightarrow> bool" where
  "sys_inv n sc \<longleftrightarrow> ok (fst sc) \<and> finite (inside (snd sc)) \<and> avail (fst sc) + card (inside (snd sc)) = n"

lemma sys_inv_step:
  assumes "sys_inv n (s, c)" "n \<le> capacity" "sys_step attempt release (s, c) t"
  shows "sys_inv n t"
  using assms(3)
proof (cases rule: sys_stepE)
  case (ask p)
  then show ?thesis using assms(1) by (simp add: sys_inv_def inside_upd)
next
  case (enter p s')
  have o: "ok s" "avail s + card (inside c) = n" "finite (inside c)"
    using assms(1) by (simp_all add: sys_inv_def)
  obtain m where m: "avail s = Suc m"
    using attempt_none [OF o(1) _ enter(3)] by (cases "avail s") auto
  show ?thesis
    using attempt_some [OF o(1) m enter(3)] o m enter by (simp add: sys_inv_def inside_upd)
next
  case (retry p s')
  have o: "ok s" "avail s + card (inside c) = n" "finite (inside c)"
    using assms(1) by (simp_all add: sys_inv_def)
  have "avail s = 0"
    using attempt_some [OF o(1) _ retry(3)] by (cases "avail s") auto
  then show ?thesis
    using attempt_none [OF o(1) _ retry(3)] o retry by (simp add: sys_inv_def)
next
  case (leave p)
  have o: "ok s" "avail s + card (inside c) = n" "finite (inside c)"
    using assms(1) by (simp_all add: sys_inv_def)
  moreover have "card (inside c) = Suc (card (inside c - {p}))"
    using leave o(3) by (intro card.remove) (simp_all add: inside_upd)
  ultimately have "avail s < capacity" "avail s + Suc (card (inside c - {p})) = n"
    using assms(2) by linarith+
  moreover have "sys_inv n (release s, c(p := Outside)) \<longleftrightarrow> ok (release s) \<and> finite (inside c)
      \<and> avail (release s) + card (inside c - {p}) = n"
    by (simp only: sys_inv_def fst_conv snd_conv inside_upd(2) phase.distinct not_False_eq_True finite_Diff2 finite.intros)
  ultimately show ?thesis
    using release_gives [OF o(1)] o(3) leave(1) by simp
qed

lemma sys_inv_steps:
  assumes "ok s" "avail s = n" "n \<le> capacity" "(sys_step attempt release)\<^sup>*\<^sup>* (s, \<lambda>_. Outside) t"
  shows "sys_inv n t"
  using assms(4)
proof (induction rule: rtranclp_induct)
  case base
  then show ?case using assms by (simp add: sys_inv_def inside_upd)
next
  case (step t u)
  then show ?case using sys_inv_step [of n "fst t" "snd t" u] assms(3) by simp
qed

text \<open>No more processes are inside than there are units, and an attempt fails only if all are taken.\<close>

lemma exclusion:
  assumes "ok s" "avail s \<le> capacity" "(sys_step attempt release)\<^sup>*\<^sup>* (s, \<lambda>_. Outside) (s', c)"
  shows "finite (inside c) \<and> card (inside c) \<le> avail s
    \<and> (snd (attempt s') \<longleftrightarrow> card (inside c) < avail s)"
proof -
  have i: "ok s'" "finite (inside c)" "avail s' + card (inside c) = avail s"
    using sys_inv_steps [OF assms(1) refl assms(2,3)] by (simp_all add: sys_inv_def)
  obtain t b where a: "attempt s' = (t, b)"
    by fastforce
  show ?thesis
    using attempt_none [OF i(1) _ a] attempt_some [OF i(1) _ a] i(2,3) a by (cases "avail s'") auto
qed

text \<open>The wait ends as soon as a unit is free before one of the attempts, and takes one unit.\<close>

lemma busy_wait_gets:
  assumes "busy_wait attempt env k s = Some r" "ok s" "\<And>i s. ok s \<Longrightarrow> ok (env i s)"
  shows "\<exists>t. ok t \<and> ok r \<and> avail t = Suc (avail r) \<and> r = fst (attempt t)"
proof -
  have w: "ok (waiting attempt env k s j)" for j
    using assms(2)
  proof (induction j arbitrary: k s)
    case (Suc j)
    have "ok (fst (attempt s))"
      using attempt_none [OF Suc.prems, of "fst (attempt s)" "snd (attempt s)"]
        attempt_some [OF Suc.prems, of _ "fst (attempt s)" "snd (attempt s)"] by (cases "avail s") auto
    then show ?case
      using Suc.IH assms(3) by simp
  qed simp
  obtain j where j: "snd (attempt (waiting attempt env k s j))" "r = fst (attempt (waiting attempt env k s j))"
    using busy_wait_Some [OF assms(1)] by blast
  define t where "t = waiting attempt env k s j"
  have t: "ok t" "attempt t = (r, True)"
    using w j by (simp_all add: t_def prod_eq_iff)
  obtain n where n: "avail t = Suc n"
    using attempt_none [OF t(1) _ t(2)] by (cases "avail t") auto
  show ?thesis
    using attempt_some [OF t(1) n t(2)] t n by auto
qed

lemma busy_wait_returns:
  assumes "ok (waiting attempt env k s j)" "0 < avail (waiting attempt env k s j)"
  shows "\<exists>r. busy_wait attempt env k s = Some r"
proof -
  obtain n where "avail (waiting attempt env k s j) = Suc n"
    using assms(2) by (cases "avail (waiting attempt env k s j)") auto
  then have "snd (attempt (waiting attempt env k s j))"
    using attempt_some [OF assms(1) _ prod.collapse [symmetric]] by blast
  then show ?thesis
    unfolding busy_wait_ends by blast
qed

end

section \<open>Wait queue heads\<close>

text \<open>The head of a wait queue, which semaphores and mutexes contain but do not use.\<close>

record wait_queue_head =
  wq_head :: addr
  wq_lock :: u32

definition init_waitqueue_head :: wait_queue_head where
  "init_waitqueue_head = \<lparr>wq_head = NULL, wq_lock = 0\<rparr>"

end
