(* ===== verification/Mutex.thy ===== *)
theory Mutex
  imports Lock
begin

text \<open>
  Mutexes, \<^verbatim>\<open>sync/mutex.c\<close>, and spin locks, \<^verbatim>\<open>sync/spinlock.c\<close>.  \<open>cur\<close> is the process that calls an
  operation.  While an operation waits, the rest of the system runs, which is its argument \<open>env\<close>.  The system
  calls \<^verbatim>\<open>sys_mutex_*\<close> call the operations with their arguments unchanged.
\<close>

section \<open>Mutexes\<close>

definition MUTEX_NORMAL :: u32 where "MUTEX_NORMAL = 0"
definition MUTEX_RECURSIVE :: u32 where "MUTEX_RECURSIVE = 1"
definition MUTEX_ERRORCHECK :: u32 where "MUTEX_ERRORCHECK = 2"
definition MUTEX_UNLOCKED :: u32 where "MUTEX_UNLOCKED = 0"
definition MUTEX_LOCKED :: u32 where "MUTEX_LOCKED = 1"

record mutex =
  mlocked :: u32
  mtype :: u32
  mowner :: u32
  mrecursion :: u32
  mwait_queue :: wait_queue_head
  lock_count :: u64
  unlock_count :: u64
  contention_count :: u64

record mutexattr =
  atype :: u32
  apshared :: u32

record mutex_state =
  mutex_at :: "addr \<Rightarrow> mutex"
  total_locks :: u64
  total_unlocks :: u64
  total_contentions :: u64
  mirqs_on :: bool

definition upd_mutex :: "addr \<Rightarrow> (mutex \<Rightarrow> mutex) \<Rightarrow> mutex_state \<Rightarrow> mutex_state" where
  "upd_mutex m f s = s\<lparr>mutex_at := (mutex_at s)(m := f (mutex_at s m))\<rparr>"

definition mutex_init_system :: "mutex_state \<Rightarrow> mutex_state" where
  "mutex_init_system s = s\<lparr>total_locks := 0, total_unlocks := 0, total_contentions := 0\<rparr>"

text \<open>The caller does not matter.\<close>

definition get_current_pid :: "u32 \<Rightarrow> u32" where
  "get_current_pid cur = 1"

definition mutex_init :: "addr \<Rightarrow> mutexattr option \<Rightarrow> mutex_state \<Rightarrow> mutex_state \<times> int" where
  "mutex_init m attr s =
     (if m = NULL then (s, - EINVAL)
      else (upd_mutex m (\<lambda>_. \<lparr>mlocked = MUTEX_UNLOCKED, mtype = (case attr of Some a \<Rightarrow> atype a | None \<Rightarrow> MUTEX_NORMAL),
              mowner = 0, mrecursion = 0, mwait_queue = init_waitqueue_head, lock_count = 0, unlock_count = 0,
              contention_count = 0\<rparr>) s, 0))"

definition mutex_init_simple :: "addr \<Rightarrow> mutex_state \<Rightarrow> mutex_state" where
  "mutex_init_simple m s =
     upd_mutex m (\<lambda>_. \<lparr>mlocked = MUTEX_UNLOCKED, mtype = MUTEX_NORMAL, mowner = 0, mrecursion = 0,
       mwait_queue = init_waitqueue_head, lock_count = 0, unlock_count = 0, contention_count = 0\<rparr>) s"

definition mutex_destroy :: "addr \<Rightarrow> mutex_state \<Rightarrow> mutex_state \<times> int" where
  "mutex_destroy m s =
     (if m = NULL then (s, - EINVAL)
      else if mlocked (mutex_at s m) = MUTEX_LOCKED then (s, - EBUSY)
      else (s, 0))"

text \<open>Taking a free mutex, and one pass of the loop of \<^verbatim>\<open>mutex_lock\<close>.\<close>

definition mutex_take :: "u32 \<Rightarrow> addr \<Rightarrow> mutex_state \<Rightarrow> mutex_state" where
  "mutex_take pid m s =
     (upd_mutex m (\<lambda>x. x\<lparr>mlocked := MUTEX_LOCKED, mowner := pid, mrecursion := 1, lock_count := lock_count x + 1\<rparr>) s)
       \<lparr>total_locks := total_locks s + 1\<rparr>"

definition mutex_attempt :: "u32 \<Rightarrow> addr \<Rightarrow> mutex_state \<Rightarrow> mutex_state \<times> bool" where
  "mutex_attempt cur m s =
     (if mlocked (mutex_at s m) = MUTEX_LOCKED then
        ((upd_mutex m (\<lambda>x. x\<lparr>contention_count := contention_count x + 1\<rparr>) s)
           \<lparr>total_contentions := total_contentions s + 1\<rparr>, False)
      else (mutex_take (get_current_pid cur) m s, True))"

definition mutex_window :: "(nat \<Rightarrow> mutex_state \<Rightarrow> mutex_state) \<Rightarrow> nat \<Rightarrow> mutex_state \<Rightarrow> mutex_state" where
  "mutex_window env k s = (env k (s\<lparr>mirqs_on := True\<rparr>))\<lparr>mirqs_on := False\<rparr>"

text \<open>A recursive mutex that the caller seems to own already.\<close>

definition mutex_again :: "addr \<Rightarrow> mutex_state \<Rightarrow> mutex_state" where
  "mutex_again m s = upd_mutex m (\<lambda>x. x\<lparr>mrecursion := mrecursion x + 1, lock_count := lock_count x + 1\<rparr>) s"

definition mutex_lock :: "(nat \<Rightarrow> mutex_state \<Rightarrow> mutex_state) \<Rightarrow> u32 \<Rightarrow> addr \<Rightarrow> mutex_state \<Rightarrow> (mutex_state \<times> int) option" where
  "mutex_lock env cur m s =
     (if m = NULL then Some (s, - EINVAL)
      else let pid = get_current_pid cur; fl = mirqs_on s; s = s\<lparr>mirqs_on := False\<rparr> in
        if mtype (mutex_at s m) = MUTEX_RECURSIVE \<and> mowner (mutex_at s m) = pid then
          Some ((mutex_again m s)\<lparr>mirqs_on := fl\<rparr>, 0)
        else if mtype (mutex_at s m) = MUTEX_ERRORCHECK \<and> mowner (mutex_at s m) = pid then
          Some (s\<lparr>mirqs_on := fl\<rparr>, - EDEADLK)
        else map_option (\<lambda>t. (t\<lparr>mirqs_on := fl\<rparr>, 0)) (busy_wait (mutex_attempt cur m) (mutex_window env) 0 s))"

definition mutex_trylock :: "u32 \<Rightarrow> addr \<Rightarrow> mutex_state \<Rightarrow> mutex_state \<times> int" where
  "mutex_trylock cur m s =
     (if m = NULL then (s, - EINVAL)
      else let pid = get_current_pid cur; fl = mirqs_on s; s = s\<lparr>mirqs_on := False\<rparr> in
        if mtype (mutex_at s m) = MUTEX_RECURSIVE \<and> mowner (mutex_at s m) = pid then
          ((mutex_again m s)\<lparr>mirqs_on := fl\<rparr>, 0)
        else if mlocked (mutex_at s m) = MUTEX_LOCKED then (s\<lparr>mirqs_on := fl\<rparr>, - EBUSY)
        else ((mutex_take pid m s)\<lparr>mirqs_on := fl\<rparr>, 0))"

definition mutex_timedlock :: "(nat \<Rightarrow> mutex_state \<Rightarrow> mutex_state) \<Rightarrow> u32 \<Rightarrow> addr \<Rightarrow> mutex_state \<Rightarrow> (mutex_state \<times> int) option" where
  "mutex_timedlock env cur m s = mutex_lock env cur m s"

definition mutex_unlock :: "u32 \<Rightarrow> addr \<Rightarrow> mutex_state \<Rightarrow> mutex_state \<times> int" where
  "mutex_unlock cur m s =
     (if m = NULL then (s, - EINVAL)
      else let pid = get_current_pid cur; fl = mirqs_on s; s = s\<lparr>mirqs_on := False\<rparr> in
        if mowner (mutex_at s m) \<noteq> pid then (s\<lparr>mirqs_on := fl\<rparr>, - EPERM)
        else if mtype (mutex_at s m) = MUTEX_RECURSIVE \<and> mrecursion (mutex_at s m) > 1 then
          ((upd_mutex m (\<lambda>x. x\<lparr>mrecursion := mrecursion x - 1, unlock_count := unlock_count x + 1\<rparr>) s)\<lparr>mirqs_on := fl\<rparr>, 0)
        else ((upd_mutex m (\<lambda>x. x\<lparr>mowner := 0, mrecursion := 0, mlocked := MUTEX_UNLOCKED,
                unlock_count := unlock_count x + 1\<rparr>) s)\<lparr>total_unlocks := total_unlocks s + 1, mirqs_on := fl\<rparr>, 0))"

definition mutex_get_owner :: "addr \<Rightarrow> mutex_state \<Rightarrow> u32" where
  "mutex_get_owner m s = (if m \<noteq> NULL then mowner (mutex_at s m) else 0)"

text \<open>Attributes: \<open>None\<close> is the null pointer.\<close>

definition mutexattr_init :: "mutexattr option \<Rightarrow> mutexattr option \<times> int" where
  "mutexattr_init attr = (case attr of None \<Rightarrow> (None, - EINVAL)
     | Some a \<Rightarrow> (Some (a\<lparr>atype := MUTEX_NORMAL, apshared := 0\<rparr>), 0))"

definition mutexattr_settype :: "mutexattr option \<Rightarrow> int \<Rightarrow> mutexattr option \<times> int" where
  "mutexattr_settype attr ty = (case attr of None \<Rightarrow> (None, - EINVAL)
     | Some a \<Rightarrow>
         if ty \<noteq> uint MUTEX_NORMAL \<and> ty \<noteq> uint MUTEX_RECURSIVE \<and> ty \<noteq> uint MUTEX_ERRORCHECK then (attr, - EINVAL)
         else (Some (a\<lparr>atype := word_of_int ty\<rparr>), 0))"

definition mutexattr_gettype :: "mutexattr option \<Rightarrow> int option" where
  "mutexattr_gettype attr = map_option (\<lambda>a. uint (atype a)) attr"

definition mutexattr_setpshared :: "mutexattr option \<Rightarrow> int \<Rightarrow> mutexattr option \<times> int" where
  "mutexattr_setpshared attr sh = (case attr of None \<Rightarrow> (None, - EINVAL)
     | Some a \<Rightarrow> (Some (a\<lparr>apshared := word_of_int sh\<rparr>), 0))"

definition mutexattr_getpshared :: "mutexattr option \<Rightarrow> int option" where
  "mutexattr_getpshared attr = map_option (\<lambda>a. uint (apshared a)) attr"

section \<open>Spin locks\<close>

text \<open>\<open>spin_at\<close> holds the lock words; \<^verbatim>\<open>__sync_lock_test_and_set\<close> is one atomic step.\<close>

record spin_state =
  spin_at :: "addr \<Rightarrow> u32"
  spin_irqs :: bool

definition spin_lock_init :: "addr \<Rightarrow> spin_state \<Rightarrow> spin_state" where
  "spin_lock_init l s = (if l = NULL then s else s\<lparr>spin_at := (spin_at s)(l := 0)\<rparr>)"

definition spin_attempt :: "addr \<Rightarrow> spin_state \<Rightarrow> spin_state \<times> bool" where
  "spin_attempt l s = (s\<lparr>spin_at := (spin_at s)(l := 1)\<rparr>, spin_at s l = 0)"

definition spin_lock :: "(nat \<Rightarrow> spin_state \<Rightarrow> spin_state) \<Rightarrow> addr \<Rightarrow> spin_state \<Rightarrow> spin_state option" where
  "spin_lock env l s = (if l = NULL then Some s else busy_wait (spin_attempt l) env 0 s)"

definition spin_unlock :: "addr \<Rightarrow> spin_state \<Rightarrow> spin_state" where
  "spin_unlock l s = (if l = NULL then s else s\<lparr>spin_at := (spin_at s)(l := 0)\<rparr>)"

definition spin_trylock :: "addr \<Rightarrow> spin_state \<Rightarrow> spin_state \<times> int" where
  "spin_trylock l s =
     (if l = NULL then (s, - 1) else (case spin_attempt l s of (s, got) \<Rightarrow> (s, if got then 0 else - 1)))"

text \<open>With interrupts off nothing else runs on the one processor while the lock is awaited.\<close>

definition spin_lock_irqsave :: "addr \<Rightarrow> spin_state \<Rightarrow> (spin_state \<times> bool) option" where
  "spin_lock_irqsave l s =
     (if l = NULL then Some (s, False)
      else map_option (\<lambda>t. (t, spin_irqs s)) (spin_lock (\<lambda>_ t. t) l (s\<lparr>spin_irqs := False\<rparr>)))"

definition spin_unlock_irqrestore :: "addr \<Rightarrow> bool \<Rightarrow> spin_state \<Rightarrow> spin_state" where
  "spin_unlock_irqrestore l fl s = (if l = NULL then s else (spin_unlock l s)\<lparr>spin_irqs := fl\<rparr>)"

section \<open>Mutual exclusion\<close>

lemma upd_mutex_simps [simp]:
  "mutex_at (upd_mutex m f s) = (mutex_at s)(m := f (mutex_at s m))" "mirqs_on (upd_mutex m f s) = mirqs_on s"
  by (simp_all add: upd_mutex_def)

lemmas mutex_const = MUTEX_NORMAL_def MUTEX_RECURSIVE_def MUTEX_ERRORCHECK_def MUTEX_UNLOCKED_def MUTEX_LOCKED_def

definition normal_mutex :: "addr \<Rightarrow> mutex_state \<Rightarrow> bool" where
  "normal_mutex m s \<longleftrightarrow> m \<noteq> NULL \<and> mtype (mutex_at s m) = MUTEX_NORMAL \<and>
     (mlocked (mutex_at s m) = MUTEX_LOCKED \<and> mowner (mutex_at s m) = 1 \<or>
      mlocked (mutex_at s m) = MUTEX_UNLOCKED \<and> mowner (mutex_at s m) = 0)"

definition mutex_units :: "addr \<Rightarrow> mutex_state \<Rightarrow> nat" where
  "mutex_units m s = (if mlocked (mutex_at s m) = MUTEX_LOCKED then 0 else 1)"

interpretation mutexres: resource "normal_mutex m" "mutex_units m" 1
  "mutex_attempt cur m" "\<lambda>s. fst (mutex_unlock cur m s)" for m cur
proof (unfold_locales, goal_cases)
  case (1 s n s' b)
  then show ?case
    by (auto simp: mutex_units_def mutex_attempt_def mutex_take_def normal_mutex_def get_current_pid_def mutex_const
        split: if_splits)
next
  case (2 s s' b)
  then show ?case
    by (auto simp: mutex_units_def mutex_attempt_def normal_mutex_def mutex_const split: if_splits)
next
  case (3 s)
  then show ?case
    by (auto simp: mutex_units_def mutex_unlock_def normal_mutex_def get_current_pid_def mutex_const Let_def
        split: if_splits)
qed

interpretation spinres: resource "\<lambda>_. l \<noteq> 0" "\<lambda>s. if spin_at s l = 0 then 1 else 0" 1 "spin_attempt l" "spin_unlock l" for l
  by unfold_locales (auto simp: spin_attempt_def spin_unlock_def split: if_splits)

lemma mutex_excludes':
  assumes "m \<noteq> NULL" "(sys_step (mutex_attempt cur m) (\<lambda>s. fst (mutex_unlock cur m s)))\<^sup>*\<^sup>*
    (fst (mutex_init m None s0), \<lambda>_. Outside) (s, c)"
  shows "card (inside c) \<le> 1 \<and> (snd (mutex_attempt cur m s) \<longleftrightarrow> inside c = {})"
proof -
  have "normal_mutex m (fst (mutex_init m None s0))" "mutex_units m (fst (mutex_init m None s0)) = 1"
    using assms(1) by (simp_all add: normal_mutex_def mutex_init_def mutex_units_def mutex_const)
  then show ?thesis
    using mutexres.exclusion [of m "fst (mutex_init m None s0)" cur s c] assms(2) by auto
qed

lemma spin_excludes':
  assumes "m \<noteq> NULL" "(sys_step (spin_attempt m) (spin_unlock m))\<^sup>*\<^sup>* (spin_lock_init m s0, \<lambda>_. Outside) (s, c)"
  shows "card (inside c) \<le> 1 \<and> (snd (spin_attempt m s) \<longleftrightarrow> inside c = {})"
  using spinres.exclusion [of m "spin_lock_init m s0" s c] assms by (auto simp: spin_lock_init_def)

text \<open>
  \<^bold>\<open>C28.\<close> Mutual exclusion.  However processes interleave their attempts to take a mutex of the default type
  and their calls of \<open>mutex_unlock\<close>, when each unlocks only after it was admitted, at most one of
  them is inside, and the next attempt succeeds exactly if none is; the same holds of a spin lock.
  (Neither operation depends on the caller \<open>cur\<close>, so it is the same for all processes.)
\<close>

theorem locks_exclude:
  assumes "m \<noteq> NULL"
  shows "((sys_step (mutex_attempt cur m) (\<lambda>s. fst (mutex_unlock cur m s)))\<^sup>*\<^sup>*
        (fst (mutex_init m None s0), \<lambda>_. Outside) (s, c) \<longrightarrow>
      card (inside c) \<le> 1 \<and> (snd (mutex_attempt cur m s) \<longleftrightarrow> inside c = {}))
    \<and> ((sys_step (spin_attempt m) (spin_unlock m))\<^sup>*\<^sup>* (spin_lock_init m t0, \<lambda>_. Outside) (t, d) \<longrightarrow>
      card (inside d) \<le> 1 \<and> (snd (spin_attempt m t) \<longleftrightarrow> inside d = {}))"
  using mutex_excludes' [OF assms] spin_excludes' [OF assms] by blast

definition mutex_state0 :: mutex_state where
  "mutex_state0 = fst (mutex_init 16 None \<lparr>mutex_at = \<lambda>_. undefined, total_locks = 0, total_unlocks = 0,
     total_contentions = 0, mirqs_on = True\<rparr>)"

text \<open>A free mutex can be taken.\<close>

theorem locks_exclude_witness:
  "snd (mutex_attempt 7 16 mutex_state0) \<and>
   snd (spin_attempt 16 (spin_lock_init 16 \<lparr>spin_at = \<lambda>_. 1, spin_irqs = True\<rparr>))"
proof -
  let ?s = "\<lparr>mutex_at = \<lambda>_. undefined, total_locks = 0, total_unlocks = 0, total_contentions = 0, mirqs_on = True\<rparr>"
    and ?t = "\<lparr>spin_at = \<lambda>_. 1, spin_irqs = True\<rparr>"
  have "inside (\<lambda>_. Outside) = {}"
    by (simp add: inside_upd)
  then show ?thesis
    using locks_exclude [of 16 7 ?s "fst (mutex_init 16 None ?s)" "\<lambda>_. Outside" ?t "spin_lock_init 16 ?t" "\<lambda>_. Outside"]
    by (simp add: mutex_state0_def)
qed

text \<open>
  The owner of a mutex is not the process that locked it.  After any process has locked a free mutex,
  any other one can unlock it; if the mutex is recursive any other one locks it too, without waiting,
  so both are inside; and if it checks for errors any other one is told that it would deadlock.
\<close>

theorem mutex_ignores_owner:
  assumes "m \<noteq> NULL" "mutex_init m (Some a) s0 = (s, 0)" "mutex_lock env p m s = Some (s1, 0)"
  shows "mutex_get_owner m s1 = 1 \<and> snd (mutex_unlock q m s1) = 0
    \<and> mlocked (mutex_at (fst (mutex_unlock q m s1)) m) = MUTEX_UNLOCKED
    \<and> (atype a = MUTEX_RECURSIVE \<longrightarrow>
        (\<exists>s2. mutex_lock env' q m s1 = Some (s2, 0) \<and> mlocked (mutex_at s2 m) = MUTEX_LOCKED \<and> mrecursion (mutex_at s2 m) = 2))
    \<and> (atype a = MUTEX_ERRORCHECK \<longrightarrow> (\<exists>s2. mutex_lock env' q m s1 = Some (s2, - EDEADLK)))"
proof -
  have s: "mutex_at s m = \<lparr>mlocked = MUTEX_UNLOCKED, mtype = atype a, mowner = 0, mrecursion = 0,
      mwait_queue = init_waitqueue_head, lock_count = 0, unlock_count = 0, contention_count = 0\<rparr>"
    using assms(1,2) by (auto simp: mutex_init_def)
  have "busy_wait (mutex_attempt p m) (mutex_window env) 0 (s\<lparr>mirqs_on := False\<rparr>)
      = Some (mutex_take 1 m (s\<lparr>mirqs_on := False\<rparr>))"
    by (subst busy_wait.simps) (simp add: mutex_attempt_def s mutex_const get_current_pid_def)
  then have "s1 = (mutex_take 1 m (s\<lparr>mirqs_on := False\<rparr>))\<lparr>mirqs_on := mirqs_on s\<rparr>"
    using assms(1,3) by (simp add: mutex_lock_def s get_current_pid_def)
  then have "mutex_at s1 m = \<lparr>mlocked = MUTEX_LOCKED, mtype = atype a, mowner = 1, mrecursion = 1,
      mwait_queue = init_waitqueue_head, lock_count = 1, unlock_count = 0, contention_count = 0\<rparr>"
    by (simp add: mutex_take_def s)
  then show ?thesis
    using assms(1) by (simp add: mutex_get_owner_def mutex_unlock_def mutex_lock_def get_current_pid_def mutex_again_def
        Let_def mutex_const)
qed

text \<open>Processes 7 and 8 both lock a recursive mutex.\<close>

theorem mutex_ignores_owner_witness:
  "\<exists>s1 s2. mutex_lock (\<lambda>_ t. t) 7 16 (fst (mutex_init 16 (Some \<lparr>atype = 1, apshared = 0\<rparr>) mutex_state0)) = Some (s1, 0) \<and>
     mutex_lock (\<lambda>_ t. t) 8 16 s1 = Some (s2, 0)"
proof -
  let ?a = "\<lparr>atype = 1, apshared = 0\<rparr>" and ?s = "fst (mutex_init 16 (Some \<lparr>atype = 1, apshared = 0\<rparr>) mutex_state0)"
  have i: "mutex_init 16 (Some ?a) mutex_state0 = (?s, 0)"
    by (simp add: mutex_init_def)
  obtain s1 where s1: "mutex_lock (\<lambda>_ t. t) 7 16 ?s = Some (s1, 0)"
    by (simp add: mutex_lock_def busy_wait.simps [of "mutex_attempt 7 16"] mutex_attempt_def mutex_init_def
        get_current_pid_def mutex_const Let_def)
  from mutex_ignores_owner [OF _ i s1, of 8 "\<lambda>_ t. t"] s1 show ?thesis
    by (auto simp: mutex_const)
qed

text \<open>Waiting with interrupts off for a lock that is held does not end.\<close>

lemma spin_lock_irqsave_held: "l \<noteq> NULL \<Longrightarrow> spin_at s l \<noteq> 0 \<Longrightarrow> spin_lock_irqsave l s = None"
proof -
  assume a: "l \<noteq> NULL" "spin_at s l \<noteq> 0"
  have "spin_at t l \<noteq> 0 \<Longrightarrow> spin_at (waiting (spin_attempt l) (\<lambda>_ t. t) k t j) l \<noteq> 0" for t k j
    by (induction j arbitrary: k t) (simp_all add: spin_attempt_def)
  then have "\<not> (\<exists>r. busy_wait (spin_attempt l) (\<lambda>_ t. t) 0 (s\<lparr>spin_irqs := False\<rparr>) = Some r)"
    unfolding busy_wait_ends using a(2) by (simp add: spin_attempt_def)
  then show ?thesis
    using a(1) by (simp add: spin_lock_irqsave_def spin_lock_def)
qed

end
