(* ===== verification/Klist.thy ===== *)
theory Klist
  imports Prelude
begin

text \<open>
  The circular doubly linked lists of \<^verbatim>\<open>include/list.h\<close>.  A heap of nodes maps addresses to their two
  pointers; \<open>clist h a xs\<close> says that the list with head node \<open>a\<close> links exactly the nodes \<open>xs\<close>.  The
  operations refine operations on that list of addresses and leave disjoint lists alone.
\<close>

section \<open>Operations\<close>

record list_head =
  lnext :: addr
  lprev :: addr

type_synonym lheap = "addr \<Rightarrow> list_head"

definition set_next :: "addr \<Rightarrow> addr \<Rightarrow> lheap \<Rightarrow> lheap" where
  "set_next a n h = h(a := (h a)\<lparr>lnext := n\<rparr>)"

definition set_prev :: "addr \<Rightarrow> addr \<Rightarrow> lheap \<Rightarrow> lheap" where
  "set_prev a n h = h(a := (h a)\<lparr>lprev := n\<rparr>)"

definition INIT_LIST_HEAD :: "addr \<Rightarrow> lheap \<Rightarrow> lheap" where
  "INIT_LIST_HEAD l h = set_prev l l (set_next l l h)"

definition list_add_between :: "addr \<Rightarrow> addr \<Rightarrow> addr \<Rightarrow> lheap \<Rightarrow> lheap" where
  "list_add_between new prev nxt h =
     set_next prev new (set_prev new prev (set_next new nxt (set_prev nxt new h)))"

definition list_add :: "addr \<Rightarrow> addr \<Rightarrow> lheap \<Rightarrow> lheap" where
  "list_add new head h = list_add_between new head (lnext (h head)) h"

definition list_add_tail :: "addr \<Rightarrow> addr \<Rightarrow> lheap \<Rightarrow> lheap" where
  "list_add_tail new head h = list_add_between new (lprev (h head)) head h"

definition list_del_between :: "addr \<Rightarrow> addr \<Rightarrow> lheap \<Rightarrow> lheap" where
  "list_del_between prev nxt h = set_next prev nxt (set_prev nxt prev h)"

definition list_del :: "addr \<Rightarrow> lheap \<Rightarrow> lheap" where
  "list_del entry h =
     set_prev entry NULL (set_next entry NULL (list_del_between (lprev (h entry)) (lnext (h entry)) h))"

definition list_del_init :: "addr \<Rightarrow> lheap \<Rightarrow> lheap" where
  "list_del_init entry h = INIT_LIST_HEAD entry (list_del_between (lprev (h entry)) (lnext (h entry)) h)"

definition list_replace :: "addr \<Rightarrow> addr \<Rightarrow> lheap \<Rightarrow> lheap" where
  "list_replace old new h =
     (let h = set_next new (lnext (h old)) h;
          h = set_prev (lnext (h new)) new h;
          h = set_prev new (lprev (h old)) h
      in set_next (lprev (h new)) new h)"

definition list_move :: "addr \<Rightarrow> addr \<Rightarrow> lheap \<Rightarrow> lheap" where
  "list_move l head h = list_add l head (list_del_between (lprev (h l)) (lnext (h l)) h)"

definition list_move_tail :: "addr \<Rightarrow> addr \<Rightarrow> lheap \<Rightarrow> lheap" where
  "list_move_tail l head h = list_add_tail l head (list_del_between (lprev (h l)) (lnext (h l)) h)"

definition list_empty :: "addr \<Rightarrow> lheap \<Rightarrow> bool" where
  "list_empty head h \<longleftrightarrow> lnext (h head) = head"

definition list_is_last :: "addr \<Rightarrow> addr \<Rightarrow> lheap \<Rightarrow> bool" where
  "list_is_last l head h \<longleftrightarrow> lnext (h l) = head"

definition list_splice_between :: "addr \<Rightarrow> addr \<Rightarrow> addr \<Rightarrow> lheap \<Rightarrow> lheap" where
  "list_splice_between l prev nxt h =
     (let first = lnext (h l); last = lprev (h l)
      in set_prev nxt last (set_next last nxt (set_next prev first (set_prev first prev h))))"

definition list_splice :: "addr \<Rightarrow> addr \<Rightarrow> lheap \<Rightarrow> lheap" where
  "list_splice l head h = (if \<not> list_empty l h then list_splice_between l head (lnext (h head)) h else h)"

text \<open>\<^verbatim>\<open>list_for_each\<close> with a body that stops at the first node with a property; the head if there is none.\<close>

partial_function (option) list_find :: "(addr \<Rightarrow> bool) \<Rightarrow> lheap \<Rightarrow> addr \<Rightarrow> addr \<Rightarrow> addr option" where
  "list_find P h head pos =
     (if pos = head then Some head else if P pos then Some pos else list_find P h head (lnext (h pos)))"

section \<open>Lists of nodes\<close>

lemma set_simps [simp]:
  "lnext (set_next a n h x) = (if x = a then n else lnext (h x))" "lprev (set_next a n h x) = lprev (h x)"
  "lprev (set_prev a n h x) = (if x = a then n else lprev (h x))" "lnext (set_prev a n h x) = lnext (h x)"
  by (simp_all add: set_next_def set_prev_def)

text \<open>\<open>seg h p xs q\<close>: from \<open>p\<close> the links lead through \<open>xs\<close> to \<open>q\<close>, and back.\<close>

fun seg :: "lheap \<Rightarrow> addr \<Rightarrow> addr list \<Rightarrow> addr \<Rightarrow> bool" where
  "seg h p [] q \<longleftrightarrow> lnext (h p) = q \<and> lprev (h q) = p"
| "seg h p (x # xs) q \<longleftrightarrow> lnext (h p) = x \<and> lprev (h x) = p \<and> seg h x xs q"

definition clist :: "lheap \<Rightarrow> addr \<Rightarrow> addr list \<Rightarrow> bool" where
  "clist h a xs \<longleftrightarrow> distinct (a # xs) \<and> seg h a xs a"

lemma seg_append: "seg h p (xs @ y # ys) q \<longleftrightarrow> seg h p xs y \<and> seg h y ys q"
  by (induction xs arbitrary: p) auto

lemma seg_cong:
  "(\<And>x. x = p \<or> x \<in> set xs \<Longrightarrow> lnext (h' x) = lnext (h x)) \<Longrightarrow>
   (\<And>x. x = q \<or> x \<in> set xs \<Longrightarrow> lprev (h' x) = lprev (h x)) \<Longrightarrow> seg h' p xs q = seg h p xs q"
  by (induction xs arbitrary: p) auto

lemma clist_cong:
  "(\<And>x. x = a \<or> x \<in> set xs \<Longrightarrow> h' x = h x) \<Longrightarrow> clist h' a xs = clist h a xs"
  using seg_cong [of a xs h' h a] by (simp add: clist_def)

lemma seg_ends: "seg h p xs q \<Longrightarrow> lnext (h p) = hd (xs @ [q]) \<and> lprev (h q) = last (p # xs)"
  by (induction xs arbitrary: p) auto

lemma seg_next_upd: "x \<noteq> p \<Longrightarrow> x \<notin> set xs \<Longrightarrow> seg (set_next x n h) p xs q = seg h p xs q"
  by (rule seg_cong) auto

lemma seg_prev_upd: "x \<noteq> q \<Longrightarrow> x \<notin> set xs \<Longrightarrow> seg (set_prev x n h) p xs q = seg h p xs q"
  by (rule seg_cong) auto

text \<open>The list cut open at a place: the nodes before and after it.\<close>

lemma clist_cut:
  "clist h a (us @ vs) \<Longrightarrow> p = last (a # us) \<Longrightarrow> q = hd (vs @ [a]) \<Longrightarrow> lnext (h p) = q \<and> lprev (h q) = p"
  by (cases us rule: rev_cases; cases vs) (auto simp: clist_def seg_append)

lemmas seg_upd = seg_append seg_next_upd seg_prev_upd

lemma add_between:
  assumes "clist h a (us @ vs)" "n \<notin> set (a # us @ vs)" "p = last (a # us)" "q = hd (vs @ [a])"
  shows "clist (list_add_between n p q h) a (us @ n # vs)"
  using assms unfolding list_add_between_def
  by (cases us rule: rev_cases; cases vs) (auto simp: clist_def seg_upd)

lemma del_between:
  assumes "clist h a (us @ e # vs)" "p = last (a # us)" "q = hd (vs @ [a])"
  shows "clist (list_del_between p q h) a (us @ vs)"
  using assms unfolding list_del_between_def
  by (cases us rule: rev_cases; cases vs) (auto simp: clist_def seg_upd)

lemma between_frame:
  "x \<notin> {n, p, q} \<Longrightarrow> list_add_between n p q h x = h x" "x \<notin> {p, q} \<Longrightarrow> list_del_between p q h x = h x"
  by (simp_all add: list_add_between_def list_del_between_def set_next_def set_prev_def)

lemma clist_nodes:
  assumes "clist h a (us @ e # vs)"
  shows "lprev (h e) = last (a # us)" "lnext (h e) = hd (vs @ [a])"
    "last (a # us) \<in> insert a (set (us @ e # vs))" "hd (vs @ [a]) \<in> insert a (set (us @ e # vs))"
proof -
  show "lprev (h e) = last (a # us)" "lnext (h e) = hd (vs @ [a])"
    using assms seg_ends [of h a us e] seg_ends [of h e vs a] by (auto simp: clist_def seg_append)
  show "last (a # us) \<in> insert a (set (us @ e # vs))"
    by (cases us rule: rev_cases) auto
  show "hd (vs @ [a]) \<in> insert a (set (us @ e # vs))"
    by (cases vs) auto
qed

lemma clist_ends: "clist h a xs \<Longrightarrow> lnext (h a) = hd (xs @ [a]) \<and> lprev (h a) = last (a # xs)"
  unfolding clist_def using seg_ends by blast

lemma end_nodes: "last (a # xs) \<in> insert a (set xs)" "hd (xs @ [a]) \<in> insert a (set xs)"
  by (cases xs rule: rev_cases; simp) (cases xs; simp)

section \<open>The interface of lists\<close>

text \<open>
  What users of the lists rely on: \<open>rel h a xs\<close> relates the heap, the head and the nodes; insertion at
  both ends, deletion, the test for emptiness, and that lists without common nodes do not disturb
  each other.
\<close>

locale kernel_lists =
  fixes rel :: "'h \<Rightarrow> addr \<Rightarrow> addr list \<Rightarrow> bool"
    and init :: "addr \<Rightarrow> 'h \<Rightarrow> 'h"
    and add :: "addr \<Rightarrow> addr \<Rightarrow> 'h \<Rightarrow> 'h"
    and add_tail :: "addr \<Rightarrow> addr \<Rightarrow> 'h \<Rightarrow> 'h"
    and del :: "addr \<Rightarrow> 'h \<Rightarrow> 'h"
    and isempty :: "addr \<Rightarrow> 'h \<Rightarrow> bool"
  assumes rel_distinct: "rel h a xs \<Longrightarrow> distinct (a # xs)"
    and init: "rel (init a h) a []"
    and add: "rel h a xs \<Longrightarrow> n \<notin> set (a # xs) \<Longrightarrow> rel (add n a h) a (n # xs)"
    and add_tail: "rel h a xs \<Longrightarrow> n \<notin> set (a # xs) \<Longrightarrow> rel (add_tail n a h) a (xs @ [n])"
    and del: "rel h a (us @ e # vs) \<Longrightarrow> rel (del e h) a (us @ vs)"
    and isempty: "rel h a xs \<Longrightarrow> isempty a h \<longleftrightarrow> xs = []"
    and add_other: "rel h a xs \<Longrightarrow> rel h b ys \<Longrightarrow> insert a (set xs) \<inter> insert b (set ys) = {} \<Longrightarrow>
      n \<notin> set (a # xs) \<Longrightarrow> n \<notin> set (b # ys) \<Longrightarrow> rel (add n a h) b ys \<and> rel (add_tail n a h) b ys"
    and del_other: "rel h a (us @ e # vs) \<Longrightarrow> rel h b ys \<Longrightarrow> insert a (set (us @ e # vs)) \<inter> insert b (set ys) = {} \<Longrightarrow>
      rel (del e h) b ys"
begin

text \<open>Nodes added at the tail come out in that order when the first node is deleted again and again.\<close>

primrec push_all :: "addr \<Rightarrow> addr list \<Rightarrow> 'h \<Rightarrow> 'h" where
  "push_all a [] h = h"
| "push_all a (n # ns) h = push_all a ns (add_tail n a h)"

lemma push_all:
  "rel h a xs \<Longrightarrow> distinct ns \<Longrightarrow> set ns \<inter> set (a # xs) = {} \<Longrightarrow> rel (push_all a ns h) a (xs @ ns)"
proof (induction ns arbitrary: xs h)
  case (Cons n ns)
  have "rel (add_tail n a h) a (xs @ [n])"
    by (rule add_tail) (use Cons.prems in auto)
  from Cons.IH [OF this] Cons.prems show ?case
    by auto
qed simp

lemma pop_front: "rel h a (x # xs) \<Longrightarrow> rel (del x h) a xs"
  using del [of h a "[]" x xs] by simp

text \<open>Moving a node from one list to the end of another.\<close>

lemma move_tail:
  assumes "rel h a (us @ e # vs)" "rel h b ys" "insert a (set (us @ e # vs)) \<inter> insert b (set ys) = {}"
  shows "rel (add_tail e b (del e h)) b (ys @ [e]) \<and> rel (add_tail e b (del e h)) a (us @ vs)"
proof -
  have d: "rel (del e h) a (us @ vs)" "rel (del e h) b ys"
    using del [OF assms(1)] del_other [OF assms] by simp_all
  have e: "e \<notin> set (b # ys)" "e \<notin> set (a # us @ vs)"
    using assms(3) rel_distinct [OF assms(1)] by auto
  have i: "insert b (set ys) \<inter> insert a (set (us @ vs)) = {}"
    using assms(3) by auto
  show ?thesis
    using add_tail [OF d(2) e(1)] add_other [OF d(2,1) i e] by simp
qed

end

interpretation klist: kernel_lists clist INIT_LIST_HEAD list_add list_add_tail list_del list_empty
proof (unfold_locales, goal_cases)
  case (1 h a xs)
  then show ?case by (simp add: clist_def)
next
  case (2 a h)
  show ?case by (simp add: clist_def INIT_LIST_HEAD_def)
next
  case (3 h a xs n)
  then show ?case
    using add_between [of h a "[]" xs n a "lnext (h a)"] clist_ends [of h a xs] by (simp add: list_add_def)
next
  case (4 h a xs n)
  then show ?case
    using add_between [of h a xs "[]" n "lprev (h a)" a] clist_ends [of h a xs] by (simp add: list_add_tail_def)
next
  case (5 h a us e vs)
  have d: "clist (list_del_between (lprev (h e)) (lnext (h e)) h) a (us @ vs)"
    by (rule del_between [OF 5 clist_nodes(1,2) [OF 5]])
  have "e \<notin> insert a (set (us @ vs))"
    using 5 by (auto simp: clist_def)
  then show ?case
    unfolding list_del_def using d
    by (subst clist_cong [of _ _ _ "list_del_between (lprev (h e)) (lnext (h e)) h"])
       (auto simp: set_next_def set_prev_def)
next
  case (6 h a xs)
  then show ?case
    using clist_ends [OF 6] by (cases xs) (auto simp: list_empty_def clist_def)
next
  case (7 h a xs b ys n)
  have "lnext (h a) \<in> insert a (set xs)" "lprev (h a) \<in> insert a (set xs)"
    using clist_ends [OF 7(1)] end_nodes [where a = a and xs = xs] by simp_all
  then have "x \<notin> {n, a, lnext (h a)}" "x \<notin> {n, lprev (h a), a}" if "x = b \<or> x \<in> set ys" for x
    using that 7(3,5) by auto
  then show ?case
    using 7(2) clist_cong [of b ys "list_add n a h" h] clist_cong [of b ys "list_add_tail n a h" h]
    by (simp add: list_add_def list_add_tail_def between_frame)
next
  case (8 h a us e vs b ys)
  have "lnext (h e) \<in> insert a (set (us @ e # vs))" "lprev (h e) \<in> insert a (set (us @ e # vs))"
    using clist_nodes [OF 8(1)] by simp_all
  then have "x \<notin> {lprev (h e), lnext (h e)}" "x \<noteq> e" if "x = b \<or> x \<in> set ys" for x
    using that 8(3) by auto
  then show ?case
    using 8(2) clist_cong [of b ys "list_del e h" h]
    by (simp add: list_del_def between_frame set_next_def set_prev_def)
qed

section \<open>The remaining operations\<close>

lemma list_del_init:
  assumes "clist h a (us @ e # vs)"
  shows "clist (list_del_init e h) a (us @ vs) \<and> clist (list_del_init e h) e []"
proof -
  have d: "clist (list_del_between (lprev (h e)) (lnext (h e)) h) a (us @ vs)"
    by (rule del_between [OF assms clist_nodes(1,2) [OF assms]])
  have "e \<notin> insert a (set (us @ vs))"
    using assms by (auto simp: clist_def)
  then show ?thesis
    unfolding list_del_init_def INIT_LIST_HEAD_def using d
    by (subst clist_cong [of a "us @ vs" _ "list_del_between (lprev (h e)) (lnext (h e)) h"])
       (auto simp: set_next_def set_prev_def clist_def)
qed

lemma list_replace:
  assumes "clist h a (us @ old # vs)" "new \<notin> set (a # us @ old # vs)"
  shows "clist (list_replace old new h) a (us @ new # vs)"
proof -
  define p q where "p = lprev (h old)" and "q = lnext (h old)"
  have "q \<noteq> old" "old \<noteq> new"
    using clist_nodes(2) [OF assms(1)] assms by (cases vs; auto simp: q_def clist_def)+
  then have "list_replace old new h = list_add_between new p q (list_del_between p q h)"
    by (simp add: list_replace_def list_add_between_def list_del_between_def set_next_def set_prev_def
        Let_def p_def q_def fun_eq_iff)
  moreover have "clist (list_del_between p q h) a (us @ vs)"
    unfolding p_def q_def by (rule del_between [OF assms(1) clist_nodes(1,2) [OF assms(1)]])
  then have "clist (list_add_between new p q (list_del_between p q h)) a (us @ new # vs)"
    using assms(2) clist_nodes(1,2) [OF assms(1)] by (intro add_between) (auto simp: p_def q_def)
  ultimately show ?thesis
    by simp
qed

lemma del_between_other:
  assumes "clist h a (us @ e # vs)" "clist h b ys" "insert a (set (us @ e # vs)) \<inter> insert b (set ys) = {}"
  shows "clist (list_del_between (lprev (h e)) (lnext (h e)) h) b ys"
proof -
  have "lnext (h e) \<in> insert a (set (us @ e # vs))" "lprev (h e) \<in> insert a (set (us @ e # vs))"
    using clist_nodes [OF assms(1)] by simp_all
  then have "x \<notin> {lprev (h e), lnext (h e)}" if "x = b \<or> x \<in> set ys" for x
    using that assms(3) by auto
  then show ?thesis
    using assms(2) clist_cong [of b ys "list_del_between (lprev (h e)) (lnext (h e)) h" h]
    by (simp add: between_frame)
qed

lemma list_move:
  assumes "clist h a (us @ e # vs)" "clist h b ys" "insert a (set (us @ e # vs)) \<inter> insert b (set ys) = {}"
  shows "clist (list_move e b h) b (e # ys) \<and> clist (list_move e b h) a (us @ vs)"
    and "clist (list_move_tail e b h) b (ys @ [e]) \<and> clist (list_move_tail e b h) a (us @ vs)"
proof -
  note d = del_between [OF assms(1) clist_nodes(1,2) [OF assms(1)]]
  note o = del_between_other [OF assms]
  have e: "e \<notin> set (b # ys)" "e \<notin> set (a # us @ vs)"
    using assms(1,3) by (auto simp: clist_def)
  have i: "insert b (set ys) \<inter> insert a (set (us @ vs)) = {}"
    using assms(3) by auto
  show "clist (list_move e b h) b (e # ys) \<and> clist (list_move e b h) a (us @ vs)"
    and "clist (list_move_tail e b h) b (ys @ [e]) \<and> clist (list_move_tail e b h) a (us @ vs)"
    unfolding list_move_def list_move_tail_def
    using klist.add [OF o e(1)] klist.add_tail [OF o e(1)] klist.add_other [OF o d i e] by simp_all
qed

text \<open>\<open>list_splice\<close> prepends the nodes; the head of the emptied list keeps pointing to them.\<close>

lemma list_splice:
  assumes "clist h l xs" "clist h a ys" "insert l (set xs) \<inter> insert a (set ys) = {}"
  shows "clist (list_splice l a h) a (xs @ ys)"
proof (cases xs)
  case Nil
  then show ?thesis
    using assms by (simp add: list_splice_def list_empty_def clist_def)
next
  case (Cons f ws)
  have "lnext (h l) = f" "lprev (h l) = last (f # ws)" "f \<noteq> l"
    using clist_ends [OF assms(1)] assms(1) by (auto simp: Cons clist_def)
  then have s: "list_splice l a h = list_splice_between l a (lnext (h a)) h"
    by (simp add: list_splice_def list_empty_def)
  show ?thesis
    using assms unfolding s list_splice_between_def
    by (cases ws rule: rev_cases; cases ys) (auto simp: Cons clist_def seg_upd Let_def)
qed

lemma list_is_last: "clist h a xs \<Longrightarrow> x \<in> set xs \<Longrightarrow> list_is_last x a h \<longleftrightarrow> x = last xs"
proof -
  assume c: "clist h a xs" and "x \<in> set xs"
  then obtain us vs where s: "xs = us @ x # vs"
    by (meson split_list)
  show ?thesis
    using clist_nodes(2) [of h a us x vs] c by (cases vs) (auto simp: s list_is_last_def clist_def)
qed

text \<open>The traversal visits the nodes in order and ends.\<close>

lemma list_find_seg:
  "seg h p xs a \<Longrightarrow> a \<notin> set xs \<Longrightarrow>
   list_find P h a (lnext (h p)) = Some (case find P xs of None \<Rightarrow> a | Some x \<Rightarrow> x)"
proof (induction xs arbitrary: p)
  case Nil
  then show ?case by (subst list_find.simps) simp
next
  case (Cons x xs)
  then show ?case by (subst list_find.simps) auto
qed

lemma list_find: "clist h a xs \<Longrightarrow> list_find P h a (lnext (h a)) = Some (case find P xs of None \<Rightarrow> a | Some x \<Rightarrow> x)"
  by (simp add: clist_def list_find_seg)

text \<open>
  \<^bold>\<open>C25.\<close> The list operations of \<^verbatim>\<open>list.h\<close> implement operations on lists of nodes.  On a heap where head
  \<open>a\<close> links the nodes \<open>us @ e # vs\<close> and head \<open>b\<close> links \<open>ys\<close>, with no node in common, and \<open>n\<close> is in neither:
  \<open>list_add\<close> and \<open>list_add_tail\<close> insert \<open>n\<close> at the two ends, \<open>list_replace\<close> puts \<open>n\<close> in the place of \<open>e\<close>,
  \<open>list_del\<close> and \<open>list_del_init\<close> remove \<open>e\<close>, \<open>list_move_tail\<close> moves it to the end of the other list,
  \<open>list_splice\<close> prepends one list to the other, and \<open>list_find\<close> returns the first node that satisfies
  the property.
\<close>

theorem list_operations:
  assumes "clist h a (us @ e # vs)" "clist h b ys" "insert a (set (us @ e # vs)) \<inter> insert b (set ys) = {}"
    and "n \<notin> set (a # us @ e # vs) \<union> set (b # ys)"
  shows "clist (list_add n a h) a (n # us @ e # vs) \<and> clist (list_add_tail n a h) a (us @ e # vs @ [n])
    \<and> clist (list_add n a h) b ys \<and> clist (list_add_tail n a h) b ys
    \<and> clist (list_replace e n h) a (us @ n # vs)
    \<and> clist (list_del e h) a (us @ vs) \<and> clist (list_del e h) b ys
    \<and> clist (list_del_init e h) a (us @ vs) \<and> clist (list_del_init e h) e []
    \<and> clist (list_move e b h) b (e # ys) \<and> clist (list_move e b h) a (us @ vs)
    \<and> clist (list_move_tail e b h) b (ys @ [e]) \<and> clist (list_move_tail e b h) a (us @ vs)
    \<and> clist (list_splice a b h) b (us @ e # vs @ ys)
    \<and> list_find P h a (lnext (h a)) = Some (case find P (us @ e # vs) of None \<Rightarrow> a | Some x \<Rightarrow> x)"
proof -
  have n: "n \<notin> set (a # us @ e # vs)" "n \<notin> set (b # ys)"
    using assms(4) by auto
  have t: "clist (list_add_tail n a h) a (us @ e # vs @ [n])"
    using klist.add_tail [OF assms(1) n(1)] by simp
  have s: "clist (list_splice a b h) b (us @ e # vs @ ys)"
    using list_splice [OF assms(1-3)] by simp
  show ?thesis
    using klist.add [OF assms(1) n(1)] t klist.add_other [OF assms(1-3) n] list_replace [OF assms(1) n(1)]
      klist.del [OF assms(1)] klist.del_other [OF assms(1-3)] list_del_init [OF assms(1)] list_move [OF assms(1-3)]
      s list_find [OF assms(1)] by blast
qed

definition two_lists :: lheap where
  "two_lists = list_add_tail 12 1 (list_add_tail 11 1 (INIT_LIST_HEAD 2 (INIT_LIST_HEAD 1 (\<lambda>_. \<lparr>lnext = 0, lprev = 0\<rparr>))))"

theorem list_operations_witness:
  "clist (list_move_tail 11 2 two_lists) 2 [11] \<and> clist (list_move_tail 11 2 two_lists) 1 [12]"
proof -
  have "clist two_lists 1 ([] @ 11 # [12])" "clist two_lists 2 []"
    by (simp_all add: two_lists_def clist_def INIT_LIST_HEAD_def list_add_tail_def list_add_between_def)
  from list_operations [OF this, of 13] show ?thesis
    by simp
qed

end
