(* ===== verification/Semaphore.thy ===== *)
theory Semaphore
  imports Lock Klist Kheap_Spec
begin

text \<open>
  POSIX semaphores, \<^verbatim>\<open>sync/semaphore.c\<close>.  Semaphores live in a typed store, their list nodes at
  offset 84 of the structure in a heap of nodes, and the storage of named ones comes from the kernel
  heap.  The state records whether interrupts are on, since every operation turns them off and
  restores them; while \<open>sem_wait\<close> waits with interrupts on, the rest of the system runs, which is its
  argument \<open>env\<close>.  The system calls \<^verbatim>\<open>sys_sem_*\<close> call the operations with their arguments unchanged.
\<close>

section \<open>Semaphores\<close>

abbreviation (input) EOVERFLOW :: int where "EOVERFLOW \<equiv> 75"

definition SEM_VALUE_MAX :: u32 where "SEM_VALUE_MAX = 32767"
definition SEM_MAX_NAMED :: u32 where "SEM_MAX_NAMED = 256"
definition SEM_FLAG_NAMED :: u32 where "SEM_FLAG_NAMED = 1"
definition SEM_FLAG_SHARED :: u32 where "SEM_FLAG_SHARED = 2"
definition O_CREAT :: u32 where "O_CREAT = 0x40"
definition O_EXCL :: u32 where "O_EXCL = 0x80"

record semaphore =
  scount :: int
  sflags :: u32
  swait_queue :: wait_queue_head
  sname :: "u8 list"
  srefcount :: u32
  swait_count :: u64
  spost_count :: u64

record sem_state =
  sem_kh :: kheap
  sem_at :: "addr \<Rightarrow> semaphore"
  sem_nodes :: lheap
  named_sems :: addr
  named_count :: u32
  total_waits :: u64
  total_posts :: u64
  irqs_on :: bool

definition sem_list :: "addr \<Rightarrow> addr" where "sem_list sem = sem + 84"
definition sem_entry :: "addr \<Rightarrow> addr" where "sem_entry node = node - 84"

definition upd_sem :: "addr \<Rightarrow> (semaphore \<Rightarrow> semaphore) \<Rightarrow> sem_state \<Rightarrow> sem_state" where
  "upd_sem sem f s = s\<lparr>sem_at := (sem_at s)(sem := f (sem_at s sem))\<rparr>"

definition semaphore_init :: "sem_state \<Rightarrow> sem_state" where
  "semaphore_init s = s\<lparr>sem_nodes := INIT_LIST_HEAD (named_sems s) (sem_nodes s),
     named_count := 0, total_waits := 0, total_posts := 0\<rparr>"

definition sem_init :: "addr \<Rightarrow> int \<Rightarrow> u32 \<Rightarrow> sem_state \<Rightarrow> sem_state \<times> int" where
  "sem_init sem pshared val s =
     (if sem = NULL then (s, - EINVAL)
      else if val > SEM_VALUE_MAX then (s, - EINVAL)
      else let s = upd_sem sem (\<lambda>_. \<lparr>scount = uint val, sflags = (if pshared \<noteq> 0 then SEM_FLAG_SHARED else 0),
             swait_queue = init_waitqueue_head, sname = [], srefcount = 0, swait_count = 0, spost_count = 0\<rparr>) s
           in (s\<lparr>sem_nodes := INIT_LIST_HEAD (sem_list sem) (sem_nodes s)\<rparr>, 0))"

definition sema_init :: "addr \<Rightarrow> int \<Rightarrow> sem_state \<Rightarrow> sem_state" where
  "sema_init sem val s =
     upd_sem sem (\<lambda>x. x\<lparr>scount := val, sflags := 0, swait_queue := init_waitqueue_head,
       swait_count := 0, spost_count := 0\<rparr>) s"

definition sem_destroy :: "addr \<Rightarrow> sem_state \<Rightarrow> sem_state \<times> int" where
  "sem_destroy sem s =
     (if sem = NULL then (s, - EINVAL)
      else if sflags (sem_at s sem) AND SEM_FLAG_NAMED \<noteq> 0 then (s, - EINVAL)
      else (s, 0))"

section \<open>Named semaphores\<close>

text \<open>The outer option is \<open>None\<close> if the traversal of the list does not end.\<close>

definition sem_find_named :: "u8 list \<Rightarrow> sem_state \<Rightarrow> addr option" where
  "sem_find_named name s =
     map_option (\<lambda>n. if n = named_sems s then NULL else sem_entry n)
       (list_find (\<lambda>n. sname (sem_at s (sem_entry n)) = name) (sem_nodes s) (named_sems s)
         (lnext (sem_nodes s (named_sems s))))"

definition new_named_sem :: "addr \<Rightarrow> u8 list \<Rightarrow> u32 \<Rightarrow> sem_state \<Rightarrow> sem_state" where
  "new_named_sem sem name val s =
     (let s = upd_sem sem (\<lambda>_. \<lparr>scount = uint val, sflags = SEM_FLAG_NAMED OR SEM_FLAG_SHARED,
            swait_queue = init_waitqueue_head, sname = take 63 name, srefcount = 1,
            swait_count = 0, spost_count = 0\<rparr>) s
      in s\<lparr>sem_nodes := list_add_tail (sem_list sem) (named_sems s) (INIT_LIST_HEAD (sem_list sem) (sem_nodes s)),
           named_count := named_count s + 1\<rparr>)"

definition sem_open :: "u8 list option \<Rightarrow> u32 \<Rightarrow> u32 \<Rightarrow> sem_state \<Rightarrow> (sem_state \<times> addr) option" where
  "sem_open name oflag val s =
     (case name of
        None \<Rightarrow> Some (s, NULL)
      | Some name \<Rightarrow>
          if name = [] \<or> hd name \<noteq> 0x2F then Some (s, NULL)
          else if val > SEM_VALUE_MAX then Some (s, NULL)
          else do {
            sem \<leftarrow> sem_find_named name s;
            if sem \<noteq> NULL then
              (if oflag AND O_CREAT \<noteq> 0 \<and> oflag AND O_EXCL \<noteq> 0 then Some (s, NULL)
               else Some (upd_sem sem (\<lambda>x. x\<lparr>srefcount := srefcount x + 1\<rparr>) s, sem))
            else if oflag AND O_CREAT = 0 then Some (s, NULL)
            else if named_count s \<ge> SEM_MAX_NAMED then Some (s, NULL)
            else do {
              (h, sem) \<leftarrow> kmalloc 108 (sem_kh s);
              let s = s\<lparr>sem_kh := h\<rparr>;
              if sem = NULL then Some (s, NULL)
              else Some (new_named_sem sem name val s, sem)
            }
          })"

definition sem_close :: "addr \<Rightarrow> sem_state \<Rightarrow> sem_state \<times> int" where
  "sem_close sem s =
     (if sem = NULL \<or> sflags (sem_at s sem) AND SEM_FLAG_NAMED = 0 then (s, - EINVAL)
      else if srefcount (sem_at s sem) > 0 then (upd_sem sem (\<lambda>x. x\<lparr>srefcount := srefcount x - 1\<rparr>) s, 0)
      else (s, 0))"

definition sem_unlink :: "u8 list \<Rightarrow> sem_state \<Rightarrow> (sem_state \<times> int) option" where
  "sem_unlink name s = do {
     sem \<leftarrow> sem_find_named name s;
     if sem = NULL then Some (s, - ENOENT)
     else if srefcount (sem_at s sem) > 0 then Some (s, 0)
     else do {
       let s = s\<lparr>sem_nodes := list_del (sem_list sem) (sem_nodes s), named_count := named_count s - 1\<rparr>;
       h \<leftarrow> kfree sem (sem_kh s);
       Some (s\<lparr>sem_kh := h\<rparr>, 0)
     }
   }"

section \<open>Waiting and posting\<close>

text \<open>One pass of the loop of \<^verbatim>\<open>sem_wait\<close>: the test and, if it succeeds, the decrement.\<close>

definition sem_attempt :: "addr \<Rightarrow> sem_state \<Rightarrow> sem_state \<times> bool" where
  "sem_attempt sem s =
     (if scount (sem_at s sem) \<le> 0 then
        ((upd_sem sem (\<lambda>x. x\<lparr>swait_count := swait_count x + 1\<rparr>) s)\<lparr>total_waits := total_waits s + 1\<rparr>, False)
      else (upd_sem sem (\<lambda>x. x\<lparr>scount := scount x - 1\<rparr>) s, True))"

text \<open>The window \<^verbatim>\<open>sti; hlt; cli\<close>: the rest of the system runs with interrupts on.\<close>

definition irq_window :: "(nat \<Rightarrow> sem_state \<Rightarrow> sem_state) \<Rightarrow> nat \<Rightarrow> sem_state \<Rightarrow> sem_state" where
  "irq_window env k s = (env k (s\<lparr>irqs_on := True\<rparr>))\<lparr>irqs_on := False\<rparr>"

definition sem_wait :: "(nat \<Rightarrow> sem_state \<Rightarrow> sem_state) \<Rightarrow> addr \<Rightarrow> sem_state \<Rightarrow> (sem_state \<times> int) option" where
  "sem_wait env sem s =
     (if sem = NULL then Some (s, - EINVAL)
      else map_option (\<lambda>t. (t\<lparr>irqs_on := irqs_on s\<rparr>, 0))
        (busy_wait (sem_attempt sem) (irq_window env) 0 (s\<lparr>irqs_on := False\<rparr>)))"

definition sem_trywait :: "addr \<Rightarrow> sem_state \<Rightarrow> sem_state \<times> int" where
  "sem_trywait sem s =
     (if sem = NULL then (s, - EINVAL)
      else let fl = irqs_on s; s = s\<lparr>irqs_on := False\<rparr> in
        if scount (sem_at s sem) \<le> 0 then (s\<lparr>irqs_on := fl\<rparr>, - EAGAIN)
        else ((upd_sem sem (\<lambda>x. x\<lparr>scount := scount x - 1\<rparr>) s)\<lparr>irqs_on := fl\<rparr>, 0))"

definition sem_timedwait :: "(nat \<Rightarrow> sem_state \<Rightarrow> sem_state) \<Rightarrow> addr \<Rightarrow> sem_state \<Rightarrow> (sem_state \<times> int) option" where
  "sem_timedwait env sem s = sem_wait env sem s"

definition sem_post :: "addr \<Rightarrow> sem_state \<Rightarrow> sem_state \<times> int" where
  "sem_post sem s =
     (if sem = NULL then (s, - EINVAL)
      else let fl = irqs_on s; s = s\<lparr>irqs_on := False\<rparr> in
        if scount (sem_at s sem) \<ge> uint SEM_VALUE_MAX then (s\<lparr>irqs_on := fl\<rparr>, - EOVERFLOW)
        else ((upd_sem sem (\<lambda>x. x\<lparr>scount := scount x + 1, spost_count := spost_count x + 1\<rparr>) s)
               \<lparr>total_posts := total_posts s + 1, irqs_on := fl\<rparr>, 0))"

definition sem_getvalue :: "addr \<Rightarrow> sem_state \<Rightarrow> int option" where
  "sem_getvalue sem s = (if sem = NULL then None else Some (scount (sem_at s sem)))"

definition down :: "(nat \<Rightarrow> sem_state \<Rightarrow> sem_state) \<Rightarrow> addr \<Rightarrow> sem_state \<Rightarrow> sem_state option" where
  "down env sem s = map_option fst (sem_wait env sem s)"

definition down_interruptible :: "(nat \<Rightarrow> sem_state \<Rightarrow> sem_state) \<Rightarrow> addr \<Rightarrow> sem_state \<Rightarrow> (sem_state \<times> int) option" where
  "down_interruptible env sem s = sem_wait env sem s"

definition down_trylock :: "addr \<Rightarrow> sem_state \<Rightarrow> sem_state \<times> int" where
  "down_trylock sem s = sem_trywait sem s"

definition up :: "addr \<Rightarrow> sem_state \<Rightarrow> sem_state" where
  "up sem s = fst (sem_post sem s)"

section \<open>Counting\<close>

lemma upd_sem_simps [simp]:
  "sem_at (upd_sem a f s) = (sem_at s)(a := f (sem_at s a))" "irqs_on (upd_sem a f s) = irqs_on s"
  "sem_nodes (upd_sem a f s) = sem_nodes s" "named_sems (upd_sem a f s) = named_sems s"
  "named_count (upd_sem a f s) = named_count s" "sem_kh (upd_sem a f s) = sem_kh s"
  by (simp_all add: upd_sem_def)

definition sem_units :: "addr \<Rightarrow> sem_state \<Rightarrow> nat" where
  "sem_units sem s = nat (scount (sem_at s sem))"

text \<open>A semaphore is a resource with as many units as its value.\<close>

interpretation semres: resource "\<lambda>s. sem \<noteq> 0 \<and> 0 \<le> scount (sem_at s sem)" "sem_units sem" 32767
  "sem_attempt sem" "\<lambda>s. fst (sem_post sem s)" for sem
proof (unfold_locales, goal_cases)
  case (1 s n s' b)
  then show ?case by (auto simp: sem_units_def sem_attempt_def split: if_splits)
next
  case (2 s s' b)
  then show ?case by (auto simp: sem_units_def sem_attempt_def split: if_splits)
next
  case (3 s)
  then show ?case by (auto simp: sem_units_def sem_post_def SEM_VALUE_MAX_def Let_def)
qed

text \<open>
  \<^bold>\<open>C6.\<close> A semaphore with value \<open>n\<close> admits \<open>n\<close> processes.  However processes interleave their attempts of
  \<open>sem_wait\<close> and their calls of \<open>sem_post\<close>, when each posts only after it was admitted, at most \<open>n\<close> are
  inside at any time, and the next attempt succeeds exactly if fewer than \<open>n\<close> are: a unit is neither
  lost nor made up.  With value 1 the semaphore is a mutual exclusion lock.
\<close>

theorem semaphore_admits_value:
  assumes "sem \<noteq> NULL" "sem_init sem pshared val s0 = (s, 0)"
    and "(sys_step (sem_attempt sem) (\<lambda>s. fst (sem_post sem s)))\<^sup>*\<^sup>* (s, \<lambda>_. Outside) (s', c)"
  shows "finite (inside c) \<and> card (inside c) \<le> unat val \<and> (snd (sem_attempt sem s') \<longleftrightarrow> card (inside c) < unat val)"
proof -
  have v: "val \<le> 32767" "scount (sem_at s sem) = uint val"
    using assms(1,2) by (auto simp: sem_init_def SEM_VALUE_MAX_def Let_def split: if_splits)
  then have u: "sem_units sem s = unat val" "unat val \<le> 32767"
    by (simp_all add: sem_units_def word_le_nat_alt)
  then show ?thesis
    using semres.exclusion [of sem s s' c] assms(1,3) v(2) by simp
qed

definition sem_state0 :: sem_state where
  "sem_state0 = \<lparr>sem_kh = demo_heap0, sem_at = \<lambda>_. \<lparr>scount = 0, sflags = 0, swait_queue = init_waitqueue_head, sname = [],
     srefcount = 0, swait_count = 0, spost_count = 0\<rparr>, sem_nodes = \<lambda>_. \<lparr>lnext = 0x1000, lprev = 0x1000\<rparr>,
     named_sems = 0x1000, named_count = 0, total_waits = 0, total_posts = 0, irqs_on = True\<rparr>"

text \<open>Two processes at a semaphore of value 1: the first enters, the second cannot.\<close>

theorem semaphore_admits_value_witness:
  "\<not> snd (sem_attempt 16 (fst (sem_attempt 16 (fst (sem_init 16 0 1 sem_state0)))))"
proof -
  let ?s = "fst (sem_init 16 0 1 sem_state0)" and ?step = "sys_step (sem_attempt 16) (\<lambda>s. fst (sem_post 16 s))"
  have i: "sem_init 16 0 1 sem_state0 = (?s, 0)"
    by (simp add: sem_init_def SEM_VALUE_MAX_def Let_def)
  have a: "sem_attempt 16 ?s = (fst (sem_attempt 16 ?s), True)"
    by (simp add: sem_init_def SEM_VALUE_MAX_def Let_def sem_attempt_def)
  have "?step (?s, \<lambda>_. Outside) (?s, (\<lambda>_. Outside)(0 := Trying))"
    by (rule sys_step.ask) simp
  moreover have "?step (?s, (\<lambda>_. Outside)(0 := Trying))
      (fst (sem_attempt 16 ?s), ((\<lambda>_. Outside)(0 := Trying))(0 := Inside))"
    by (rule sys_step.enter) (simp, rule a)
  ultimately have "?step\<^sup>*\<^sup>* (?s, \<lambda>_. Outside) (fst (sem_attempt 16 ?s), ((\<lambda>_. Outside)(0 := Trying))(0 := Inside))"
    by (meson rtranclp.rtrancl_into_rtrancl rtranclp.rtrancl_refl)
  from semaphore_admits_value [OF _ i this] show ?thesis
    by (simp add: inside_upd)
qed

lemma waiting_grows:
  assumes "\<And>i t. scount (sem_at t sem) \<le> scount (sem_at (env i t) sem)"
  shows "(\<And>i. i < j \<Longrightarrow> scount (sem_at (waiting (sem_attempt sem) (irq_window env) k s i) sem) \<le> 0) \<Longrightarrow>
    scount (sem_at s sem) \<le> scount (sem_at (waiting (sem_attempt sem) (irq_window env) k s j) sem)"
proof (induction j arbitrary: k s)
  case (Suc j)
  let ?t = "irq_window env k (fst (sem_attempt sem s))"
  have "scount (sem_at s sem) \<le> 0"
    using Suc.prems [of 0] by simp
  then have "scount (sem_at s sem) \<le> scount (sem_at ?t sem)"
    using assms [of "(fst (sem_attempt sem s))\<lparr>irqs_on := True\<rparr>" k] by (simp add: irq_window_def sem_attempt_def)
  moreover have "scount (sem_at ?t sem) \<le> scount (sem_at (waiting (sem_attempt sem) (irq_window env) (Suc k) ?t j) sem)"
    using Suc.IH [where k = "Suc k" and s = ?t] Suc.prems [of "Suc _"] by simp
  ultimately show ?case
    by simp
qed simp

lemma sem_attempt_got: "snd (sem_attempt sem s) \<longleftrightarrow> 0 < scount (sem_at s sem)"
  by (simp add: sem_attempt_def)



section \<open>Bounds\<close>

text \<open>
  The atomic steps of the operations, in any order and by any processes.  Waiting consists of attempts
  and of windows in which interrupts are on.  \<open>sema_init\<close>, which nothing in the kernel calls, stores its
  argument without a check; here it is called with values a semaphore may have.
\<close>

inductive sem_op :: "sem_state \<Rightarrow> sem_state \<Rightarrow> bool" where
  "sem_op s (fst (sem_init sem pshared val s))"
| "sem_open name oflag val s = Some (s', p) \<Longrightarrow> sem_op s s'"
| "sem_op s (fst (sem_close sem s))"
| "sem_unlink name s = Some (s', r) \<Longrightarrow> sem_op s s'"
| "sem_op s (fst (sem_attempt sem s))"
| "sem_op s (fst (sem_trywait sem s))"
| "sem_op s (fst (sem_post sem s))"
| "sem_op s (s\<lparr>irqs_on := b\<rparr>)"
| "0 \<le> v \<Longrightarrow> v \<le> uint SEM_VALUE_MAX \<Longrightarrow> sem_op s (sema_init sem v s)"
| "sem_op s (semaphore_init s)"
| "sem_op s (fst (sem_destroy sem s))"

definition sem_bounded :: "sem_state \<Rightarrow> bool" where
  "sem_bounded s \<longleftrightarrow> (\<forall>a. 0 \<le> scount (sem_at s a) \<and> scount (sem_at s a) \<le> uint SEM_VALUE_MAX)"

lemma sem_bounded_upd:
  "sem_bounded s \<Longrightarrow> 0 \<le> scount (f (sem_at s a)) \<and> scount (f (sem_at s a)) \<le> uint SEM_VALUE_MAX \<Longrightarrow>
   sem_bounded (upd_sem a f s)"
  by (simp add: sem_bounded_def)

lemma sem_bounded_frame [simp]:
  "sem_bounded (s\<lparr>irqs_on := b\<rparr>) = sem_bounded s" "sem_bounded (s\<lparr>total_waits := w\<rparr>) = sem_bounded s"
  "sem_bounded (s\<lparr>total_posts := w\<rparr>) = sem_bounded s" "sem_bounded (s\<lparr>sem_nodes := n\<rparr>) = sem_bounded s"
  "sem_bounded (s\<lparr>named_count := c\<rparr>) = sem_bounded s" "sem_bounded (s\<lparr>sem_kh := h\<rparr>) = sem_bounded s"
  by (simp_all add: sem_bounded_def)

lemma val_bounds: "\<not> (val :: u32) > SEM_VALUE_MAX \<Longrightarrow> 0 \<le> uint val \<and> uint val \<le> uint SEM_VALUE_MAX"
  by (simp add: word_le_def not_less)

lemma sem_bounded_open:
  assumes "sem_bounded s" "sem_open name oflag val s = Some (s', p)"
  shows "sem_bounded s'"
proof -
  have c: "sem_bounded (upd_sem a (\<lambda>x. x\<lparr>srefcount := r x\<rparr>) s)" for a r
    using assms(1) by (intro sem_bounded_upd) (auto simp: sem_bounded_def)
  have n: "sem_bounded (new_named_sem a nm val (s\<lparr>sem_kh := h\<rparr>))" if "\<not> val > SEM_VALUE_MAX" for a nm h
    using assms(1) val_bounds [OF that] unfolding new_named_sem_def Let_def
    by (simp) (intro sem_bounded_upd; simp)
  show ?thesis
    using assms c n by (auto simp: sem_open_def Let_def bind_eq_Some_conv split: option.splits if_splits)
qed

lemma sem_bounded_step: "sem_op s s' \<Longrightarrow> sem_bounded s \<Longrightarrow> sem_bounded s'"
proof (induction rule: sem_op.induct)
  case (1 s sem pshared val)
  then show ?case
    using val_bounds [of val] by (auto simp: sem_init_def Let_def intro!: sem_bounded_upd)
next
  case (2 name oflag val s s' p)
  then show ?case using sem_bounded_open by blast
next
  case (3 s sem)
  then show ?case by (auto simp: sem_close_def sem_bounded_def)
next
  case (4 name s s' r)
  then show ?case by (auto simp: sem_unlink_def Let_def bind_eq_Some_conv split: if_splits)
next
  case (5 s sem)
  then have "0 \<le> scount (sem_at s sem) \<and> scount (sem_at s sem) \<le> uint SEM_VALUE_MAX"
    by (simp add: sem_bounded_def)
  with 5 show ?case by (auto simp: sem_attempt_def intro!: sem_bounded_upd)
next
  case (6 s sem)
  then have "0 \<le> scount (sem_at s sem) \<and> scount (sem_at s sem) \<le> uint SEM_VALUE_MAX"
    by (simp add: sem_bounded_def)
  with 6 show ?case by (auto simp: sem_trywait_def Let_def intro!: sem_bounded_upd)
next
  case (7 s sem)
  then have "0 \<le> scount (sem_at s sem) \<and> scount (sem_at s sem) \<le> uint SEM_VALUE_MAX"
    by (simp add: sem_bounded_def)
  with 7 show ?case by (auto simp: sem_post_def Let_def intro!: sem_bounded_upd)
next
  case (9 v s sem)
  then show ?case by (auto simp: sema_init_def intro!: sem_bounded_upd)
next
  case (10 s)
  then show ?case by (simp add: semaphore_init_def sem_bounded_def)
next
  case (11 s sem)
  then show ?case by (auto simp: sem_destroy_def)
qed simp

text \<open>
  \<^bold>\<open>C27.\<close> As long as \<open>sema_init\<close> is given values from 0 to \<open>SEM_VALUE_MAX\<close>, the value of every semaphore
  stays in that range, in every order of the operations of any processes on any semaphores, so the
  32-bit counter never overflows; \<open>sem_post\<close> reports \<open>EOVERFLOW\<close> exactly at the maximum and
  \<open>sem_trywait\<close> \<open>EAGAIN\<close> exactly at 0.  The condition is needed: any other argument of \<open>sema_init\<close>, which
  checks nothing, breaks the range.
\<close>

theorem semaphore_bounds:
  assumes "sem_op\<^sup>*\<^sup>* s s'" "sem_bounded s" "sem \<noteq> NULL"
  shows "sem_bounded s' \<and> (snd (sem_post sem s') = - EOVERFLOW \<longleftrightarrow> scount (sem_at s' sem) = uint SEM_VALUE_MAX)
      \<and> (snd (sem_trywait sem s') = - EAGAIN \<longleftrightarrow> scount (sem_at s' sem) = 0)
      \<and> (sem_bounded (sema_init sem v s') \<longleftrightarrow> 0 \<le> v \<and> v \<le> uint SEM_VALUE_MAX)"
proof -
  have b: "sem_bounded s'"
    using assms(1,2) by (induction rule: rtranclp_induct) (auto intro: sem_bounded_step)
  then have "0 \<le> scount (sem_at s' sem)" "scount (sem_at s' sem) \<le> uint SEM_VALUE_MAX"
    by (simp_all add: sem_bounded_def)
  moreover have "sem_bounded (sema_init sem v s') \<longleftrightarrow> 0 \<le> v \<and> v \<le> uint SEM_VALUE_MAX"
    using b by (auto simp: sema_init_def sem_bounded_def)
  ultimately show ?thesis
    using b assms(3) by (auto simp: sem_post_def sem_trywait_def Let_def)
qed

theorem semaphore_bounds_witness:
  "sem_bounded (fst (sem_post 16 sem_state0)) \<and> \<not> sem_bounded (sema_init 16 (-1) (fst (sem_post 16 sem_state0)))"
proof -
  have "sem_bounded sem_state0"
    by (simp add: sem_bounded_def sem_state0_def SEM_VALUE_MAX_def)
  moreover have "sem_op\<^sup>*\<^sup>* sem_state0 (fst (sem_post 16 sem_state0))"
    by (rule r_into_rtranclp) (rule sem_op.intros)
  ultimately show ?thesis
    using semaphore_bounds [of sem_state0 "fst (sem_post 16 sem_state0)" 16 "-1"] by simp
qed

section \<open>The list of named semaphores\<close>

lemma split_block_start [simp]: "heap_start (split_block b n h) = heap_start h"
  by (simp add: split_block_def Let_def)

lemma expand_heap_start: "expand_heap n h = Some (h', p) \<Longrightarrow> heap_start h' = heap_start h"
  by (auto simp: expand_heap_def append_block_def Let_def bind_eq_Some_conv split: if_splits)

lemma kmalloc_start: "kmalloc n h = Some (h', p) \<Longrightarrow> heap_start h' = heap_start h"
  by (auto simp: kmalloc_def Let_def bind_eq_Some_conv dest: expand_heap_start split: if_splits option.splits)

text \<open>
  \<open>named_inv L s sems\<close>: the list links the semaphores \<open>sems\<close>, each in its own live area of the kernel
  heap; the head of the list is a static object below the heap.
\<close>

definition named_inv :: "(addr \<rightharpoonup> nat) \<Rightarrow> sem_state \<Rightarrow> addr list \<Rightarrow> bool" where
  "named_inv L s sems \<longleftrightarrow> heap_live (sem_kh s) L \<and> (\<forall>p\<in>set sems. \<exists>m. L p = Some m \<and> 108 \<le> m)
     \<and> named_sems s < heap_start (sem_kh s)
     \<and> clist (sem_nodes s) (named_sems s) (map sem_list sems) \<and> named_count s = of_nat (length sems)
     \<and> (\<forall>p\<in>set sems. length (sname (sem_at s p)) \<le> 63)"

lemma sem_entry_list [simp]: "sem_entry (sem_list p) = p" "sem_list p = sem_list q \<longleftrightarrow> p = q"
  by (simp_all add: sem_entry_def sem_list_def)

lemma find_map: "find P (map f xs) = map_option f (find (\<lambda>x. P (f x)) xs)"
  by (induction xs) auto

lemma sem_find_named:
  assumes "named_inv L s sems"
  shows "sem_find_named name s = Some (case find (\<lambda>p. sname (sem_at s p) = name) sems of None \<Rightarrow> NULL | Some p \<Rightarrow> p)"
proof -
  have c: "clist (sem_nodes s) (named_sems s) (map sem_list sems)"
    using assms by (simp add: named_inv_def)
  then have "sem_list p \<noteq> named_sems s" if "p \<in> set sems" for p
    using that by (force simp: clist_def)
  then show ?thesis
    unfolding sem_find_named_def list_find [OF c] find_map
    by (auto split: option.splits dest!: find_Some_iff [THEN iffD1] simp: in_set_conv_nth)
qed

lemma named_inv_new:
  assumes "named_inv L s sems" "kmalloc 108 (sem_kh s) = Some (h, p)" "p \<noteq> 0"
  obtains m where "L p = None" "named_inv (L(p \<mapsto> m)) (new_named_sem p name val (s\<lparr>sem_kh := h\<rparr>)) (sems @ [p])"
proof -
  have l: "heap_live (sem_kh s) L" "\<forall>p\<in>set sems. \<exists>m. L p = Some m \<and> 108 \<le> m" "named_sems s < heap_start (sem_kh s)"
    "clist (sem_nodes s) (named_sems s) (map sem_list sems)" "named_count s = of_nat (length sems)"
    "\<forall>p\<in>set sems. length (sname (sem_at s p)) \<le> 63"
    using assms(1) by (simp_all add: named_inv_def)
  obtain m where m: "108 \<le> m" "L p = None" "heap_live h (L(p \<mapsto> m))"
    using kheap.alloc_new [OF l(1) _ assms(2,3)] by auto
  have st: "heap_start h = heap_start (sem_kh s)"
    by (rule kmalloc_start [OF assms(2)])
  have "unat (heap_start h) \<le> unat (p + of_nat 84)"
    using live_byte(2) [OF m(3), of p m 84] m(1) by simp
  then have hd: "sem_list p \<noteq> named_sems s"
    using l(3) st by (auto simp: sem_list_def word_less_nat_alt)
  have p: "p \<notin> set sems"
    using l(2) m(2) by auto
  let ?h = "INIT_LIST_HEAD (sem_list p) (sem_nodes s)"
  have "clist ?h (named_sems s) (map sem_list sems)"
    using l(4) hd p by (subst clist_cong [of _ _ _ "sem_nodes s"]) (auto simp: INIT_LIST_HEAD_def set_next_def set_prev_def)
  then have "clist (list_add_tail (sem_list p) (named_sems s) ?h) (named_sems s) (map sem_list sems @ [sem_list p])"
    using hd p by (intro klist.add_tail) auto
  then have "named_inv (L(p \<mapsto> m)) (new_named_sem p name val (s\<lparr>sem_kh := h\<rparr>)) (sems @ [p])"
    using l m st p by (auto simp: named_inv_def new_named_sem_def Let_def)
  then show thesis
    by (rule that [OF m(2)])
qed

text \<open>
  Named semaphores.  Opening a name of at most 63 characters with \<open>O_CREAT\<close> gives a semaphore that a
  later search for the name finds: the one with that name if there was one, with its value unchanged,
  and else a new one with the given value in storage of its own.  The list keeps its invariant.
\<close>

theorem sem_open_named:
  assumes "named_inv L s sems" "length name \<le> 63" "oflag AND O_CREAT \<noteq> 0"
    and "sem_open (Some name) oflag val s = Some (s', p)" "p \<noteq> NULL"
  shows "sem_find_named name s' = Some p
    \<and> (case sem_find_named name s of
         Some q \<Rightarrow> if q \<noteq> NULL then p = q \<and> scount (sem_at s' p) = scount (sem_at s p) \<and> named_inv L s' sems
                   else scount (sem_at s' p) = uint val \<and> L p = None \<and> (\<exists>m. named_inv (L(p \<mapsto> m)) s' (sems @ [p]))
       | None \<Rightarrow> False)"
proof (cases "find (\<lambda>p. sname (sem_at s p) = name) sems")
  case None
  then have f: "sem_find_named name s = Some NULL"
    using sem_find_named [OF assms(1)] by simp
  obtain h where h: "kmalloc 108 (sem_kh s) = Some (h, p)" "s' = new_named_sem p name val (s\<lparr>sem_kh := h\<rparr>)"
    using assms(3-5) f by (auto simp: sem_open_def bind_eq_Some_conv Let_def split: if_splits)
  obtain m where m: "L p = None" "named_inv (L(p \<mapsto> m)) s' (sems @ [p])"
    by (rule named_inv_new [OF assms(1) h(1) assms(5), of name val]) (simp add: h(2) that)
  have at: "sem_at s' q = sem_at s q" if "q \<noteq> p" for q
    using that by (simp add: h(2) new_named_sem_def Let_def)
  have p: "p \<notin> set sems"
    using m(1) assms(1) by (auto simp: named_inv_def)
  have "sem_at s' q = sem_at s q" if "q \<in> set sems" for q
    using that p by (intro at) auto
  then have "find (\<lambda>q. sname (sem_at s' q) = name) sems = None"
    using None by (simp add: find_None_iff)
  then have "find (\<lambda>q. sname (sem_at s' q) = name) (sems @ [p]) = Some p"
    using assms(2) by (simp add: find_append h(2) new_named_sem_def Let_def)
  then show ?thesis
    using f m sem_find_named [OF m(2)] by (auto simp: h(2) new_named_sem_def Let_def)
next
  case (Some q)
  have q: "q \<in> set sems" "sname (sem_at s q) = name"
    using Some by (auto simp: find_Some_iff)
  have "q \<noteq> 0"
    using q(1) assms(1) kheap.live_not_null by (fastforce simp: named_inv_def)
  then have f: "sem_find_named name s = Some q" "q \<noteq> 0"
    using sem_find_named [OF assms(1)] Some by simp_all
  have s': "p = q" "s' = upd_sem q (\<lambda>x. x\<lparr>srefcount := srefcount x + 1\<rparr>) s"
    using assms(4,5) f by (auto simp: sem_open_def split: if_splits)
  have n: "sname (sem_at s' x) = sname (sem_at s x)" for x
    by (simp add: s')
  have i: "named_inv L s' sems"
    using assms(1) by (simp add: named_inv_def s')
  have "sem_find_named name s' = Some q"
    unfolding sem_find_named [OF i] n by (simp add: Some)
  then show ?thesis
    using f s' i by simp
qed

lemma sem_state0_named: "named_inv Map.empty sem_state0 []"
  using demo_heap0_rel unfolding named_inv_def heap_live_def
  by (auto simp: sem_state0_def clist_def live_map_def demo_heap0_def intro!: exI [of _ "[]"])

lemma sem_state0_open:
  obtains h where "kmalloc 108 (sem_kh sem_state0) = Some (h, 0xD0000014)"
proof -
  have e: "request 108 = 132" "grown_size 132 = 4096"
    by (simp_all add: request_def grown_size_def)
  have g: "can_grow 108 demo_heap0"
    using demo16_inv(2) demo_vm_facts(3) by (simp add: can_grow_def e demo_heap0_def)
  obtain h' where "kmalloc 108 demo_heap0 = Some (h', 0xD0000014)"
    using kmalloc_grow [OF demo_heap0_rel, of 108] g by (auto simp: e demo_heap0_def)
  then show thesis
    by (intro that) (simp add: sem_state0_def)
qed

lemma sem_open_new:
  assumes "sem_find_named name s = Some NULL" "name \<noteq> []" "hd name = 0x2F" "val \<le> SEM_VALUE_MAX"
    "oflag AND O_CREAT \<noteq> 0" "named_count s < SEM_MAX_NAMED" "kmalloc 108 (sem_kh s) = Some (h, p)" "p \<noteq> 0"
  shows "sem_open (Some name) oflag val s = Some (new_named_sem p name val (s\<lparr>sem_kh := h\<rparr>), p)"
  using assms by (simp add: sem_open_def not_less not_le)

theorem sem_open_named_witness:
  "\<exists>s'. sem_open (Some [0x2F, 0x61]) O_CREAT 3 sem_state0 = Some (s', 0xD0000014) \<and>
     sem_find_named [0x2F, 0x61] s' = Some 0xD0000014 \<and> scount (sem_at s' 0xD0000014) = 3"
proof -
  obtain h where h: "kmalloc 108 (sem_kh sem_state0) = Some (h, 0xD0000014)"
    by (rule sem_state0_open)
  have f: "sem_find_named [0x2F, 0x61] sem_state0 = Some NULL"
    using sem_find_named [OF sem_state0_named] by simp
  have c: "named_count sem_state0 < SEM_MAX_NAMED"
    by (simp add: sem_state0_def SEM_MAX_NAMED_def)
  obtain s' where s': "sem_open (Some [0x2F, 0x61]) O_CREAT 3 sem_state0 = Some (s', 0xD0000014)"
    using sem_open_new [OF f _ _ _ _ c h, of 3 O_CREAT] by (auto simp: SEM_VALUE_MAX_def O_CREAT_def)
  from sem_open_named [OF sem_state0_named _ _ this] f s' show ?thesis
    by (auto simp: O_CREAT_def)
qed

text \<open>
  Names of more than 63 characters.  The name is cut when it is stored but compared in full, so
  creating such a semaphore, even exclusively, succeeds, but no search finds it: it cannot be
  unlinked, and a second exclusive creation of the same name gives a different semaphore.
\<close>

theorem sem_open_long_name:
  assumes "named_inv L s sems" "63 < length name"
    and "sem_open (Some name) (O_CREAT OR O_EXCL) val s = Some (s1, p)" "p \<noteq> NULL"
  shows "sem_find_named name s1 = Some NULL \<and> sem_unlink name s1 = Some (s1, - ENOENT)
    \<and> (sem_open (Some name) (O_CREAT OR O_EXCL) val' s1 = Some (s2, q) \<and> q \<noteq> NULL \<longrightarrow> q \<noteq> p)"
proof -
  have long: "sem_find_named name t = Some NULL" if "named_inv M t ss" for M t ss
  proof -
    have "find (\<lambda>p. sname (sem_at t p) = name) ss = None"
      using that assms(2) by (fastforce simp: find_None_iff named_inv_def)
    then show ?thesis
      using sem_find_named [OF that] by simp
  qed
  obtain h where h: "kmalloc 108 (sem_kh s) = Some (h, p)" "s1 = new_named_sem p name val (s\<lparr>sem_kh := h\<rparr>)"
    using assms(3,4) long [OF assms(1)] by (auto simp: sem_open_def bind_eq_Some_conv Let_def split: if_splits)
  obtain m where m: "named_inv (L(p \<mapsto> m)) s1 (sems @ [p])"
    by (rule named_inv_new [OF assms(1) h(1) assms(4), of name val]) (simp add: h(2) that)
  have "q \<noteq> p" if "sem_open (Some name) (O_CREAT OR O_EXCL) val' s1 = Some (s2, q)" "q \<noteq> 0"
  proof -
    note o = that
    obtain h' where "kmalloc 108 (sem_kh s1) = Some (h', q)"
      using o long [OF m] by (auto simp: sem_open_def bind_eq_Some_conv Let_def split: if_splits)
    then show ?thesis
      using named_inv_new [OF m _ o(2)] by (metis fun_upd_same option.distinct(1))
  qed
  then show ?thesis
    using long [OF m] by (simp add: sem_unlink_def)
qed

theorem sem_open_long_name_witness:
  "\<exists>s1. sem_open (Some (replicate 64 0x2F)) (O_CREAT OR O_EXCL) 1 sem_state0 = Some (s1, 0xD0000014) \<and>
     sem_find_named (replicate 64 0x2F) s1 = Some NULL"
proof -
  obtain h where h: "kmalloc 108 (sem_kh sem_state0) = Some (h, 0xD0000014)"
    by (rule sem_state0_open)
  have f: "sem_find_named (replicate 64 0x2F) sem_state0 = Some NULL"
    using sem_find_named [OF sem_state0_named] by simp
  have c: "named_count sem_state0 < SEM_MAX_NAMED"
    by (simp add: sem_state0_def SEM_MAX_NAMED_def)
  have r: "replicate 64 (0x2F :: u8) = 0x2F # replicate 63 0x2F"
    using replicate_Suc [of 63 "0x2F :: u8"] by simp
  obtain s' where s': "sem_open (Some (replicate 64 0x2F)) (O_CREAT OR O_EXCL) 1 sem_state0 = Some (s', 0xD0000014)"
    using sem_open_new [OF f _ _ _ _ c h, of 1 "O_CREAT OR O_EXCL"]
    by (auto simp: SEM_VALUE_MAX_def O_CREAT_def O_EXCL_def r simp del: replicate.simps)
  from sem_open_long_name [OF sem_state0_named _ this] s' show ?thesis
    by (auto simp del: replicate.simps)
qed

end
