(* ===== verification/Mqueue.thy ===== *)
theory Mqueue
  imports Semaphore Cstring
begin

text \<open>
  POSIX message queues, \<^verbatim>\<open>ipc/mqueue.c\<close>.  Queues and messages are structures in the kernel heap: their
  fields are in typed stores, their list nodes in a heap of nodes, at the offsets of the structures,
  and the text of a message follows its header of 16 bytes in the memory of the heap.  The system calls
  \<^verbatim>\<open>sys_mq_*\<close> pass their arguments on unchanged, with the address of the queue as descriptor.
\<close>

section \<open>State\<close>

abbreviation (input) EMSGSIZE :: int where "EMSGSIZE \<equiv> 90"

definition MQ_MAX_QUEUES :: u32 where "MQ_MAX_QUEUES = 64"
definition MQ_MAX_MESSAGES :: u32 where "MQ_MAX_MESSAGES = 32"
definition MQ_MAX_MSG_SIZE :: u32 where "MQ_MAX_MSG_SIZE = 8192"
definition MQ_PRIO_MAX :: u32 where "MQ_PRIO_MAX = 32768"
definition MQ_FLAG_NONBLOCK :: u32 where "MQ_FLAG_NONBLOCK = 1"
definition O_NONBLOCK :: u32 where "O_NONBLOCK = 0x800"

record mq_attr =
  mq_flags :: u32
  mq_maxmsg :: u32
  mq_msgsize :: u32
  mq_curmsgs :: u32

record mq_message =
  priority :: u32
  msize :: u32

record mqueue =
  mqname :: "u8 list"
  mqflags :: u32
  attr :: mq_attr
  mrefcount :: u32
  total_sent :: u64
  total_recv :: u64

record mq_state =
  mq_kh :: kheap
  queue_at :: "addr \<Rightarrow> mqueue"
  msg_at :: "addr \<Rightarrow> mq_message"
  mq_nodes :: lheap
  mq_queues :: addr
  queue_count :: u32
  total_messages :: u64
  total_bytes :: u64

definition mq_messages :: "addr \<Rightarrow> addr" where "mq_messages q = q + 84"
definition mq_wait_send :: "addr \<Rightarrow> addr" where "mq_wait_send q = q + 92"
definition mq_wait_recv :: "addr \<Rightarrow> addr" where "mq_wait_recv q = q + 100"
definition mq_list :: "addr \<Rightarrow> addr" where "mq_list q = q + 128"
definition mq_entry :: "addr \<Rightarrow> addr" where "mq_entry node = node - 128"
definition msg_data :: "addr \<Rightarrow> addr" where "msg_data m = m + 16"

definition upd_queue :: "addr \<Rightarrow> (mqueue \<Rightarrow> mqueue) \<Rightarrow> mq_state \<Rightarrow> mq_state" where
  "upd_queue q f s = s\<lparr>queue_at := (queue_at s)(q := f (queue_at s q))\<rparr>"

definition upd_attr :: "addr \<Rightarrow> (mq_attr \<Rightarrow> mq_attr) \<Rightarrow> mq_state \<Rightarrow> mq_state" where
  "upd_attr q f s = upd_queue q (\<lambda>x. x\<lparr>attr := f (attr x)\<rparr>) s"

section \<open>Queues\<close>

definition mqueue_init :: "mq_state \<Rightarrow> mq_state" where
  "mqueue_init s = s\<lparr>mq_nodes := INIT_LIST_HEAD (mq_queues s) (mq_nodes s), queue_count := 0, total_messages := 0, total_bytes := 0\<rparr>"

definition mqueue_find :: "u8 list \<Rightarrow> mq_state \<Rightarrow> addr option" where
  "mqueue_find name s =
     map_option (\<lambda>n. if n = mq_queues s then NULL else mq_entry n)
       (list_find (\<lambda>n. mqname (queue_at s (mq_entry n)) = name) (mq_nodes s) (mq_queues s) (lnext (mq_nodes s (mq_queues s))))"

definition new_attr :: "u32 \<Rightarrow> mq_attr option \<Rightarrow> mq_attr" where
  "new_attr fl a =
     (case a of
        Some a \<Rightarrow>
          let a = (if mq_maxmsg a = 0 \<or> mq_maxmsg a > MQ_MAX_MESSAGES then a\<lparr>mq_maxmsg := MQ_MAX_MESSAGES\<rparr> else a)
          in if mq_msgsize a = 0 \<or> mq_msgsize a > MQ_MAX_MSG_SIZE then a\<lparr>mq_msgsize := MQ_MAX_MSG_SIZE\<rparr> else a
      | None \<Rightarrow> \<lparr>mq_flags = fl, mq_maxmsg = MQ_MAX_MESSAGES, mq_msgsize = MQ_MAX_MSG_SIZE, mq_curmsgs = 0\<rparr>)"

definition new_mqueue :: "addr \<Rightarrow> u8 list \<Rightarrow> u32 \<Rightarrow> mq_attr option \<Rightarrow> mq_state \<Rightarrow> mq_state" where
  "new_mqueue q name oflag a s =
     (let fl = (if oflag AND O_NONBLOCK \<noteq> 0 then MQ_FLAG_NONBLOCK else 0);
          s = upd_queue q (\<lambda>_. \<lparr>mqname = take 63 name, mqflags = fl, attr = new_attr fl a, mrefcount = 1, total_sent = 0, total_recv = 0\<rparr>) s;
          n = INIT_LIST_HEAD (mq_list q) (INIT_LIST_HEAD (mq_wait_recv q) (INIT_LIST_HEAD (mq_wait_send q)
                (INIT_LIST_HEAD (mq_messages q) (mq_nodes s))))
      in s\<lparr>mq_nodes := list_add_tail (mq_list q) (mq_queues s) n, queue_count := queue_count s + 1\<rparr>)"

definition mq_open :: "u8 list option \<Rightarrow> u32 \<Rightarrow> mq_attr option \<Rightarrow> mq_state \<Rightarrow> (mq_state \<times> addr) option" where
  "mq_open name oflag a s =
     (case name of
        None \<Rightarrow> Some (s, NULL)
      | Some name \<Rightarrow>
          if name = [] \<or> hd name \<noteq> 0x2F then Some (s, NULL)
          else do {
            q \<leftarrow> mqueue_find name s;
            if q \<noteq> NULL then
              (if oflag AND O_CREAT \<noteq> 0 \<and> oflag AND O_EXCL \<noteq> 0 then Some (s, NULL)
               else Some (upd_queue q (\<lambda>x. x\<lparr>mrefcount := mrefcount x + 1\<rparr>) s, q))
            else if oflag AND O_CREAT = 0 then Some (s, NULL)
            else if queue_count s \<ge> MQ_MAX_QUEUES then Some (s, NULL)
            else do {
              (h, q) \<leftarrow> kmalloc 136 (mq_kh s);
              let s = s\<lparr>mq_kh := h\<rparr>;
              if q = NULL then Some (s, NULL) else Some (new_mqueue q name oflag a s, q)
            }
          })"

definition mq_close :: "addr \<Rightarrow> mq_state \<Rightarrow> mq_state \<times> int" where
  "mq_close q s =
     (if q = NULL then (s, - EINVAL)
      else if mrefcount (queue_at s q) > 0 then (upd_queue q (\<lambda>x. x\<lparr>mrefcount := mrefcount x - 1\<rparr>) s, 0)
      else (s, 0))"

partial_function (option) free_messages :: "addr \<Rightarrow> addr \<Rightarrow> mq_state \<Rightarrow> mq_state option" where
  "free_messages head cur s =
     (if cur = head then Some s
      else let nxt = lnext (mq_nodes s cur); s = s\<lparr>mq_nodes := list_del cur (mq_nodes s)\<rparr>
           in Option.bind (kfree cur (mq_kh s)) (\<lambda>h. free_messages head nxt (s\<lparr>mq_kh := h\<rparr>)))"

definition mq_unlink :: "u8 list \<Rightarrow> mq_state \<Rightarrow> (mq_state \<times> int) option" where
  "mq_unlink name s = do {
     q \<leftarrow> mqueue_find name s;
     if q = NULL then Some (s, - ENOENT)
     else if mrefcount (queue_at s q) > 0 then Some (s, 0)
     else do {
       s \<leftarrow> free_messages (mq_messages q) (lnext (mq_nodes s (mq_messages q))) s;
       let s = s\<lparr>mq_nodes := list_del (mq_list q) (mq_nodes s), queue_count := queue_count s - 1\<rparr>;
       h \<leftarrow> kfree q (mq_kh s);
       Some (s\<lparr>mq_kh := h\<rparr>, 0)
     }
   }"

section \<open>Messages\<close>

text \<open>The new message goes before the first one with a lower priority, or to the end of the list.\<close>

definition put_message :: "addr \<Rightarrow> addr \<Rightarrow> addr \<Rightarrow> u32 \<Rightarrow> u32 \<Rightarrow> mq_state \<Rightarrow> mq_state option" where
  "put_message q msg ptr len prio s = do {
     let s = s\<lparr>msg_at := (msg_at s)(msg := \<lparr>priority = prio, msize = len\<rparr>),
               mq_kh := (mq_kh s)\<lparr>payload := memcpy (msg_data msg) ptr len (payload (mq_kh s))\<rparr>,
               mq_nodes := INIT_LIST_HEAD msg (mq_nodes s)\<rparr>;
     pos \<leftarrow> list_find (\<lambda>n. prio > priority (msg_at s n)) (mq_nodes s) (mq_messages q) (lnext (mq_nodes s (mq_messages q)));
     let s = s\<lparr>mq_nodes := list_add_tail msg pos (mq_nodes s)\<rparr>;
     let s = upd_attr q (\<lambda>a. a\<lparr>mq_curmsgs := mq_curmsgs a + 1\<rparr>) s;
     let s = upd_queue q (\<lambda>x. x\<lparr>total_sent := total_sent x + 1\<rparr>) s;
     Some (s\<lparr>total_messages := total_messages s + 1, total_bytes := total_bytes s + ucast len\<rparr>)
   }"

definition mq_send :: "addr \<Rightarrow> addr \<Rightarrow> u32 \<Rightarrow> u32 \<Rightarrow> mq_state \<Rightarrow> (mq_state \<times> int) option" where
  "mq_send q ptr len prio s =
     (if q = NULL \<or> ptr = NULL then Some (s, - EINVAL)
      else if len > mq_msgsize (attr (queue_at s q)) then Some (s, - EMSGSIZE)
      else if prio \<ge> MQ_PRIO_MAX then Some (s, - EINVAL)
      else if mq_curmsgs (attr (queue_at s q)) \<ge> mq_maxmsg (attr (queue_at s q)) then Some (s, - EAGAIN)
      else do {
        (h, msg) \<leftarrow> kmalloc (16 + len) (mq_kh s);
        let s = s\<lparr>mq_kh := h\<rparr>;
        if msg = NULL then Some (s, - ENOMEM)
        else map_option (\<lambda>s. (s, 0)) (put_message q msg ptr len prio s)
      })"

text \<open>The last component is what is stored in \<^verbatim>\<open>*msg_prio\<close>, if that is wanted.\<close>

definition take_message :: "addr \<Rightarrow> addr \<Rightarrow> addr \<Rightarrow> u32 \<Rightarrow> mq_state \<Rightarrow> mq_state option" where
  "take_message q msg ptr len s = do {
     let copy_len = (if msize (msg_at s msg) < len then msize (msg_at s msg) else len);
     let s = s\<lparr>mq_kh := (mq_kh s)\<lparr>payload := memcpy ptr (msg_data msg) copy_len (payload (mq_kh s))\<rparr>,
               mq_nodes := list_del msg (mq_nodes s)\<rparr>;
     h \<leftarrow> kfree msg (mq_kh s);
     let s = upd_attr q (\<lambda>a. a\<lparr>mq_curmsgs := mq_curmsgs a - 1\<rparr>) (s\<lparr>mq_kh := h\<rparr>);
     let s = upd_queue q (\<lambda>x. x\<lparr>total_recv := total_recv x + 1\<rparr>) s;
     Some (s\<lparr>total_messages := total_messages s - 1, total_bytes := total_bytes s - ucast copy_len\<rparr>)
   }"

definition mq_receive :: "addr \<Rightarrow> addr \<Rightarrow> u32 \<Rightarrow> bool \<Rightarrow> mq_state \<Rightarrow> (mq_state \<times> int \<times> u32 option) option" where
  "mq_receive q ptr len msg_prio s =
     (if q = NULL \<or> ptr = NULL then Some (s, - EINVAL, None)
      else if len < mq_msgsize (attr (queue_at s q)) then Some (s, - EMSGSIZE, None)
      else if mq_curmsgs (attr (queue_at s q)) = 0 then Some (s, - EAGAIN, None)
      else let msg = lnext (mq_nodes s (mq_messages q));
               prio = (if msg_prio then Some (priority (msg_at s msg)) else None);
               ret = sint (msize (msg_at s msg))
           in map_option (\<lambda>s. (s, ret, prio)) (take_message q msg ptr len s))"

definition mq_getattr :: "addr \<Rightarrow> bool \<Rightarrow> mq_state \<Rightarrow> int \<times> mq_attr option" where
  "mq_getattr q wanted s = (if q = NULL \<or> \<not> wanted then (- EINVAL, None) else (0, Some (attr (queue_at s q))))"

definition mq_setattr :: "addr \<Rightarrow> mq_attr option \<Rightarrow> bool \<Rightarrow> mq_state \<Rightarrow> mq_state \<times> int \<times> mq_attr option" where
  "mq_setattr q newattr oldattr s =
     (case newattr of
        None \<Rightarrow> (s, - EINVAL, None)
      | Some a \<Rightarrow>
          if q = NULL then (s, - EINVAL, None)
          else let old = (if oldattr then Some (attr (queue_at s q)) else None);
                   s = upd_attr q (\<lambda>x. x\<lparr>mq_flags := mq_flags a\<rparr>) s
               in (upd_queue q (\<lambda>x. x\<lparr>mqflags := (if mq_flags a AND MQ_FLAG_NONBLOCK \<noteq> 0 then MQ_FLAG_NONBLOCK else 0)\<rparr>) s, 0, old))"


section \<open>The contents of a queue\<close>

text \<open>The abstract queue: messages with their priorities, in the order in which they will be received.\<close>

fun insert_msg :: "u32 \<Rightarrow> u8 list \<Rightarrow> (u32 \<times> u8 list) list \<Rightarrow> (u32 \<times> u8 list) list" where
  "insert_msg p d [] = [(p, d)]"
| "insert_msg p d ((p', d') # q) = (if p > p' then (p, d) # (p', d') # q else (p', d') # insert_msg p d q)"

lemma insert_msg_split:
  "insert_msg p d q = takeWhile (\<lambda>x. \<not> p > fst x) q @ (p, d) # dropWhile (\<lambda>x. \<not> p > fst x) q"
  by (induction p d q rule: insert_msg.induct) auto

lemma insert_msg_set: "set (insert_msg p d q) = insert (p, d) (set q)"
  by (induction p d q rule: insert_msg.induct) auto

text \<open>Higher priorities come first, and a message comes after those of its own priority.\<close>

lemma insert_msg_sorted:
  "sorted_wrt (\<lambda>x y. fst x \<ge> fst y) q \<Longrightarrow> sorted_wrt (\<lambda>x y. fst x \<ge> fst y) (insert_msg p d q)"
  by (induction p d q rule: insert_msg.induct) (auto simp: insert_msg_set intro: order_trans less_imp_le)

lemma insert_msg_fifo:
  "sorted_wrt (\<lambda>x y. fst x \<ge> fst y) q \<Longrightarrow>
   filter (\<lambda>x. fst x = r) (insert_msg p d q) = filter (\<lambda>x. fst x = r) q @ (if p = r then [(p, d)] else [])"
proof (induction p d q rule: insert_msg.induct)
  case (2 p d p' d' q)
  have "filter (\<lambda>x. fst x = p) q = []" if "p' < p"
    using that 2(2) by (auto simp: filter_empty_conv)
  with 2 show ?case by auto
qed simp

definition contents :: "mq_state \<Rightarrow> addr list \<Rightarrow> (u32 \<times> u8 list) list" where
  "contents s ms = map (\<lambda>m. (priority (msg_at s m), bytes_at (payload (mq_kh s)) (msg_data m) (unat (msize (msg_at s m))))) ms"

text \<open>\<open>mq_inv L s q ms\<close>: queue \<open>q\<close> links the messages \<open>ms\<close>, each in an area of the heap of its own.\<close>

definition mq_inv :: "(addr \<rightharpoonup> nat) \<Rightarrow> mq_state \<Rightarrow> addr \<Rightarrow> addr list \<Rightarrow> bool" where
  "mq_inv L s q ms \<longleftrightarrow> heap_live (mq_kh s) L \<and> (\<exists>m. L q = Some m \<and> 136 \<le> m) \<and> q \<notin> set ms \<and>
     clist (mq_nodes s) (mq_messages q) ms \<and>
     (\<forall>x\<in>set ms. (\<exists>m. L x = Some m \<and> 16 + unat (msize (msg_at s x)) \<le> m) \<and> msize (msg_at s x) \<le> mq_msgsize (attr (queue_at s q))) \<and>
     sorted_wrt (\<lambda>x y. fst x \<ge> fst y) (contents s ms) \<and>
     mq_curmsgs (attr (queue_at s q)) = of_nat (length ms) \<and> length ms \<le> unat (mq_maxmsg (attr (queue_at s q))) \<and>
     mq_msgsize (attr (queue_at s q)) \<le> MQ_MAX_MSG_SIZE"

lemma insert_before:
  assumes "clist h a xs" "n \<notin> set (a # xs)" "e = (case find P xs of None \<Rightarrow> a | Some x \<Rightarrow> x)"
  shows "clist (list_add_tail n e h) a (takeWhile (\<lambda>x. \<not> P x) xs @ n # dropWhile (\<lambda>x. \<not> P x) xs)"
proof -
  let ?us = "takeWhile (\<lambda>x. \<not> P x) xs" and ?vs = "dropWhile (\<lambda>x. \<not> P x) xs"
  have c: "clist h a (?us @ ?vs)"
    using assms(1) by simp
  have e: "e = hd (?vs @ [a])"
    unfolding assms(3) by (induction xs) auto
  have "lprev (h e) = last (a # ?us)"
    using clist_cut [OF c refl e] by simp
  then show ?thesis
    unfolding list_add_tail_def using assms(2) e by (intro add_between [OF c]) simp_all
qed

lemma live_offset:
  assumes "heap_live h L" "L p = Some m" "k \<le> m"
  shows "unat (p + of_nat k) = unat p + k" "unat p + m < 2 ^ 32" "unat (heap_start h) \<le> unat p"
proof -
  have r: "unat p + m < 2 ^ 32" "0 < unat p"
    using kheap.live_range [OF assms(1,2)] by simp_all
  show "unat p + m < 2 ^ 32" by fact
  show "unat (p + of_nat k) = unat p + k"
    using r assms(3) by (simp add: unat_add_bounded unat_of_nat)
  obtain bs s where bs: "heap_rel h bs" "(p - 20, s, True) \<in> set bs" "m = unat s - 20"
    using assms(1,2) by (auto simp: heap_live_def live_map_iff_rel)
  have "unat (heap_start h) \<le> unat (p - 20)" "unat p = unat (p - 20) + 20"
    using bs tiles_range block_pointer(1) [OF bs(1,2)] by (fastforce simp: heap_rel_def heap_shape_def)+
  then show "unat (heap_start h) \<le> unat p" by simp
qed

lemma upd_queue_simps [simp]:
  "mq_kh (upd_queue q f s) = mq_kh s" "msg_at (upd_queue q f s) = msg_at s" "mq_nodes (upd_queue q f s) = mq_nodes s"
  "queue_at (upd_queue q f s) q = f (queue_at s q)"
  "total_messages (upd_queue q f s) = total_messages s" "total_bytes (upd_queue q f s) = total_bytes s"
  "total_messages (upd_attr q g s) = total_messages s" "total_bytes (upd_attr q g s) = total_bytes s"
  "mq_kh (upd_attr q g s) = mq_kh s" "msg_at (upd_attr q g s) = msg_at s" "mq_nodes (upd_attr q g s) = mq_nodes s"
  "queue_at (upd_attr q g s) q = (queue_at s q)\<lparr>attr := g (attr (queue_at s q))\<rparr>"
  by (simp_all add: upd_queue_def upd_attr_def)

lemma contents_cong:
  assumes "\<And>x. x \<in> set ms \<Longrightarrow> msg_at s' x = msg_at s x"
    "\<And>x. x \<in> set ms \<Longrightarrow> bytes_at (payload (mq_kh s')) (msg_data x) (unat (msize (msg_at s x))) =
      bytes_at (payload (mq_kh s)) (msg_data x) (unat (msize (msg_at s x)))"
  shows "contents s' ms = contents s ms"
  using assms by (simp add: contents_def)

lemma contents_append: "contents s (us @ vs) = contents s us @ contents s vs"
  by (simp add: contents_def)

text \<open>The text of a live message, and that of another one.\<close>

lemma message_area:
  assumes "heap_live h L" "L x = Some m" "16 + n \<le> m"
  shows "unat (msg_data x) = unat x + 16" "unat (msg_data x) + n \<le> unat x + m" "unat x + m < 2 ^ 32"
    "unat (heap_start h) \<le> unat x"
  using live_offset [OF assms(1,2), of 16] assms(3) by (simp_all add: msg_data_def)

lemma head_not_live:
  assumes "heap_live h L" "L q = Some k" "136 \<le> k" "L x = Some m"
  shows "x \<noteq> mq_messages q"
proof
  assume e: "x = mq_messages q"
  then have "unat x = unat q + 84"
    using live_offset(1) [OF assms(1,2), of 84] assms(3) by (simp add: mq_messages_def)
  moreover have "x \<noteq> q"
    using e by (simp add: mq_messages_def)
  ultimately show False
    using kheap.live_disjoint [OF assms(1,2,4)] assms(3) by auto
qed

lemma put_text:
  assumes "heap_live h (L(msg \<mapsto> m))" "16 + unat len \<le> m" "unat ptr + unat len \<le> unat (heap_start h)"
  shows "bytes_at (memcpy (msg_data msg) ptr len f) (msg_data msg) (unat len) = bytes_at f ptr (unat len)"
    "L x = Some k \<Longrightarrow> x \<noteq> msg \<Longrightarrow> 16 + n \<le> k \<Longrightarrow> bytes_at (memcpy (msg_data msg) ptr len f) (msg_data x) n = bytes_at f (msg_data x) n"
proof -
  have a: "unat (msg_data msg) = unat msg + 16" "unat (msg_data msg) + unat len \<le> unat msg + m" "unat msg + m < 2 ^ 32"
    "unat (heap_start h) \<le> unat msg"
    using message_area [OF assms(1) _ assms(2), of msg] by simp_all
  note cp = memcpy_bytes_at [of "msg_data msg" len ptr]
  show "bytes_at (memcpy (msg_data msg) ptr len f) (msg_data msg) (unat len) = bytes_at f ptr (unat len)"
    by (rule cp(1)) (use a assms(3) in linarith)+
  show "bytes_at (memcpy (msg_data msg) ptr len f) (msg_data x) n = bytes_at f (msg_data x) n"
    if x: "L x = Some k" "x \<noteq> msg" "16 + n \<le> k"
  proof -
    have xa: "unat (msg_data x) = unat x + 16" "unat (msg_data x) + n \<le> unat x + k" "unat x + k < 2 ^ 32"
      using message_area [OF assms(1) _ x(3), of x] x by simp_all
    have "unat msg + m \<le> unat x \<or> unat x + k \<le> unat msg"
      using kheap.live_disjoint [OF assms(1), of msg m x k] x by simp
    then show ?thesis
      by (intro cp(2)) (use a xa assms(3) in linarith)+
  qed
qed

lemma put_message_spec:
  assumes i: "mq_inv L s q ms" and h: "heap_live h (L(msg \<mapsto> m))" "L msg = None" "16 + unat len \<le> m"
    "payload h = payload (mq_kh s)"
    and b: "unat ptr + unat len \<le> unat (heap_start h)"
    and l: "len \<le> mq_msgsize (attr (queue_at s q))" "length ms < unat (mq_maxmsg (attr (queue_at s q)))"
  obtains s' us vs where "put_message q msg ptr len prio (s\<lparr>mq_kh := h\<rparr>) = Some s'" "ms = us @ vs"
    "mq_inv (L(msg \<mapsto> m)) s' q (us @ msg # vs)"
    "contents s' (us @ msg # vs) = insert_msg prio (bytes_at (payload (mq_kh s)) ptr (unat len)) (contents s ms)"
proof -
  let ?L = "L(msg \<mapsto> m)" and ?d = "bytes_at (payload (mq_kh s)) ptr (unat len)"
  let ?P = "\<lambda>x. prio > priority (msg_at s x)"
  define us vs where u: "us = takeWhile (\<lambda>x. \<not> ?P x) ms" "vs = dropWhile (\<lambda>x. \<not> ?P x) ms"
  have ms: "ms = us @ vs" by (simp add: u)
  obtain k where k: "L q = Some k" "136 \<le> k"
    using i by (auto simp: mq_inv_def)
  have lx: "\<exists>k. L x = Some k \<and> 16 + unat (msize (msg_at s x)) \<le> k" if "x \<in> set ms" for x
    using that i by (auto simp: mq_inv_def)
  have mq: "msg \<noteq> q"
    using h(2) k(1) by auto
  have "msg \<notin> set ms"
    using lx h(2) by fastforce
  then have fresh: "msg \<notin> set (mq_messages q # ms)"
    using head_not_live [OF h(1), of q k msg m] k mq by simp
  have cl: "clist (mq_nodes s) (mq_messages q) ms"
    using i by (simp add: mq_inv_def)
  let ?n = "INIT_LIST_HEAD msg (mq_nodes s)"
  have c: "clist ?n (mq_messages q) ms"
    by (rule iffD1 [OF clist_cong cl]) (use fresh in \<open>auto simp: INIT_LIST_HEAD_def set_next_def set_prev_def\<close>)
  define e where "e = (case find ?P ms of None \<Rightarrow> mq_messages q | Some x \<Rightarrow> x)"
  have c': "clist (list_add_tail msg e ?n) (mq_messages q) (us @ msg # vs)"
    unfolding u by (rule insert_before [OF c fresh e_def])
  define t where "t = s\<lparr>msg_at := (msg_at s)(msg := \<lparr>priority = prio, msize = len\<rparr>),
    mq_kh := h\<lparr>payload := memcpy (msg_data msg) ptr len (payload h)\<rparr>, mq_nodes := list_add_tail msg e ?n\<rparr>"
  define s' where "s' = (upd_queue q (\<lambda>x. x\<lparr>total_sent := total_sent x + 1\<rparr>)
    (upd_attr q (\<lambda>a. a\<lparr>mq_curmsgs := mq_curmsgs a + 1\<rparr>) t))\<lparr>total_messages := total_messages s + 1, total_bytes := total_bytes s + ucast len\<rparr>"
  have fe: "(case find (\<lambda>x. prio > priority (((msg_at s)(msg := y)) x)) ms of None \<Rightarrow> mq_messages q | Some x \<Rightarrow> x) = e" for y
  proof -
    have "find (\<lambda>x. prio > priority (((msg_at s)(msg := y)) x)) ms = find ?P ms"
      by (rule find_cong) (use fresh in auto)
    then show ?thesis by (simp only: e_def)
  qed
  have put: "put_message q msg ptr len prio (s\<lparr>mq_kh := h\<rparr>) = Some s'"
    by (simp add: put_message_def Let_def list_find [OF c] fe s'_def t_def del: fun_upd_apply)
  have S: "mq_nodes s' = list_add_tail msg e ?n" "msg_at s' = (msg_at s)(msg := \<lparr>priority = prio, msize = len\<rparr>)"
    "mq_kh s' = h\<lparr>payload := memcpy (msg_data msg) ptr len (payload h)\<rparr>"
    "attr (queue_at s' q) = (attr (queue_at s q))\<lparr>mq_curmsgs := mq_curmsgs (attr (queue_at s q)) + 1\<rparr>"
    by (simp_all add: s'_def t_def)
  have old: "contents s' xs = contents s xs" if "set xs \<subseteq> set ms" for xs
    by (rule contents_cong) (use that fresh lx put_text(2) [OF h(1,3) b] h(2,4) in \<open>fastforce simp: S\<close>)+
  have new: "contents s' [msg] = [(prio, ?d)]"
    using put_text(1) [OF h(1,3) b, of "payload h"] h(4) by (simp add: contents_def S)
  have "contents s' (us @ msg # vs) = contents s us @ (prio, ?d) # contents s vs"
    using contents_append [of s' us "[msg] @ vs"] contents_append [of s' "[msg]" vs] old [of us] old [of vs] new ms by simp
  also have "\<dots> = insert_msg prio ?d (contents s ms)"
    by (simp add: insert_msg_split u contents_def takeWhile_map dropWhile_map comp_def)
  finally have ct: "contents s' (us @ msg # vs) = insert_msg prio ?d (contents s ms)" .
  have inv: "mq_inv ?L s' q (us @ msg # vs)"
    unfolding mq_inv_def
  proof (intro conjI ballI)
    show "heap_live (mq_kh s') ?L" using h(1) by (simp add: S)
    show "\<exists>m. ?L q = Some m \<and> 136 \<le> m" using k mq by simp
    show "q \<notin> set (us @ msg # vs)" using i ms mq by (auto simp: mq_inv_def)
    show "clist (mq_nodes s') (mq_messages q) (us @ msg # vs)" using c' by (simp add: S)
    show "sorted_wrt (\<lambda>x y. fst x \<ge> fst y) (contents s' (us @ msg # vs))"
      unfolding ct by (rule insert_msg_sorted) (use i in \<open>simp add: mq_inv_def\<close>)
    show "mq_curmsgs (attr (queue_at s' q)) = of_nat (length (us @ msg # vs))"
      "length (us @ msg # vs) \<le> unat (mq_maxmsg (attr (queue_at s' q)))" "mq_msgsize (attr (queue_at s' q)) \<le> MQ_MAX_MSG_SIZE"
      using i l(2) ms by (simp_all add: mq_inv_def S)
    fix x assume x: "x \<in> set (us @ msg # vs)"
    show "\<exists>m. ?L x = Some m \<and> 16 + unat (msize (msg_at s' x)) \<le> m"
      using x lx fresh h(3) ms by (auto simp: S)
    show "msize (msg_at s' x) \<le> mq_msgsize (attr (queue_at s' q))"
      using x i l(1) ms by (auto simp: S mq_inv_def)
  qed
  show thesis by (rule that [OF put ms inv ct])
qed

lemma take_message_spec:
  assumes i: "mq_inv L s q (x # ms)" and b: "unat ptr + unat len \<le> unat (heap_start (mq_kh s))"
    and l: "mq_msgsize (attr (queue_at s q)) \<le> len"
  obtains s' where "take_message q x ptr len s = Some s'" "mq_inv (L(x := None)) s' q ms" "contents s' ms = contents s ms"
    "bytes_at (payload (mq_kh s')) ptr (unat (msize (msg_at s x))) = snd (hd (contents s (x # ms)))"
proof -
  let ?n = "msize (msg_at s x)" and ?f = "memcpy ptr (msg_data x) (msize (msg_at s x)) (payload (mq_kh s))"
  have live: "heap_live (mq_kh s) L" and cl: "clist (mq_nodes s) (mq_messages q) (x # ms)"
    using i by (simp_all add: mq_inv_def)
  have area: "\<exists>m. L y = Some m \<and> 16 + unat (msize (msg_at s y)) \<le> m" if "y \<in> set (x # ms)" for y
    using that i by (auto simp: mq_inv_def)
  have n: "?n \<le> len"
    using i l by (auto simp: mq_inv_def intro: order_trans)
  obtain m where m: "L x = Some m" "16 + unat ?n \<le> m"
    using area [of x] by auto
  obtain h where h: "kfree x ((mq_kh s)\<lparr>payload := ?f\<rparr>) = Some h" "heap_live h (L(x := None))"
    using kheap.free_live [of "(mq_kh s)\<lparr>payload := ?f\<rparr>" L x m] live m(1) by auto
  have hp: "payload h = ?f"
    using kfree_payload [of "(mq_kh s)\<lparr>payload := ?f\<rparr>" L x m h] live m(1) h(1) by simp
  have nl: "unat ptr + unat ?n \<le> unat (heap_start (mq_kh s))"
    using b n by (simp add: word_le_nat_alt)
  note cp = memcpy_bytes_at [of ptr ?n "msg_data x"]
  have xa: "unat (msg_data x) = unat x + 16" "unat (msg_data x) + unat ?n \<le> unat x + m" "unat x + m < 2 ^ 32"
    "unat (heap_start (mq_kh s)) \<le> unat x"
    using message_area [OF live m] by simp_all
  have tx: "bytes_at ?f ptr (unat ?n) = bytes_at (payload (mq_kh s)) (msg_data x) (unat ?n)"
    by (rule cp(1)) (use xa nl in linarith)+
  have keep: "bytes_at ?f (msg_data y) (unat (msize (msg_at s y))) = bytes_at (payload (mq_kh s)) (msg_data y) (unat (msize (msg_at s y)))"
    if y: "y \<in> set ms" for y
  proof -
    obtain k where k: "L y = Some k" "16 + unat (msize (msg_at s y)) \<le> k"
      using area [of y] y by auto
    have ya: "unat (msg_data y) = unat y + 16" "unat (msg_data y) + unat (msize (msg_at s y)) \<le> unat y + k" "unat y + k < 2 ^ 32"
      "unat (heap_start (mq_kh s)) \<le> unat y"
      using message_area [OF live k] by simp_all
    show ?thesis
      by (rule cp(2)) (use xa ya nl in linarith)+
  qed
  define t where "t = s\<lparr>mq_nodes := list_del x (mq_nodes s), mq_kh := h\<rparr>"
  define s' where "s' = (upd_queue q (\<lambda>y. y\<lparr>total_recv := total_recv y + 1\<rparr>)
    (upd_attr q (\<lambda>a. a\<lparr>mq_curmsgs := mq_curmsgs a - 1\<rparr>) t))\<lparr>total_messages := total_messages s - 1, total_bytes := total_bytes s - ucast ?n\<rparr>"
  have c: "(if ?n < len then ?n else len) = ?n"
    using n by auto
  have tk: "take_message q x ptr len s = Some s'"
    by (simp add: take_message_def Let_def c h(1) s'_def t_def)
  have S: "mq_nodes s' = list_del x (mq_nodes s)" "msg_at s' = msg_at s" "mq_kh s' = h"
    "attr (queue_at s' q) = (attr (queue_at s q))\<lparr>mq_curmsgs := mq_curmsgs (attr (queue_at s q)) - 1\<rparr>"
    by (simp_all add: s'_def t_def)
  have ct: "contents s' ms = contents s ms"
    by (rule contents_cong) (simp_all add: S hp keep)
  have d: "distinct (x # ms)" "q \<noteq> x"
    using klist.rel_distinct [OF cl] i by (auto simp: mq_inv_def)
  have "clist (list_del x (mq_nodes s)) (mq_messages q) ms"
    using klist.del [of "mq_nodes s" "mq_messages q" "[]" x ms] cl by simp
  then have inv: "mq_inv (L(x := None)) s' q ms"
    using i h(2) d unfolding mq_inv_def ct by (auto simp: S contents_def)
  show thesis
    by (rule that [OF tk inv ct]) (simp add: S hp tx contents_def)
qed

lemma mq_inv_heap:
  assumes "mq_inv L s q ms" "heap_live h L" "payload h = payload (mq_kh s)"
  shows "mq_inv L (s\<lparr>mq_kh := h\<rparr>) q ms" "contents (s\<lparr>mq_kh := h\<rparr>) ms = contents s ms"
  using assms by (simp_all add: mq_inv_def contents_def)

text \<open>A new queue has no messages.\<close>

lemma init_other: "x \<noteq> a \<Longrightarrow> INIT_LIST_HEAD a h x = h x"
  by (simp add: INIT_LIST_HEAD_def set_next_def set_prev_def)

lemma new_queue_nodes:
  assumes "heap_live (mq_kh s) L" "L q = Some m" "136 \<le> m" "mq_queues s < heap_start (mq_kh s)"
    and qs: "clist (mq_nodes s) (mq_queues s) (map mq_list qs)" "\<forall>p\<in>set qs. p \<noteq> q \<and> (\<exists>k. L p = Some k \<and> 136 \<le> k)"
  shows "clist (mq_nodes (new_mqueue q name oflag a s)) (mq_messages q) []"
proof -
  let ?h = "INIT_LIST_HEAD (mq_list q) (INIT_LIST_HEAD (mq_wait_recv q) (INIT_LIST_HEAD (mq_wait_send q)
    (INIT_LIST_HEAD (mq_messages q) (mq_nodes s))))"
  let ?mine = "{mq_messages q, mq_wait_send q, mq_wait_recv q, mq_list q}"
  have off: "unat (q + of_nat i) = unat q + i" if "i \<le> 136" for i
    using live_offset(1) [OF assms(1,2), of i] that assms(3) by simp
  have mine: "unat q \<le> unat x \<and> unat x < unat q + m" if "x \<in> ?mine" for x
    using that off [of 84] off [of 92] off [of 100] off [of 128] assms(3)
    by (auto simp: mq_messages_def mq_wait_send_def mq_wait_recv_def mq_list_def)
  have others: "x \<notin> ?mine" if "x = mq_queues s \<or> x \<in> mq_list ` set qs" for x
    using that
  proof
    assume "x = mq_queues s"
    then have "unat x < unat q"
      using live_offset(3) [OF assms(1,2), of 0] assms(4) by (auto simp: word_less_nat_alt)
    with mine [of x] show ?thesis by force
  next
    assume "x \<in> mq_list ` set qs"
    then obtain p k where p: "x = mq_list p" "p \<noteq> q" "L p = Some k" "136 \<le> k"
      using qs(2) by auto
    have "unat x = unat p + 128"
      using live_offset(1) [OF assms(1) p(3), of 128] p(1,4) by (simp add: mq_list_def)
    with mine [of x] kheap.live_disjoint [OF assms(1,2) p(3)] p(2,4) show ?thesis by force
  qed
  have e: "clist ?h (mq_messages q) []"
    by (simp add: clist_def init_other mq_messages_def mq_wait_send_def mq_wait_recv_def mq_list_def) (simp add: INIT_LIST_HEAD_def)
  have o: "?h x = mq_nodes s x" if "x = mq_queues s \<or> x \<in> set (map mq_list qs)" for x
    using others [of x] that by (simp add: init_other)
  have l: "clist ?h (mq_queues s) (map mq_list qs)"
    by (rule iffD2 [OF clist_cong qs(1)]) (rule o)
  have "clist (list_add_tail (mq_list q) (mq_queues s) ?h) (mq_messages q) []"
    by (rule klist.add_other [OF l e, THEN conjunct2]) (use others in \<open>auto simp: mq_list_def mq_messages_def\<close>)
  then show ?thesis
    by (simp add: new_mqueue_def Let_def upd_queue_def)
qed

lemma new_queue_inv:
  assumes "heap_live (mq_kh s) L" "L q = Some m" "136 \<le> m" "clist (mq_nodes (new_mqueue q name oflag a s)) (mq_messages q) []"
    and "case a of None \<Rightarrow> True | Some b \<Rightarrow> mq_curmsgs b = 0"
  shows "mq_inv L (new_mqueue q name oflag a s) q []"
proof -
  have "mq_curmsgs (new_attr fl a) = 0" "mq_msgsize (new_attr fl a) \<le> MQ_MAX_MSG_SIZE" for fl
    using assms(5) by (auto simp: new_attr_def Let_def split: option.splits)
  with assms(1-4) show ?thesis
    by (simp add: mq_inv_def contents_def) (simp add: new_mqueue_def Let_def upd_queue_def)
qed

lemma sint_small: "unat w < 2147483648 \<Longrightarrow> sint (w :: u32) = int (unat w)"
proof -
  assume a: "unat w < 2147483648"
  have u: "uint w = int (unat w)" by simp
  then have "- 2147483648 \<le> uint w" "uint w < 2147483648"
    using a by linarith+
  then have "signed_take_bit 31 (uint w) = uint w"
    by (intro signed_take_bit_int_eq_self) simp_all
  then show ?thesis by (simp add: sint_uint)
qed

section \<open>Properties\<close>

text \<open>
  \<^bold>\<open>C29.\<close> For buffers below the kernel heap, a message queue refines a queue with priorities: the messages are received in descending order
  of priority, and those of one priority in the order in which they were sent.  Sending adds the text
  of the buffer after the messages of its own priority or leaves the queue as it was and returns an
  error; receiving takes the first message, puts its text into the buffer and returns its length and
  its priority.
\<close>

theorem mq_refines_priority_queue:
  assumes "mq_inv L s q ms" "ptr \<noteq> NULL" "unat ptr + unat len \<le> unat (heap_start (mq_kh s))"
  shows "sorted_wrt (\<lambda>x y. fst x \<ge> fst y) (contents s ms)
    \<and> (mq_send q ptr len prio s = Some (s', r) \<longrightarrow>
        (if r = 0 then \<exists>L' ms'. mq_inv L' s' q ms' \<and>
           (\<forall>p. filter (\<lambda>x. fst x = p) (contents s' ms') = filter (\<lambda>x. fst x = p) (contents s ms) @
              (if p = prio then [(p, bytes_at (payload (mq_kh s)) ptr (unat len))] else []))
         else r < 0 \<and> mq_inv L s' q ms \<and> contents s' ms = contents s ms))
    \<and> (contents s ms = (p, d) # c \<and> mq_msgsize (attr (queue_at s q)) \<le> len \<longrightarrow>
        (\<exists>t. mq_receive q ptr len True s = Some (t, int (length d), Some p) \<and> mq_inv (L(hd ms := None)) t q (tl ms) \<and>
           contents t (tl ms) = c \<and> bytes_at (payload (mq_kh t)) ptr (length d) = d))"
proof (intro conjI impI)
  show st: "sorted_wrt (\<lambda>x y. fst x \<ge> fst y) (contents s ms)"
    using assms(1) by (simp add: mq_inv_def)
  have live: "heap_live (mq_kh s) L" and size: "mq_msgsize (attr (queue_at s q)) \<le> MQ_MAX_MSG_SIZE" and qz: "q \<noteq> 0"
    and cur: "mq_curmsgs (attr (queue_at s q)) = of_nat (length ms)" "length ms \<le> unat (mq_maxmsg (attr (queue_at s q)))"
    using assms(1) kheap.live_not_null by (fastforce simp: mq_inv_def)+
  have cn: "unat (mq_curmsgs (attr (queue_at s q))) = length ms"
    using cur unat32_bound [of "mq_maxmsg (attr (queue_at s q))"] by (simp add: unat_of_nat)
  show "if r = 0 then \<exists>L' ms'. mq_inv L' s' q ms' \<and>
           (\<forall>p. filter (\<lambda>x. fst x = p) (contents s' ms') = filter (\<lambda>x. fst x = p) (contents s ms) @
              (if p = prio then [(p, bytes_at (payload (mq_kh s)) ptr (unat len))] else []))
         else r < 0 \<and> mq_inv L s' q ms \<and> contents s' ms = contents s ms"
    if snd: "mq_send q ptr len prio s = Some (s', r)"
  proof (cases "len > mq_msgsize (attr (queue_at s q)) \<or> prio \<ge> MQ_PRIO_MAX \<or> mq_curmsgs (attr (queue_at s q)) \<ge> mq_maxmsg (attr (queue_at s q))")
    case True
    then show ?thesis
      using snd assms(1,2) qz by (auto simp: mq_send_def split: if_splits)
  next
    case False
    then have ok: "len \<le> mq_msgsize (attr (queue_at s q))" "length ms < unat (mq_maxmsg (attr (queue_at s q)))" "len \<le> 8192"
      using cn size by (auto simp: word_le_nat_alt word_less_nat_alt MQ_MAX_MSG_SIZE_def)
    have ul: "unat (16 + len) = 16 + unat len" "unat (16 + len) \<le> 1048576"
      using ok(3) by (simp_all add: unat_add_bounded word_le_nat_alt)
    obtain h msg where k: "kmalloc (16 + len) (mq_kh s) = Some (h, msg)"
      and res: "if msg = 0 then s' = s\<lparr>mq_kh := h\<rparr> \<and> r = - ENOMEM
        else r = 0 \<and> put_message q msg ptr len prio (s\<lparr>mq_kh := h\<rparr>) = Some s'"
      using snd False assms(2) qz by (auto simp: mq_send_def Let_def bind_eq_Some_conv split: if_splits)
    have hp: "payload h = payload (mq_kh s)" "heap_start h = heap_start (mq_kh s)"
      by (rule kmalloc_payload [OF live ul(2) k], rule kmalloc_start [OF k])
    show ?thesis
    proof (cases "msg = 0")
      case True
      then show ?thesis
        using res mq_inv_heap [OF assms(1) kheap.alloc_fails [OF live ul(2)], of h] k hp(1) by simp
    next
      case False
      obtain m where m: "unat (16 + len) \<le> m" "L msg = None" "heap_live h (L(msg \<mapsto> m))"
        using kheap.alloc_new [OF live ul(2) k False] by blast
      obtain t us vs where "put_message q msg ptr len prio (s\<lparr>mq_kh := h\<rparr>) = Some t" "mq_inv (L(msg \<mapsto> m)) t q (us @ msg # vs)"
        "contents t (us @ msg # vs) = insert_msg prio (bytes_at (payload (mq_kh s)) ptr (unat len)) (contents s ms)"
        by (rule put_message_spec [OF assms(1) m(3,2) _ hp(1), of len ptr prio]) (use m(1) ul(1) ok assms(3) hp(2) in auto)
      with res False show ?thesis
        by (auto simp: insert_msg_fifo [OF st] intro!: exI [of _ "L(msg \<mapsto> m)"] exI [of _ "us @ msg # vs"])
    qed
  qed
  show "\<exists>t. mq_receive q ptr len True s = Some (t, int (length d), Some p) \<and> mq_inv (L(hd ms := None)) t q (tl ms) \<and>
           contents t (tl ms) = c \<and> bytes_at (payload (mq_kh t)) ptr (length d) = d"
    if rc: "contents s ms = (p, d) # c \<and> mq_msgsize (attr (queue_at s q)) \<le> len"
  proof -
    obtain x xs where x: "ms = x # xs"
      using rc by (cases ms) (auto simp: contents_def)
    obtain t where t: "take_message q x ptr len s = Some t" "mq_inv (L(x := None)) t q xs" "contents t xs = contents s xs"
      "bytes_at (payload (mq_kh t)) ptr (unat (msize (msg_at s x))) = snd (hd (contents s (x # xs)))"
      by (rule take_message_spec [of L s q x xs ptr len]) (use assms rc x in auto)
    have n: "lnext (mq_nodes s (mq_messages q)) = x"
      using clist_ends [of "mq_nodes s" "mq_messages q" ms] assms(1) x by (simp add: mq_inv_def)
    have "msize (msg_at s x) \<le> MQ_MAX_MSG_SIZE"
      using assms(1) size x by (auto simp: mq_inv_def)
    then have "sint (msize (msg_at s x)) = int (unat (msize (msg_at s x)))"
      by (intro sint_small) (simp add: MQ_MAX_MSG_SIZE_def word_le_nat_alt)
    then have "mq_receive q ptr len True s = Some (t, int (length d), Some p)"
      using qz assms(2) rc cn t(1) n x by (auto simp: mq_receive_def contents_def Let_def)
    then show ?thesis
      using t rc x by (auto simp: contents_def)
  qed
qed

definition demo_mq :: mq_state where
  "demo_mq = \<lparr>mq_kh = demo_heap2,
     queue_at = (\<lambda>_. \<lparr>mqname = [], mqflags = 0, attr = new_attr 0 None, mrefcount = 0, total_sent = 0, total_recv = 0\<rparr>),
     msg_at = (\<lambda>_. \<lparr>priority = 0, msize = 0\<rparr>), mq_nodes = INIT_LIST_HEAD 0x3000 (\<lambda>_. \<lparr>lnext = 0, lprev = 0\<rparr>), mq_queues = 0x3000,
     queue_count = 0, total_messages = 0, total_bytes = 0\<rparr>"

lemma demo_mq_open:
  obtains h s where "mq_open (Some [0x2F, 0x61]) O_CREAT None demo_mq = Some (s, 0xD0000014)"
    "mq_inv [0xD0000014 \<mapsto> 136] s 0xD0000014 []" "mq_kh s = h" "heap_start h = 0xD0000000"
    "attr (queue_at s 0xD0000014) = \<lparr>mq_flags = 0, mq_maxmsg = 32, mq_msgsize = 8192, mq_curmsgs = 0\<rparr>"
    "heap_rel h [(0xD0000000, 156, True), (0xD000009C, 3940, False)]"
proof -
  have e: "request 136 = 156"
    by (simp add: request_def)
  have "alloc_list 156 [(0xD0000000, 4096, False)] = Some (0xD0000014, [(0xD0000000, 156, True), (0xD000009C, 3940, False)])"
    by (simp add: fits_def carve_def)
  then obtain h where h: "kmalloc 136 demo_heap2 = Some (h, 0xD0000014)" "heap_rel h [(0xD0000000, 156, True), (0xD000009C, 3940, False)]"
    using kmalloc_fit [OF demo_heap2_rel, of 136 "0xD0000014"] by (auto simp: e)
  have lv: "heap_live h [0xD0000014 \<mapsto> 136]"
    using h(2) by (auto simp: heap_live_def live_map_def)
  have q0: "clist (mq_nodes demo_mq) (mq_queues demo_mq) (map mq_list [])"
    by (simp add: demo_mq_def clist_def INIT_LIST_HEAD_def)
  have f: "mqueue_find [0x2F, 0x61] demo_mq = Some NULL"
    using list_find [OF q0] by (simp add: mqueue_find_def)
  let ?s = "new_mqueue 0xD0000014 [0x2F, 0x61] O_CREAT None (demo_mq\<lparr>mq_kh := h\<rparr>)"
  have st: "heap_start h = 0xD0000000"
    using h(2) by (simp add: heap_rel_def heap_shape_def unat_inj)
  have o: "mq_open (Some [0x2F, 0x61]) O_CREAT None demo_mq = Some (?s, 0xD0000014)"
    using f h(1) by (simp add: mq_open_def O_CREAT_def O_EXCL_def demo_mq_def MQ_MAX_QUEUES_def)
  have "clist (mq_nodes ?s) (mq_messages 0xD0000014) []"
    by (rule new_queue_nodes [of _ "[0xD0000014 \<mapsto> 136]" _ 136 "[]"]) (use lv q0 st in \<open>simp_all add: demo_mq_def\<close>)
  then have "mq_inv [0xD0000014 \<mapsto> 136] ?s 0xD0000014 []"
    using lv by (intro new_queue_inv) auto
  with o st h(2) show thesis
    by (intro that [of ?s h]) (simp_all add: new_mqueue_def Let_def upd_queue_def O_NONBLOCK_def O_CREAT_def new_attr_def MQ_MAX_MESSAGES_def MQ_MAX_MSG_SIZE_def)
qed

theorem mq_refines_priority_queue_witness:
  "\<exists>s s' L ms. mq_open (Some [0x2F, 0x61]) O_CREAT None demo_mq = Some (s, 0xD0000014) \<and>
     mq_send 0xD0000014 0x1000 2 5 s = Some (s', 0) \<and> mq_inv L s' 0xD0000014 ms \<and>
     filter (\<lambda>x. fst x = 5) (contents s' ms) = [(5, bytes_at (payload (mq_kh s)) 0x1000 2)]"
proof -
  obtain h s where s: "mq_open (Some [0x2F, 0x61]) O_CREAT None demo_mq = Some (s, 0xD0000014)"
    "mq_inv [0xD0000014 \<mapsto> 136] s 0xD0000014 []" "mq_kh s = h" "heap_start h = 0xD0000000"
    "attr (queue_at s 0xD0000014) = \<lparr>mq_flags = 0, mq_maxmsg = 32, mq_msgsize = 8192, mq_curmsgs = 0\<rparr>"
    "heap_rel h [(0xD0000000, 156, True), (0xD000009C, 3940, False)]"
    by (rule demo_mq_open)
  have e: "request 18 = 44"
    by (simp add: request_def)
  have "alloc_list 44 [(0xD0000000, 156, True), (0xD000009C, 3940, False)] =
      Some (0xD00000B0, [(0xD0000000, 156, True), (0xD000009C, 44, True), (0xD00000C8, 3896, False)])"
    by (simp add: fits_def carve_def)
  then obtain g where g: "kmalloc 18 h = Some (g, 0xD00000B0)"
    using kmalloc_fit [OF s(6), of 18 "0xD00000B0"] by (auto simp: e simp del: alloc_list.simps)
  have lv: "heap_live h [0xD0000014 \<mapsto> 136]"
    using s(2,3) by (simp add: mq_inv_def)
  obtain m where m: "18 \<le> m" "heap_live g [0xD0000014 \<mapsto> 136, 0xD00000B0 \<mapsto> m]"
    using kheap.alloc_new [OF lv _ g] by auto
  have hp: "payload g = payload h" "heap_start g = 0xD0000000"
    using kmalloc_payload [OF lv _ g] kmalloc_start [OF g] s(4) by simp_all
  obtain s' where p: "put_message 0xD0000014 0xD00000B0 0x1000 2 5 (s\<lparr>mq_kh := g\<rparr>) = Some s'"
    by (rule put_message_spec [OF s(2) m(2), of 2 "0x1000" 5]) (use m(1) hp s in simp_all)
  then have "mq_send 0xD0000014 0x1000 2 5 s = Some (s', 0)"
    using g s by (simp add: mq_send_def MQ_PRIO_MAX_def word_less_nat_alt word_le_nat_alt)
  with mq_refines_priority_queue [OF s(2), of "0x1000" 2 5 s' 0] s show ?thesis
    by (fastforce simp: contents_def)
qed

end
