(* ===== verification/Procq.thy ===== *)
theory Procq
  imports Prelude
begin

text \<open>
  Process control blocks, \<^verbatim>\<open>include/process/process.h\<close>, and the doubly linked queues that the
  schedulers thread through their fields \<^verbatim>\<open>next\<close> and \<^verbatim>\<open>prev\<close>: appending at the tail and removing from
  anywhere, as \<^verbatim>\<open>mlfq_enqueue\<close>, \<^verbatim>\<open>mlfq_dequeue\<close>, \<^verbatim>\<open>priority_enqueue\<close>, \<^verbatim>\<open>priority_dequeue\<close> and
  \<^verbatim>\<open>scheduler_remove_process\<close> do.
\<close>

section \<open>Process control blocks\<close>

datatype process_state = PROCESS_STATE_NEW | PROCESS_STATE_READY | PROCESS_STATE_RUNNING
  | PROCESS_STATE_BLOCKED | PROCESS_STATE_TERMINATED

datatype sched_policy = SCHED_NORMAL | SCHED_FIFO | SCHED_RR | SCHED_BATCH | SCHED_IDLE

record cpu_context =
  c_edi :: u32
  c_esi :: u32
  c_ebp :: u32
  c_esp :: u32
  c_ebx :: u32
  c_edx :: u32
  c_ecx :: u32
  c_eax :: u32
  c_eip :: u32
  c_cs :: u32
  c_eflags :: u32
  c_user_esp :: u32
  c_ss :: u32

record sched_entity =
  vruntime :: u64
  exec_start :: u64
  sum_exec_runtime :: u64
  weight :: int

record process =
  pid :: u32
  p_name :: "u8 list"
  p_state :: process_state
  p_priority :: u32
  p_context :: cpu_context
  preempt_count :: int
  page_dir :: addr
  kernel_stack :: u32
  kernel_stack_size :: u32
  p_vmas :: addr
  p_fd_table :: addr
  p_errno :: int
  pending_signals :: u32
  blocked_signals :: u32
  signal_handlers :: "u32 list"
  signal_flags :: "u32 list"
  time_slice :: u32
  time_used :: u32
  total_runtime :: u64
  p_policy :: sched_policy
  static_priority :: int
  dynamic_priority :: int
  nice :: int
  se :: sched_entity
  rt_priority :: u32
  time_slice_remaining :: u32
  last_run :: u64
  mlfq_level :: int
  wait_time :: u64
  boost_count :: u32
  p_next :: addr
  p_prev :: addr
  p_parent :: addr
  next_waiting :: addr
  exit_code :: u32
  start_time :: u64

type_synonym pstore = "addr \<Rightarrow> process"

definition zero_context :: cpu_context where
  "zero_context = \<lparr>c_edi = 0, c_esi = 0, c_ebp = 0, c_esp = 0, c_ebx = 0, c_edx = 0, c_ecx = 0, c_eax = 0,
     c_eip = 0, c_cs = 0, c_eflags = 0, c_user_esp = 0, c_ss = 0\<rparr>"

definition zero_process :: process where
  "zero_process = \<lparr>pid = 0, p_name = [], p_state = PROCESS_STATE_NEW, p_priority = 0, p_context = zero_context,
     preempt_count = 0, page_dir = NULL, kernel_stack = 0, kernel_stack_size = 0, p_vmas = NULL, p_fd_table = NULL,
     p_errno = 0, pending_signals = 0, blocked_signals = 0, signal_handlers = replicate 32 0,
     signal_flags = replicate 32 0, time_slice = 0, time_used = 0, total_runtime = 0, p_policy = SCHED_NORMAL,
     static_priority = 0, dynamic_priority = 0, nice = 0,
     se = \<lparr>vruntime = 0, exec_start = 0, sum_exec_runtime = 0, weight = 0\<rparr>, rt_priority = 0,
     time_slice_remaining = 0, last_run = 0, mlfq_level = 0, wait_time = 0, boost_count = 0,
     p_next = NULL, p_prev = NULL, p_parent = NULL, next_waiting = NULL, exit_code = 0, start_time = 0\<rparr>"

definition upd_proc :: "addr \<Rightarrow> (process \<Rightarrow> process) \<Rightarrow> pstore \<Rightarrow> pstore" where
  "upd_proc p f P = P(p := f (P p))"

section \<open>Queues\<close>

text \<open>A queue is its head and its tail.\<close>

definition queue_append :: "addr \<Rightarrow> addr \<times> addr \<Rightarrow> pstore \<Rightarrow> pstore \<times> addr \<times> addr" where
  "queue_append p q P =
     (let P = upd_proc p (\<lambda>x. x\<lparr>p_next := NULL, p_prev := snd q\<rparr>) P
      in if snd q \<noteq> NULL then (upd_proc (snd q) (\<lambda>x. x\<lparr>p_next := p\<rparr>) P, fst q, p)
         else (P, p, p))"

definition queue_remove :: "addr \<Rightarrow> addr \<times> addr \<Rightarrow> pstore \<Rightarrow> pstore \<times> addr \<times> addr" where
  "queue_remove p q P =
     (let (P, h) = (if p_prev (P p) \<noteq> NULL then (upd_proc (p_prev (P p)) (\<lambda>x. x\<lparr>p_next := p_next (P p)\<rparr>) P, fst q)
                    else (P, p_next (P p)));
          (P, t) = (if p_next (P p) \<noteq> NULL then (upd_proc (p_next (P p)) (\<lambda>x. x\<lparr>p_prev := p_prev (P p)\<rparr>) P, snd q)
                    else (P, p_prev (P p)))
      in (upd_proc p (\<lambda>x. x\<lparr>p_next := NULL, p_prev := NULL\<rparr>) P, h, t))"

section \<open>Representation\<close>

fun first :: "addr list \<Rightarrow> addr \<Rightarrow> addr" where
  "first [] q = q"
| "first (x # xs) q = x"

definition final :: "addr list \<Rightarrow> addr \<Rightarrow> addr" where
  "final xs p = (if xs = [] then p else last xs)"

fun plinks :: "pstore \<Rightarrow> addr \<Rightarrow> addr list \<Rightarrow> addr \<Rightarrow> bool" where
  "plinks P p [] q \<longleftrightarrow> True"
| "plinks P p (x # xs) q \<longleftrightarrow> p_prev (P x) = p \<and> p_next (P x) = first xs q \<and> plinks P x xs q"

text \<open>\<open>queue_rep P q xs\<close>: the queue \<open>q\<close> holds the processes \<open>xs\<close>, in this order.\<close>

definition queue_rep :: "pstore \<Rightarrow> addr \<times> addr \<Rightarrow> addr list \<Rightarrow> bool" where
  "queue_rep P q xs \<longleftrightarrow> distinct xs \<and> NULL \<notin> set xs \<and> plinks P NULL xs NULL \<and> q = (first xs NULL, final xs NULL)"

lemma first_append: "first (xs @ ys) q = first xs (first ys q)"
  by (cases xs) auto

lemma final_simps [simp]: "final [] p = p" "final (xs @ [x]) p = x" "final (x # xs) p = final xs x"
  by (auto simp: final_def)

lemma final_append: "final (xs @ ys) p = final ys (final xs p)"
  by (induction xs arbitrary: p) auto

lemma plinks_append: "plinks P p (xs @ ys) q \<longleftrightarrow> plinks P p xs (first ys q) \<and> plinks P (final xs p) ys q"
  by (induction xs arbitrary: p) (auto simp: first_append)

lemma plinks_cong:
  "(\<And>x. x \<in> set xs \<Longrightarrow> p_next (P' x) = p_next (P x) \<and> p_prev (P' x) = p_prev (P x)) \<Longrightarrow>
   plinks P' p xs q = plinks P p xs q"
  by (induction xs arbitrary: p) auto

lemma queue_rep_cong:
  "(\<And>x. x \<in> set xs \<Longrightarrow> p_next (P' x) = p_next (P x) \<and> p_prev (P' x) = p_prev (P x)) \<Longrightarrow>
   queue_rep P' q xs = queue_rep P q xs"
  using plinks_cong [of xs P' P] by (simp add: queue_rep_def)

lemma queue_rep_nil [simp]: "queue_rep P (NULL, NULL) []" "queue_rep P q [] \<longleftrightarrow> q = (NULL, NULL)"
  by (auto simp: queue_rep_def)

lemma upd_proc_apply: "upd_proc p f P x = (if x = p then f (P x) else P x)"
  by (simp add: upd_proc_def)

lemma plinks_upd: "p \<notin> set xs \<Longrightarrow> plinks (upd_proc p f P) a xs b = plinks P a xs b"
  by (rule plinks_cong) (auto simp: upd_proc_apply)

text \<open>Only the two links change, and only of the nodes involved.\<close>

definition same_but_links :: "pstore \<Rightarrow> pstore \<Rightarrow> addr set \<Rightarrow> bool" where
  "same_but_links P P' A \<longleftrightarrow> (\<forall>x. (P' x)\<lparr>p_next := NULL, p_prev := NULL\<rparr> = (P x)\<lparr>p_next := NULL, p_prev := NULL\<rparr>) \<and>
     (\<forall>x. x \<notin> A \<longrightarrow> P' x = P x)"

lemma same_but_links_upd:
  assumes "same_but_links P P' A" "x \<in> A" "\<And>y. (f y)\<lparr>p_next := NULL, p_prev := NULL\<rparr> = y\<lparr>p_next := NULL, p_prev := NULL\<rparr>"
  shows "same_but_links P (upd_proc x f P') A"
  using assms by (auto simp: same_but_links_def upd_proc_apply)

lemma same_but_links_refl: "same_but_links P P A"
  by (simp add: same_but_links_def)

lemma first_mem: "first xs q \<in> insert q (set xs)"
  by (cases xs) auto

lemma final_mem: "final xs p \<in> insert p (set xs)"
  by (simp add: final_def)

lemma queue_append_rep:
  assumes "queue_rep P q xs" "p \<notin> set xs" "p \<noteq> NULL" "queue_append p q P = (P', q')"
  shows "queue_rep P' q' (xs @ [p])" "same_but_links P P' (insert p (set xs))" "p_next (P' p) = NULL"
proof -
  show "queue_rep P' q' (xs @ [p])"
  proof (cases xs rule: rev_cases)
    case Nil
    then show ?thesis
      using assms by (auto simp: queue_rep_def queue_append_def upd_proc_apply)
  next
    case (snoc ys y)
    then show ?thesis
      using assms by (auto simp: queue_rep_def queue_append_def upd_proc_apply plinks_append plinks_upd first_append final_append
          split: if_splits)
  qed
  have q: "snd q \<in> insert NULL (set xs)"
    using assms(1) final_mem [of xs 0] by (simp add: queue_rep_def)
  show "same_but_links P P' (insert p (set xs))"
    using assms(4) q
    by (auto simp: queue_append_def Let_def split: if_splits intro!: same_but_links_upd same_but_links_refl)
  show "p_next (P' p) = NULL"
    using assms(2-4) q by (auto simp: queue_append_def upd_proc_apply Let_def split: if_splits)
qed

lemma queue_remove_rep:
  assumes "queue_rep P q (us @ p # vs)" "queue_remove p q P = (P', q')"
  shows "queue_rep P' q' (us @ vs)" "same_but_links P P' (set (us @ p # vs))"
proof -
  show "queue_rep P' q' (us @ vs)"
    using assms
    by (cases us rule: rev_cases; cases vs)
      (auto simp: queue_rep_def queue_remove_def upd_proc_apply plinks_append plinks_upd first_append final_append
        split: if_splits)
  have "p_prev (P p) \<in> insert 0 (set us)" "p_next (P p) \<in> insert 0 (set vs)"
    using assms(1) final_mem [of us 0] first_mem [of vs 0] by (auto simp: queue_rep_def plinks_append)
  then show "same_but_links P P' (set (us @ p # vs))"
    using assms(2)
    by (auto simp: queue_remove_def Let_def upd_proc_apply split: if_splits intro!: same_but_links_upd same_but_links_refl)
qed

lemma same_but_links_field:
  assumes "same_but_links P P' A"
  shows "p_state (P' x) = p_state (P x)" "mlfq_level (P' x) = mlfq_level (P x)" "p_priority (P' x) = p_priority (P x)"
    "pid (P' x) = pid (P x)" "x \<notin> A \<Longrightarrow> P' x = P x"
proof -
  have e: "(P' x)\<lparr>p_next := NULL, p_prev := NULL\<rparr> = (P x)\<lparr>p_next := NULL, p_prev := NULL\<rparr>"
    using assms by (simp add: same_but_links_def)
  show "p_state (P' x) = p_state (P x)" "mlfq_level (P' x) = mlfq_level (P x)"
    "p_priority (P' x) = p_priority (P x)" "pid (P' x) = pid (P x)"
    using arg_cong [OF e, of p_state] arg_cong [OF e, of mlfq_level] arg_cong [OF e, of p_priority]
      arg_cong [OF e, of pid] by simp_all
  show "x \<notin> A \<Longrightarrow> P' x = P x"
    using assms by (simp add: same_but_links_def)
qed

text \<open>A queue without common nodes is not disturbed.\<close>

lemma queue_rep_other:
  assumes "same_but_links P P' A" "queue_rep P q xs" "A \<inter> set xs = {}"
  shows "queue_rep P' q xs"
proof -
  have "P' x = P x" if "x \<in> set xs" for x
    using that assms(3) by (intro same_but_links_field(5) [OF assms(1)]) auto
  then show ?thesis
    using assms(2) queue_rep_cong [of xs P' P q] by simp
qed

end
