(* ===== verification/Mlfq.thy ===== *)
theory Mlfq
  imports Procq
begin

text \<open>
  The multi-level feedback queue, \<^verbatim>\<open>process/mlfq_sched.c\<close>: five queues of processes, time slices
  that double from level to level, demotion of a process that uses up its slice, and the periodic
  boost of all queued processes to level 0.  Loops over a queue are \<open>None\<close> if they do not end.
\<close>

section \<open>State\<close>

definition MLFQ_LEVELS :: int where "MLFQ_LEVELS = 5"
definition MLFQ_BASE_QUANTUM :: u32 where "MLFQ_BASE_QUANTUM = 100"
definition MLFQ_BOOST_INTERVAL :: u64 where "MLFQ_BOOST_INTERVAL = 1000"

record mlfq_queue =
  q_head :: addr
  q_tail :: addr
  q_count :: u32
  time_quantum :: u32

text \<open>\<open>ticks\<close> is the value that \<^verbatim>\<open>timer_get_ticks\<close> returns.\<close>

record mlfq =
  procs :: pstore
  levels :: "nat \<Rightarrow> mlfq_queue"
  ticks :: u64
  boost_time :: u64
  boost_interval :: u64
  mlfq_total :: u32
  level_changes :: "nat \<Rightarrow> u64"
  mlfq_boosts :: u64

definition set_queue :: "nat \<Rightarrow> addr \<times> addr \<Rightarrow> u32 \<Rightarrow> 'a mlfq_scheme \<Rightarrow> 'a mlfq_scheme" where
  "set_queue l q n s = s\<lparr>levels := (levels s)(l := (levels s l)\<lparr>q_head := fst q, q_tail := snd q, q_count := n\<rparr>)\<rparr>"

abbreviation queue_of :: "'a mlfq_scheme \<Rightarrow> nat \<Rightarrow> addr \<times> addr" where
  "queue_of s l \<equiv> (q_head (levels s l), q_tail (levels s l))"

definition upd :: "addr \<Rightarrow> (process \<Rightarrow> process) \<Rightarrow> 'a mlfq_scheme \<Rightarrow> 'a mlfq_scheme" where
  "upd p f s = s\<lparr>procs := upd_proc p f (procs s)\<rparr>"

section \<open>Operations\<close>

definition mlfq_init :: "'a mlfq_scheme \<Rightarrow> 'a mlfq_scheme" where
  "mlfq_init s = s\<lparr>levels := (\<lambda>i. if int i < MLFQ_LEVELS
       then \<lparr>q_head = NULL, q_tail = NULL, q_count = 0, time_quantum = MLFQ_BASE_QUANTUM * push_bit i 1\<rparr> else levels s i),
     boost_time := ticks s, boost_interval := MLFQ_BOOST_INTERVAL, mlfq_total := 0,
     level_changes := (\<lambda>i. if int i < MLFQ_LEVELS then 0 else level_changes s i), mlfq_boosts := 0\<rparr>"

definition clamp_level :: "int \<Rightarrow> int" where
  "clamp_level l = (let l = (if l < 0 then 0 else l) in if l \<ge> MLFQ_LEVELS then MLFQ_LEVELS - 1 else l)"

definition mlfq_enqueue :: "addr \<Rightarrow> 'a mlfq_scheme \<Rightarrow> 'a mlfq_scheme" where
  "mlfq_enqueue p s =
     (if p = NULL then s
      else let level = clamp_level (mlfq_level (procs s p));
               s = upd p (\<lambda>x. x\<lparr>mlfq_level := level\<rparr>) s;
               l = nat level;
               s = upd p (\<lambda>x. x\<lparr>time_slice := time_quantum (levels s l), time_slice_remaining := time_quantum (levels s l),
                              time_used := 0\<rparr>) s;
               (P, q) = queue_append p (queue_of s l) (procs s);
               s = set_queue l q (q_count (levels s l) + 1) (s\<lparr>procs := P\<rparr>)
           in s\<lparr>mlfq_total := mlfq_total s + 1\<rparr>)"

definition mlfq_dequeue :: "addr \<Rightarrow> 'a mlfq_scheme \<Rightarrow> 'a mlfq_scheme" where
  "mlfq_dequeue p s =
     (if p = NULL then s
      else let level = mlfq_level (procs s p) in
        if level < 0 \<or> level \<ge> MLFQ_LEVELS then s
        else let l = nat level;
                 (P, q) = queue_remove p (queue_of s l) (procs s);
                 n = q_count (levels s l);
                 s = set_queue l q (if n > 0 then n - 1 else n) (s\<lparr>procs := P\<rparr>)
             in if mlfq_total s > 0 then s\<lparr>mlfq_total := mlfq_total s - 1\<rparr> else s)"

definition runnable :: "process \<Rightarrow> bool" where
  "runnable x \<longleftrightarrow> p_state x = PROCESS_STATE_READY \<or> p_state x = PROCESS_STATE_RUNNING"

text \<open>The walk along one queue, \<open>NULL\<close> if it holds no runnable process.\<close>

partial_function (option) pick_queue :: "pstore \<Rightarrow> addr \<Rightarrow> addr option" where
  "pick_queue P p = (if p = NULL then Some NULL else if runnable (P p) then Some p else pick_queue P (p_next (P p)))"

primrec pick_levels :: "nat \<Rightarrow> nat \<Rightarrow> 'a mlfq_scheme \<Rightarrow> addr option" where
  "pick_levels 0 l s = Some NULL"
| "pick_levels (Suc n) l s =
     (if q_count (levels s l) > 0 \<and> q_head (levels s l) \<noteq> NULL then
        Option.bind (pick_queue (procs s) (q_head (levels s l)))
          (\<lambda>p. if p \<noteq> NULL then Some p else pick_levels n (Suc l) s)
      else pick_levels n (Suc l) s)"

definition mlfq_pick_next :: "'a mlfq_scheme \<Rightarrow> addr option" where
  "mlfq_pick_next s = pick_levels (nat MLFQ_LEVELS) 0 s"

definition mlfq_tick :: "addr \<Rightarrow> 'a mlfq_scheme \<Rightarrow> 'a mlfq_scheme" where
  "mlfq_tick p s =
     (if p = NULL \<or> p_state (procs s p) \<noteq> PROCESS_STATE_RUNNING then s
      else let s = upd p (\<lambda>x. x\<lparr>time_used := time_used x + 1\<rparr>) s;
               s = (if time_slice_remaining (procs s p) > 0
                    then upd p (\<lambda>x. x\<lparr>time_slice_remaining := time_slice_remaining x - 1\<rparr>) s else s)
           in if time_slice_remaining (procs s p) = 0 then
                let old_level = mlfq_level (procs s p);
                    new_level = (if old_level + 1 \<ge> MLFQ_LEVELS then MLFQ_LEVELS - 1 else old_level + 1);
                    s = (if new_level \<noteq> old_level
                         then (upd p (\<lambda>x. x\<lparr>mlfq_level := new_level\<rparr>) s)
                                \<lparr>level_changes := (level_changes s)(nat old_level := level_changes s (nat old_level) + 1)\<rparr>
                         else s)
                in upd p (\<lambda>x. x\<lparr>time_slice_remaining := 0\<rparr>) s
              else s)"

definition mlfq_yield :: "addr \<Rightarrow> 'a mlfq_scheme \<Rightarrow> 'a mlfq_scheme" where
  "mlfq_yield p s = (if p = NULL then s else upd p (\<lambda>x. x\<lparr>time_slice_remaining := 0, time_used := 0\<rparr>) s)"

text \<open>Emptying one queue into level 0.\<close>

partial_function (option) boost_level :: "nat \<Rightarrow> 'a mlfq_scheme \<Rightarrow> 'a mlfq_scheme option" where
  "boost_level l s =
     (if q_count (levels s l) > 0 \<and> q_head (levels s l) \<noteq> NULL then
        let p = q_head (levels s l)
        in boost_level l (mlfq_enqueue p (upd p (\<lambda>x. x\<lparr>mlfq_level := 0\<rparr>) (mlfq_dequeue p s)))
      else Some s)"

primrec boost_levels :: "nat \<Rightarrow> 'a mlfq_scheme \<Rightarrow> 'a mlfq_scheme option" where
  "boost_levels 0 s = Some s"
| "boost_levels (Suc l) s = Option.bind (boost_level (Suc l) s) (boost_levels l)"

definition mlfq_boost_all :: "'a mlfq_scheme \<Rightarrow> 'a mlfq_scheme option" where
  "mlfq_boost_all s =
     (if ticks s - boost_time s < boost_interval s then Some s
      else boost_levels (nat MLFQ_LEVELS - 1) (s\<lparr>boost_time := ticks s, mlfq_boosts := mlfq_boosts s + 1\<rparr>))"

definition mlfq_get_level_count :: "int \<Rightarrow> 'a mlfq_scheme \<Rightarrow> u32" where
  "mlfq_get_level_count l s = (if l < 0 \<or> l \<ge> MLFQ_LEVELS then 0 else q_count (levels s (nat l)))"

definition mlfq_get_level_quantum :: "int \<Rightarrow> 'a mlfq_scheme \<Rightarrow> u32" where
  "mlfq_get_level_quantum l s = (if l < 0 \<or> l \<ge> MLFQ_LEVELS then 0 else time_quantum (levels s (nat l)))"

section \<open>The contract of queues with levels\<close>

text \<open>
  \<open>rep s qs\<close>: level \<open>l\<close> holds the processes \<open>qs l\<close> in this order.  A process is in at most one queue; it
  is added at the tail of its level \<open>target s p\<close> and removed from anywhere.
\<close>

locale level_queues =
  fixes rep :: "'s \<Rightarrow> (nat \<Rightarrow> addr list) \<Rightarrow> bool"
    and nlevels :: nat
    and target :: "'s \<Rightarrow> addr \<Rightarrow> nat"
    and enq :: "addr \<Rightarrow> 's \<Rightarrow> 's"
    and deq :: "addr \<Rightarrow> 's \<Rightarrow> 's"
  assumes target_less: "target s p < nlevels"
    and queued_once: "rep s qs \<Longrightarrow> i < nlevels \<Longrightarrow> distinct (qs i) \<and> 0 \<notin> set (qs i)"
    and queued_level: "rep s qs \<Longrightarrow> i < nlevels \<Longrightarrow> p \<in> set (qs i) \<Longrightarrow> target s p = i"
    and enq_appends: "rep s qs \<Longrightarrow> p \<noteq> 0 \<Longrightarrow> p \<notin> (\<Union>i<nlevels. set (qs i)) \<Longrightarrow>
      rep (enq p s) (qs(target s p := qs (target s p) @ [p]))"
    and deq_removes: "rep s qs \<Longrightarrow> i < nlevels \<Longrightarrow> p \<in> set (qs i) \<Longrightarrow>
      rep (deq p s) (qs(i := remove1 p (qs i))) \<and> target (deq p s) p = i"
begin

lemma queued_disjoint:
  "rep s qs \<Longrightarrow> i < nlevels \<Longrightarrow> j < nlevels \<Longrightarrow> i \<noteq> j \<Longrightarrow> set (qs i) \<inter> set (qs j) = {}"
  using queued_level by blast

lemma deq_gone:
  assumes "rep s qs" "i < nlevels" "p \<in> set (qs i)"
  shows "p \<notin> (\<Union>j<nlevels. set ((qs(i := remove1 p (qs i))) j))"
  using queued_once [OF assms(1,2)] queued_level [OF assms(1)] assms(2,3) by auto

text \<open>A process that is removed and added again goes behind the others of its level.\<close>

lemma requeue:
  assumes "rep s qs" "i < nlevels" "p \<in> set (qs i)"
  shows "rep (enq p (deq p s)) (qs(i := remove1 p (qs i) @ [p]))"
proof -
  have d: "rep (deq p s) (qs(i := remove1 p (qs i)))" "target (deq p s) p = i"
    using deq_removes [OF assms] by auto
  have "p \<noteq> 0"
    using queued_once [OF assms(1,2)] assms(3) by auto
  then show ?thesis
    using enq_appends [of "deq p s" "qs(i := remove1 p (qs i))" p] d deq_gone [OF assms] by simp
qed

text \<open>Removing the head of a level again and again gives its processes in the order in which they came.\<close>

lemma deq_head:
  assumes "rep s qs" "i < nlevels" "qs i = p # ps"
  shows "rep (deq p s) (qs(i := ps))"
  using deq_removes [OF assms(1,2), of p] assms(3) by simp

end

section \<open>The implementation keeps the contract\<close>

definition mlfq_rep :: "'a mlfq_scheme \<Rightarrow> (nat \<Rightarrow> addr list) \<Rightarrow> bool" where
  "mlfq_rep s qs \<longleftrightarrow> (\<forall>i<5. queue_rep (procs s) (queue_of s i) (qs i) \<and> q_count (levels s i) = of_nat (length (qs i))
     \<and> (\<forall>p\<in>set (qs i). mlfq_level (procs s p) = int i))"

definition mlfq_target :: "'a mlfq_scheme \<Rightarrow> addr \<Rightarrow> nat" where
  "mlfq_target s p = nat (clamp_level (mlfq_level (procs s p)))"

lemma clamp_level_range: "0 \<le> clamp_level l" "clamp_level l < 5"
  "0 \<le> l \<Longrightarrow> l < 5 \<Longrightarrow> clamp_level l = l"
  by (auto simp: clamp_level_def MLFQ_LEVELS_def Let_def)

lemma queue_rep_length: "queue_rep P q xs \<Longrightarrow> length xs < 2 ^ 32"
proof -
  assume "queue_rep P q xs"
  then have "distinct xs" "0 \<notin> set xs"
    by (simp_all add: queue_rep_def)
  then have "length xs = card (set xs)" "set xs \<subset> (UNIV :: u32 set)"
    by (auto simp: distinct_card)
  then show ?thesis
    using psubset_card_mono [of "UNIV :: u32 set" "set xs"] by (simp add: card_word)
qed

lemma q_count_pos: "queue_rep P q xs \<Longrightarrow> (0 < (of_nat (length xs) :: u32)) = (xs \<noteq> [])"
  using queue_rep_length [of P q xs] by (auto simp: word_less_nat_alt unat_of_nat)

lemma mlfq_upd_simps [simp]:
  "procs (upd p f s) = upd_proc p f (procs s)" "levels (upd p f s) = levels s" "ticks (upd p f s) = ticks s"
  "boost_time (upd p f s) = boost_time s" "boost_interval (upd p f s) = boost_interval s"
  "procs (set_queue l q n s) = procs s"
  "levels (set_queue l q n s) = (levels s)(l := (levels s l)\<lparr>q_head := fst q, q_tail := snd q, q_count := n\<rparr>)"
  "mlfq.more (upd p f s) = mlfq.more s" "mlfq.more (set_queue l q n s) = mlfq.more s"
  by (simp_all add: upd_def set_queue_def)

lemma mlfq_rep_cong:
  assumes "levels s' = levels s"
    and "\<And>i p. i < 5 \<Longrightarrow> p \<in> set (qs i) \<Longrightarrow> p_next (procs s' p) = p_next (procs s p) \<and> p_prev (procs s' p) = p_prev (procs s p)
      \<and> mlfq_level (procs s' p) = mlfq_level (procs s p)"
  shows "mlfq_rep s' qs = mlfq_rep s qs"
proof -
  have "queue_rep (procs s') q (qs i) = queue_rep (procs s) q (qs i)" if "i < 5" for i q
    using assms(2) [OF that] by (intro queue_rep_cong) simp
  then show ?thesis
    using assms unfolding mlfq_rep_def by simp
qed

lemma mlfq_rep_upd_other: "p \<notin> (\<Union>i<5. set (qs i)) \<Longrightarrow> mlfq_rep (upd p f s) qs = mlfq_rep s qs"
  by (rule mlfq_rep_cong) (auto simp: upd_proc_apply)

lemma mlfq_append:
  assumes "mlfq_rep s qs" "p \<noteq> 0" "p \<notin> (\<Union>i<5. set (qs i))" "l < 5" "mlfq_level (procs s p) = int l"
    and "queue_append p (queue_of s l) (procs s) = (P', q')"
  shows "mlfq_rep (set_queue l q' (q_count (levels s l) + 1) (s\<lparr>procs := P'\<rparr>)) (qs(l := qs l @ [p]))"
proof -
  have r: "queue_rep (procs s) (queue_of s i) (qs i)" "q_count (levels s i) = of_nat (length (qs i))"
    "x \<in> set (qs i) \<Longrightarrow> mlfq_level (procs s x) = int i" if "i < 5" for i x
    using assms(1) that by (auto simp: mlfq_rep_def)
  have pl: "p \<notin> set (qs l)"
    using assms(3,4) by auto
  note a = queue_append_rep [OF r(1) [OF assms(4)] pl assms(2,6)]
  have o: "queue_rep P' (queue_of s i) (qs i)" if "i < 5" "i \<noteq> l" for i
  proof (rule queue_rep_other [OF a(2) r(1)])
    show "insert p (set (qs l)) \<inter> set (qs i) = {}"
      using r(3) [OF assms(4)] r(3) [OF that(1)] that assms(3) by fastforce
  qed (rule that)
  show ?thesis
    unfolding mlfq_rep_def
    using a(1) o r(2,3) assms(4,5) by (auto simp: same_but_links_field(2) [OF a(2)])
qed

lemma mlfq_enqueue_rep:
  assumes "mlfq_rep s qs" "p \<noteq> 0" "p \<notin> (\<Union>i<5. set (qs i))"
  shows "mlfq_rep (mlfq_enqueue p s) (qs(mlfq_target s p := qs (mlfq_target s p) @ [p]))"
proof -
  define lv where "lv = clamp_level (mlfq_level (procs s p))"
  define l where "l = nat lv"
  have l: "l < 5" "int l = lv"
    using clamp_level_range(1,2) [of "mlfq_level (procs s p)"] by (simp_all add: l_def lv_def)
  define s1 where "s1 = upd p (\<lambda>x. x\<lparr>time_slice := time_quantum (levels s l), time_slice_remaining := time_quantum (levels s l),
      time_used := 0\<rparr>) (upd p (\<lambda>x. x\<lparr>mlfq_level := lv\<rparr>) s)"
  have s1: "mlfq_rep s1 qs" "mlfq_level (procs s1 p) = int l"
    using assms(1,3) l by (simp_all add: s1_def mlfq_rep_upd_other upd_proc_apply)
  obtain P' q' where q: "queue_append p (queue_of s1 l) (procs s1) = (P', q')"
    by (rule prod.exhaust)
  have "mlfq_enqueue p s = (set_queue l q' (q_count (levels s1 l) + 1) (s1\<lparr>procs := P'\<rparr>))\<lparr>mlfq_total := mlfq_total s1 + 1\<rparr>"
    using assms(2) q unfolding mlfq_enqueue_def lv_def [symmetric] l_def [symmetric] Let_def s1_def
    by (simp add: set_queue_def upd_def)
  then show ?thesis
    using mlfq_append [OF s1(1) assms(2,3) l(1) s1(2) q]
    by (simp add: mlfq_target_def lv_def [symmetric] l_def [symmetric] mlfq_rep_def)
qed

lemma mlfq_dequeue_rep:
  assumes "mlfq_rep s qs" "l < 5" "p \<in> set (qs l)"
  shows "mlfq_rep (mlfq_dequeue p s) (qs(l := remove1 p (qs l)))"
    "mlfq_level (procs (mlfq_dequeue p s) x) = mlfq_level (procs s x)"
proof -
  have r: "queue_rep (procs s) (queue_of s i) (qs i)" "q_count (levels s i) = of_nat (length (qs i))"
    "x \<in> set (qs i) \<Longrightarrow> mlfq_level (procs s x) = int i" if "i < 5" for i x
    using assms(1) that by (auto simp: mlfq_rep_def)
  obtain us vs where uv: "qs l = us @ p # vs"
    using assms(3) by (meson split_list)
  have p: "p \<noteq> 0" "p \<notin> set us"
    using r(1) [OF assms(2)] by (auto simp: queue_rep_def uv)
  have lv: "mlfq_level (procs s p) = int l"
    using r(3) assms(2,3) by simp
  obtain P' q' where q: "queue_remove p (queue_of s l) (procs s) = (P', q')"
    by (rule prod.exhaust)
  have n: "0 < q_count (levels s l)"
    using r(1,2) [OF assms(2)] q_count_pos assms(3) by fastforce
  note d = queue_remove_rep [OF r(1) [OF assms(2), unfolded uv] q]
  have o: "queue_rep P' (queue_of s i) (qs i)" if "i < 5" "i \<noteq> l" for i
  proof (rule queue_rep_other [OF d(2) r(1)])
    show "set (us @ p # vs) \<inter> set (qs i) = {}"
      using r(3) [OF assms(2)] r(3) [OF that(1)] that uv by fastforce
  qed (rule that)
  let ?s = "set_queue l q' (q_count (levels s l) - 1) (s\<lparr>procs := P'\<rparr>)"
  have e: "mlfq_dequeue p s = (if mlfq_total s > 0 then ?s\<lparr>mlfq_total := mlfq_total s - 1\<rparr> else ?s)"
    using p(1) lv assms(2) q n by (simp add: mlfq_dequeue_def MLFQ_LEVELS_def set_queue_def)
  have "mlfq_rep ?s (qs(l := us @ vs))"
    unfolding mlfq_rep_def
    using d(1) o r(2,3) assms(2) uv by (auto simp: same_but_links_field(2) [OF d(2)])
  moreover have "remove1 p (qs l) = us @ vs"
    using p(2) by (simp add: uv remove1_append)
  ultimately show "mlfq_rep (mlfq_dequeue p s) (qs(l := remove1 p (qs l)))"
    by (simp add: e mlfq_rep_def)
  show "mlfq_level (procs (mlfq_dequeue p s) x) = mlfq_level (procs s x)"
    by (simp_all add: e same_but_links_field [OF d(2)])
qed

interpretation mlfqq: level_queues mlfq_rep 5 mlfq_target mlfq_enqueue mlfq_dequeue
proof (unfold_locales, goal_cases)
  case (1 s p)
  then show ?case
    using clamp_level_range(1,2) [of "mlfq_level (procs s p)"] by (simp add: mlfq_target_def nat_less_iff)
next
  case (2 s qs i)
  then show ?case by (auto simp: mlfq_rep_def queue_rep_def)
next
  case (3 s qs i p)
  then show ?case by (auto simp: mlfq_rep_def mlfq_target_def clamp_level_range)
next
  case (4 s qs p)
  then show ?case by (rule mlfq_enqueue_rep)
next
  case (5 s qs i p)
  then have "mlfq_level (procs s p) = int i"
    by (auto simp: mlfq_rep_def)
  with 5 show ?case
    using mlfq_dequeue_rep [OF 5] by (auto simp: mlfq_target_def clamp_level_range)
qed

section \<open>Picking and boosting\<close>

definition or_null :: "addr option \<Rightarrow> addr" where
  "or_null x = (case x of None \<Rightarrow> NULL | Some p \<Rightarrow> p)"

lemma pick_queue_find:
  "plinks P p xs 0 \<Longrightarrow> 0 \<notin> set xs \<Longrightarrow> pick_queue P (first xs 0) = Some (or_null (find (\<lambda>x. runnable (P x)) xs))"
proof (induction xs arbitrary: p)
  case Nil
  then show ?case by (simp add: pick_queue.simps [of P 0] or_null_def)
next
  case (Cons x xs)
  then show ?case
    using Cons.IH [of x] by (simp add: pick_queue.simps [of P x] or_null_def)
qed

lemma pick_levels_find:
  assumes "mlfq_rep s qs"
  shows "l + n \<le> 5 \<Longrightarrow>
    pick_levels n l s = Some (or_null (find (\<lambda>x. runnable (procs s x)) (concat (map qs [l..<l + n]))))"
proof (induction n arbitrary: l)
  case 0
  then show ?case by (simp add: or_null_def)
next
  case (Suc n)
  have r: "queue_rep (procs s) (queue_of s l) (qs l)" "q_count (levels s l) = of_nat (length (qs l))"
    using assms Suc.prems by (auto simp: mlfq_rep_def)
  then have q: "plinks (procs s) 0 (qs l) 0" "0 \<notin> set (qs l)" "q_head (levels s l) = first (qs l) 0"
    by (simp_all add: queue_rep_def)
  have ne: "q_count (levels s l) > 0 \<and> q_head (levels s l) \<noteq> 0 \<longleftrightarrow> qs l \<noteq> []"
    using q_count_pos [OF r(1)] r(2) q(2,3) by (cases "qs l") auto
  have c: "concat (map qs [l..<l + Suc n]) = qs l @ concat (map qs [Suc l..<Suc l + n])"
    by (simp add: upt_conv_Cons del: upt_Suc)
  have nz: "x \<noteq> 0" if "find (\<lambda>x. runnable (procs s x)) (qs l) = Some x" for x
    using that q(2) by (metis find_Some_iff nth_mem)
  show ?case
    using Suc.IH [of "Suc l"] Suc.prems ne pick_queue_find [OF q(1,2)] nz unfolding c find_append
    by (cases "find (\<lambda>x. runnable (procs s x)) (qs l)") (auto simp: q(3) or_null_def)
qed

lemma mlfq_pick_next_find:
  "mlfq_rep s qs \<Longrightarrow> mlfq_pick_next s = Some (or_null (find (\<lambda>x. runnable (procs s x)) (concat (map qs [0..<5]))))"
  using pick_levels_find [of s qs 0 5] by (simp add: mlfq_pick_next_def MLFQ_LEVELS_def)

text \<open>The part of a process that queueing does not touch.\<close>

definition unscheduled :: "process \<Rightarrow> process" where
  "unscheduled x = x\<lparr>p_next := NULL, p_prev := NULL, time_slice := 0, time_slice_remaining := 0, time_used := 0, mlfq_level := 0\<rparr>"

lemma unscheduled_upd [simp]:
  "unscheduled (x\<lparr>p_next := a\<rparr>) = unscheduled x" "unscheduled (x\<lparr>p_prev := a\<rparr>) = unscheduled x"
  "unscheduled (x\<lparr>time_slice := b\<rparr>) = unscheduled x" "unscheduled (x\<lparr>time_slice_remaining := b\<rparr>) = unscheduled x"
  "unscheduled (x\<lparr>time_used := b\<rparr>) = unscheduled x" "unscheduled (x\<lparr>mlfq_level := c\<rparr>) = unscheduled x"
  by (cases x; simp add: unscheduled_def)+

lemma unscheduled_field:
  assumes "unscheduled x = unscheduled y"
  shows "p_state x = p_state y" "pid x = pid y" "page_dir x = page_dir y" "kernel_stack x = kernel_stack y"
    "preempt_count x = preempt_count y"
  using arg_cong [OF assms, of p_state] arg_cong [OF assms, of pid] arg_cong [OF assms, of page_dir]
    arg_cong [OF assms, of kernel_stack] arg_cong [OF assms, of preempt_count] by (simp_all add: unscheduled_def)

lemma queue_op_same:
  "queue_append p q P = (P', q') \<Longrightarrow> same_but_links P P' UNIV" "queue_remove p q P = (P', q') \<Longrightarrow> same_but_links P P' UNIV"
  by (auto simp: queue_append_def queue_remove_def Let_def split: if_splits intro!: same_but_links_upd same_but_links_refl)

lemma same_but_links_unscheduled:
  assumes "same_but_links P P' A"
  shows "unscheduled (P' x) = unscheduled (P x)"
proof -
  have "unscheduled ((P' x)\<lparr>p_next := NULL, p_prev := NULL\<rparr>) = unscheduled ((P x)\<lparr>p_next := NULL, p_prev := NULL\<rparr>)"
    using assms by (simp add: same_but_links_def)
  then show ?thesis by simp
qed

lemma enqueue_fields:
  "unscheduled (procs (mlfq_enqueue p s) x) = unscheduled (procs s x)"
  "x \<noteq> p \<Longrightarrow> mlfq_level (procs (mlfq_enqueue p s) x) = mlfq_level (procs s x)"
  "mlfq.more (mlfq_enqueue p s) = mlfq.more s"
proof -
  define l where "l = clamp_level (mlfq_level (procs s p))"
  define s1 where "s1 = upd p (\<lambda>x. x\<lparr>time_slice := time_quantum (levels s (nat l)),
      time_slice_remaining := time_quantum (levels s (nat l)), time_used := 0\<rparr>) (upd p (\<lambda>x. x\<lparr>mlfq_level := l\<rparr>) s)"
  obtain P' q' where q: "queue_append p (queue_of s1 (nat l)) (procs s1) = (P', q')"
    by (rule prod.exhaust)
  have e: "mlfq_enqueue p s = (if p = 0 then s else
      (set_queue (nat l) q' (q_count (levels s1 (nat l)) + 1) (s1\<lparr>procs := P'\<rparr>))\<lparr>mlfq_total := mlfq_total s1 + 1\<rparr>)"
    using q by (simp add: mlfq_enqueue_def Let_def l_def [symmetric] s1_def set_queue_def)
  have s1: "unscheduled (procs s1 x) = unscheduled (procs s x)" "x \<noteq> p \<Longrightarrow> mlfq_level (procs s1 x) = mlfq_level (procs s x)"
    "mlfq.more s1 = mlfq.more s"
    by (simp_all add: s1_def upd_proc_apply)
  show "unscheduled (procs (mlfq_enqueue p s) x) = unscheduled (procs s x)"
    "x \<noteq> p \<Longrightarrow> mlfq_level (procs (mlfq_enqueue p s) x) = mlfq_level (procs s x)"
    "mlfq.more (mlfq_enqueue p s) = mlfq.more s"
    by (simp_all add: e s1 same_but_links_unscheduled [OF queue_op_same(1) [OF q]] same_but_links_field(2) [OF queue_op_same(1) [OF q]])
qed

lemma dequeue_fields:
  "unscheduled (procs (mlfq_dequeue p s) x) = unscheduled (procs s x)"
  "mlfq_level (procs (mlfq_dequeue p s) x) = mlfq_level (procs s x)"
  "mlfq.more (mlfq_dequeue p s) = mlfq.more s"
proof -
  obtain P' q' where q: "queue_remove p (queue_of s (nat (mlfq_level (procs s p)))) (procs s) = (P', q')"
    by (rule prod.exhaust)
  show "unscheduled (procs (mlfq_dequeue p s) x) = unscheduled (procs s x)"
    "mlfq_level (procs (mlfq_dequeue p s) x) = mlfq_level (procs s x)" "mlfq.more (mlfq_dequeue p s) = mlfq.more s"
    by (simp_all add: mlfq_dequeue_def Let_def q same_but_links_unscheduled [OF queue_op_same(2) [OF q]] same_but_links_field(2) [OF queue_op_same(2) [OF q]])
qed

lemma enqueue_time:
  "ticks (mlfq_enqueue p s) = ticks s" "boost_time (mlfq_enqueue p s) = boost_time s"
  "boost_interval (mlfq_enqueue p s) = boost_interval s"
  by (auto simp: mlfq_enqueue_def set_queue_def Let_def split: prod.splits)

definition boost_frame :: "'a mlfq_scheme \<Rightarrow> 'a mlfq_scheme \<Rightarrow> addr set \<Rightarrow> bool" where
  "boost_frame s s' A \<longleftrightarrow> (\<forall>x. unscheduled (procs s' x) = unscheduled (procs s x)) \<and>
     (\<forall>x. x \<notin> A \<longrightarrow> mlfq_level (procs s' x) = mlfq_level (procs s x)) \<and> mlfq.more s' = mlfq.more s"

lemma boost_frame_refl: "boost_frame s s A"
  by (simp add: boost_frame_def)

lemma boost_frame_trans: "boost_frame s t A \<Longrightarrow> boost_frame t u B \<Longrightarrow> boost_frame s u (A \<union> B)"
  by (simp add: boost_frame_def)

lemma boost_level_rep:
  assumes "0 < l" "l < 5" "mlfq_rep s qs"
  obtains s' where "boost_level l s = Some s'" "mlfq_rep s' (qs(l := [], 0 := qs 0 @ qs l))"
    "boost_frame s s' (set (qs l))"
proof -
  have "\<exists>s'. boost_level l s = Some s' \<and> mlfq_rep s' (qs(l := [], 0 := qs 0 @ xs)) \<and> boost_frame s s' (set xs)"
    if "qs l = xs" "mlfq_rep s qs" for s qs xs
    using that
  proof (induction xs arbitrary: s qs)
    case Nil
    have "queue_rep (procs s) (queue_of s l) (qs l)"
      using Nil(2) assms(2) by (simp add: mlfq_rep_def)
    then have "boost_level l s = Some s"
      by (subst boost_level.simps) (simp add: Nil)
    moreover have "qs(l := [], 0 := qs 0 @ []) = qs"
      using Nil(1) by auto
    then have "mlfq_rep s (qs(l := [], 0 := qs 0 @ []))"
      using Nil(2) by (simp only:)
    ultimately show ?case
      using boost_frame_refl by blast
  next
    case (Cons p ps)
    let ?s1 = "mlfq_dequeue p s" let ?s2 = "upd p (\<lambda>x. x\<lparr>mlfq_level := 0\<rparr>) ?s1"
    let ?s3 = "mlfq_enqueue p ?s2" and ?qs = "qs(l := ps)"
    have q: "queue_rep (procs s) (queue_of s l) (p # ps)" "q_count (levels s l) = of_nat (length (p # ps))"
      using Cons.prems assms(2) by (auto simp: mlfq_rep_def)
    have c: "0 < q_count (levels s l)" "q_head (levels s l) = p" "p \<noteq> 0"
      using q q_count_pos [OF q(1)] by (simp_all add: queue_rep_def)
    have p: "p \<in> set (qs l)"
      using Cons.prems(1) by simp
    have s1: "mlfq_rep ?s1 ?qs"
      by (rule mlfqq.deq_head [OF Cons.prems(2) assms(2) Cons.prems(1)])
    have out: "p \<notin> (\<Union>i<5. set (?qs i))"
      using mlfqq.deq_gone [OF Cons.prems(2) assms(2) p] Cons.prems(1) by simp
    have "mlfq_rep ?s2 ?qs = mlfq_rep ?s1 ?qs"
      by (rule mlfq_rep_upd_other [OF out])
    then have s2: "mlfq_rep ?s2 ?qs" "mlfq_target ?s2 p = 0"
      using s1 by (simp_all only: mlfq_target_def) (simp add: upd_proc_apply clamp_level_range)
    have "?qs 0 = qs 0"
      using assms(1) by simp
    then have s3: "mlfq_rep ?s3 (?qs(0 := qs 0 @ [p]))"
      using mlfq_enqueue_rep [OF s2(1) c(3) out] unfolding s2(2) by (simp only:)
    have "boost_level l s = boost_level l ?s3"
      using c by (subst boost_level.simps) simp
    moreover have "(?qs(0 := qs 0 @ [p])) l = ps"
      using assms(1) by simp
    then obtain s' where s': "boost_level l ?s3 = Some s'"
      "mlfq_rep s' ((?qs(0 := qs 0 @ [p]))(l := [], 0 := (?qs(0 := qs 0 @ [p])) 0 @ ps))"
      "boost_frame ?s3 s' (set ps)"
      using Cons.IH [OF _ s3] by blast
    moreover have "(?qs(0 := qs 0 @ [p]))(l := [], 0 := (?qs(0 := qs 0 @ [p])) 0 @ ps) = qs(l := [], 0 := qs 0 @ p # ps)"
      by (auto simp: fun_eq_iff)
    moreover have "boost_frame s ?s3 {p}"
      by (simp add: boost_frame_def enqueue_fields dequeue_fields upd_proc_apply)
    then have "boost_frame s s' (set (p # ps))"
      using boost_frame_trans [OF _ s'(3)] by (metis insert_is_Un list.simps(15))
    ultimately show ?case
      by metis
  qed
  from this [OF refl assms(3)] show thesis
    using that by blast
qed

definition boosted :: "(nat \<Rightarrow> addr list) \<Rightarrow> nat \<Rightarrow> addr list" where
  "boosted qs i = (if i = 0 then qs 0 @ qs 4 @ qs 3 @ qs 2 @ qs 1 else if i < 5 then [] else qs i)"

lemma boost_levels_rep:
  assumes "mlfq_rep s qs"
  obtains s' where "boost_levels 4 s = Some s'" "mlfq_rep s' (boosted qs)" "boost_frame s s' (\<Union>i<5. set (qs i))"
proof -
  obtain s4 where 4: "boost_level 4 s = Some s4" "mlfq_rep s4 (qs(4 := [], 0 := qs 0 @ qs 4))" "boost_frame s s4 (set (qs 4))"
    by (rule boost_level_rep [of 4, OF _ _ assms]) (simp_all)
  obtain s3 where 3: "boost_level 3 s4 = Some s3"
    "mlfq_rep s3 (qs(4 := [], 0 := qs 0 @ qs 4, 3 := [], 0 := (qs 0 @ qs 4) @ qs 3))" "boost_frame s4 s3 (set (qs 3))"
    by (rule boost_level_rep [of 3, OF _ _ 4(2)]) (simp_all)
  obtain s2 where 2: "boost_level 2 s3 = Some s2"
    "mlfq_rep s2 (qs(4 := [], 0 := qs 0 @ qs 4, 3 := [], 0 := (qs 0 @ qs 4) @ qs 3, 2 := [],
       0 := ((qs 0 @ qs 4) @ qs 3) @ qs 2))" "boost_frame s3 s2 (set (qs 2))"
    by (rule boost_level_rep [of 2, OF _ _ 3(2)]) (simp_all)
  obtain s1 where 1: "boost_level 1 s2 = Some s1"
    "mlfq_rep s1 (qs(4 := [], 0 := qs 0 @ qs 4, 3 := [], 0 := (qs 0 @ qs 4) @ qs 3, 2 := [],
       0 := ((qs 0 @ qs 4) @ qs 3) @ qs 2, 1 := [], 0 := (((qs 0 @ qs 4) @ qs 3) @ qs 2) @ qs 1))" "boost_frame s2 s1 (set (qs 1))"
    by (rule boost_level_rep [of 1, OF _ _ 2(2)]) (simp_all)
  have "i < 5 \<longleftrightarrow> i = 0 \<or> i = 1 \<or> i = 2 \<or> i = 3 \<or> i = 4" for i :: nat
    by arith
  then have "qs(4 := [], 0 := qs 0 @ qs 4, 3 := [], 0 := (qs 0 @ qs 4) @ qs 3, 2 := [],
       0 := ((qs 0 @ qs 4) @ qs 3) @ qs 2, 1 := [], 0 := (((qs 0 @ qs 4) @ qs 3) @ qs 2) @ qs 1) = boosted qs"
    by (simp add: boosted_def fun_eq_iff)
  then have "mlfq_rep s1 (boosted qs)"
    using 1(2) by (simp only:)
  moreover have "boost_levels 4 s = Some s1"
    using 4(1) 3(1) 2(1) 1(1) by (simp add: numeral_eq_Suc)
  moreover have "boost_frame s s1 (((set (qs 4) \<union> set (qs 3)) \<union> set (qs 2)) \<union> set (qs 1))"
    by (intro boost_frame_trans [OF _ 1(3)] boost_frame_trans [OF _ 2(3)] boost_frame_trans [OF _ 3(3)] 4(3))
  then have "boost_frame s s1 (\<Union>i<5. set (qs i))"
    by (auto simp: boost_frame_def)
  ultimately show thesis
    by (intro that [of s1])
qed

lemma mlfq_boost_all_rep:
  assumes "mlfq_rep s qs"
  obtains s' where "mlfq_boost_all s = Some s'"
    "mlfq_rep s' (if ticks s - boost_time s < boost_interval s then qs else boosted qs)"
    "boost_frame s s' (\<Union>i<5. set (qs i))"
proof (cases "ticks s - boost_time s < boost_interval s")
  case True
  with assms show thesis
    by (intro that [of s]) (simp_all add: mlfq_boost_all_def boost_frame_refl)
next
  case False
  have "mlfq_rep (s\<lparr>boost_time := ticks s, mlfq_boosts := mlfq_boosts s + 1\<rparr>) qs"
    using assms by (simp add: mlfq_rep_def)
  from boost_levels_rep [OF this] obtain s' where
    "boost_levels 4 (s\<lparr>boost_time := ticks s, mlfq_boosts := mlfq_boosts s + 1\<rparr>) = Some s'" "mlfq_rep s' (boosted qs)"
    "boost_frame (s\<lparr>boost_time := ticks s, mlfq_boosts := mlfq_boosts s + 1\<rparr>) s' (\<Union>i<5. set (qs i))"
    by auto
  with False show thesis
    by (intro that [of s']) (simp_all add: mlfq_boost_all_def MLFQ_LEVELS_def boost_frame_def)
qed

text \<open>
  \<^bold>\<open>C30.\<close> The periodic boost.  When the interval has passed, \<open>mlfq_boost_all\<close> ends and every queued process is
  at level 0, behind those that were there: first those of level 4, then 3, 2 and 1, in their order.
  Otherwise nothing changes.  No process is lost or queued twice, and states do not change.
\<close>

theorem mlfq_boost_moves_all:
  assumes "mlfq_rep s qs"
  shows "\<exists>s'. mlfq_boost_all s = Some s' \<and> (\<forall>p. p_state (procs s' p) = p_state (procs s p)) \<and>
    mlfq_rep s' (\<lambda>i. if ticks s - boost_time s < boost_interval s then qs i
       else if i = 0 then qs 0 @ qs 4 @ qs 3 @ qs 2 @ qs 1 else if i < 5 then [] else qs i)"
proof -
  have e: "(\<lambda>i. if ticks s - boost_time s < boost_interval s then qs i
       else if i = 0 then qs 0 @ qs 4 @ qs 3 @ qs 2 @ qs 1 else if i < 5 then [] else qs i)
    = (if ticks s - boost_time s < boost_interval s then qs else boosted qs)"
    by (auto simp: boosted_def fun_eq_iff)
  show ?thesis
    unfolding e by (rule mlfq_boost_all_rep [OF assms]) (auto simp: boost_frame_def dest: unscheduled_field(1))
qed

text \<open>Processes 16 at level 0 and 32 at level 3.\<close>

definition demo_mlfq :: mlfq where
  "demo_mlfq = (let s = mlfq_init \<lparr>procs = (\<lambda>p. zero_process\<lparr>p_state := PROCESS_STATE_READY, mlfq_level := (if p = 32 then 3 else 0)\<rparr>),
     levels = \<lambda>_. \<lparr>q_head = 0, q_tail = 0, q_count = 0, time_quantum = 0\<rparr>, ticks = 0, boost_time = 0, boost_interval = 0,
     mlfq_total = 0, level_changes = \<lambda>_. 0, mlfq_boosts = 0\<rparr>
     in (mlfq_enqueue 32 (mlfq_enqueue 16 s))\<lparr>ticks := 2000\<rparr>)"

lemma mlfq_init_rep: "mlfq_rep (mlfq_init s) (\<lambda>_. [])"
  by (simp add: mlfq_rep_def mlfq_init_def MLFQ_LEVELS_def)

definition demo_qs :: "nat \<Rightarrow> addr list" where
  "demo_qs i = (if i = 0 then [16] else if i = 3 then [32] else [])"

lemma demo_mlfq_rep: "mlfq_rep demo_mlfq demo_qs"
proof -
  define s where "s = mlfq_init \<lparr>procs = (\<lambda>p. zero_process\<lparr>p_state := PROCESS_STATE_READY, mlfq_level := (if p = 32 then 3 else 0)\<rparr>),
     levels = \<lambda>_. \<lparr>q_head = 0, q_tail = 0, q_count = 0, time_quantum = 0\<rparr>, ticks = 0, boost_time = 0, boost_interval = 0,
     mlfq_total = 0, level_changes = \<lambda>_. 0, mlfq_boosts = 0\<rparr>"
  have s: "mlfq_level (procs s p) = (if p = 32 then 3 else 0)" for p
    by (simp add: s_def mlfq_init_def)
  have i: "mlfq_rep s (\<lambda>_. [])"
    unfolding s_def by (rule mlfq_init_rep)
  have t: "mlfq_target s 16 = 0"
    by (simp add: mlfq_target_def s clamp_level_range)
  have 1: "mlfq_rep (mlfq_enqueue 16 s) ((\<lambda>_. [])(0 := [16]))"
    using mlfq_enqueue_rep [OF i, of 16] unfolding t by simp
  have "mlfq_level (procs (mlfq_enqueue 16 s) 32) = 3"
    by (simp add: mlfq_enqueue_def queue_append_def s Let_def upd_proc_apply s_def mlfq_init_def MLFQ_LEVELS_def clamp_level_range)
  then have t: "mlfq_target (mlfq_enqueue 16 s) 32 = 3"
    by (simp add: mlfq_target_def clamp_level_range)
  have 2: "mlfq_rep (mlfq_enqueue 32 (mlfq_enqueue 16 s)) ((\<lambda>_. [])(0 := [16], 3 := [32]))"
    using mlfq_enqueue_rep [OF 1, of 32] unfolding t by (simp split: if_splits)
  have "(\<lambda>_. [])(0 := [16], 3 := [32]) = demo_qs"
    by (simp add: demo_qs_def fun_eq_iff)
  with 2 have "mlfq_rep (mlfq_enqueue 32 (mlfq_enqueue 16 s)) demo_qs"
    by (simp only:)
  then show ?thesis
    by (simp add: demo_mlfq_def s_def [symmetric] mlfq_rep_def)
qed

theorem mlfq_boost_moves_all_witness:
  "\<exists>s'. mlfq_boost_all demo_mlfq = Some s' \<and> mlfq_level (procs s' 32) = 0"
proof -
  have d: "\<not> ticks demo_mlfq - boost_time demo_mlfq < boost_interval demo_mlfq"
    by (simp add: demo_mlfq_def Let_def enqueue_time) (simp add: mlfq_init_def MLFQ_BOOST_INTERVAL_def)
  obtain s' where s': "mlfq_boost_all demo_mlfq = Some s'"
    "mlfq_rep s' (\<lambda>i. if ticks demo_mlfq - boost_time demo_mlfq < boost_interval demo_mlfq then demo_qs i
       else if i = 0 then demo_qs 0 @ demo_qs 4 @ demo_qs 3 @ demo_qs 2 @ demo_qs 1 else if i < 5 then [] else demo_qs i)"
    using mlfq_boost_moves_all [OF demo_mlfq_rep] by blast
  have "\<forall>p\<in>set (demo_qs 0 @ demo_qs 4 @ demo_qs 3 @ demo_qs 2 @ demo_qs 1). mlfq_level (procs s' p) = int 0"
    using s'(2) [unfolded mlfq_rep_def, rule_format, of 0] d by simp
  then have "mlfq_level (procs s' 32) = 0"
    by (simp add: demo_qs_def)
  with s'(1) show ?thesis by simp
qed

text \<open>
  The choice of the next process.  \<open>mlfq_pick_next\<close> ends, changes nothing, and returns the first
  process that is ready or running, searching the levels from 0 on and each queue from its head; it
  returns \<open>NULL\<close> exactly if there is none.
\<close>

theorem mlfq_picks_highest:
  assumes "mlfq_rep s qs"
  shows "\<exists>p. mlfq_pick_next s = Some p \<and>
    (if p = NULL then \<forall>i<5. \<forall>x\<in>set (qs i). \<not> runnable (procs s x)
     else runnable (procs s p) \<and> (\<exists>i<5. \<exists>us vs. qs i = us @ p # vs \<and> (\<forall>x\<in>set us. \<not> runnable (procs s x)) \<and>
       (\<forall>j<i. \<forall>x\<in>set (qs j). \<not> runnable (procs s x))))"
proof (cases "find (\<lambda>x. runnable (procs s x)) (concat (map qs [0..<5]))")
  case None
  then have "mlfq_pick_next s = Some 0"
    by (simp add: mlfq_pick_next_find [OF assms] or_null_def)
  moreover have "\<forall>i<5. \<forall>x\<in>set (qs i). \<not> runnable (procs s x)"
    using None by (force simp: find_None_iff)
  ultimately show ?thesis by simp
next
  case (Some p)
  then have pk: "mlfq_pick_next s = Some p"
    by (simp add: mlfq_pick_next_find [OF assms] or_null_def)
  have pi: "\<exists>i<l + n. l \<le> i \<and> (\<exists>us vs. qs i = us @ p # vs \<and> (\<forall>x\<in>set us. \<not> runnable (procs s x)) \<and>
      (\<forall>j. l \<le> j \<and> j < i \<longrightarrow> (\<forall>x\<in>set (qs j). \<not> runnable (procs s x))))" if
    "find (\<lambda>x. runnable (procs s x)) (concat (map qs [l..<l + n])) = Some p" for l n
    using that
  proof (induction n arbitrary: l)
    case (Suc n)
    have c: "concat (map qs [l..<l + Suc n]) = qs l @ concat (map qs [Suc l..<Suc l + n])"
      by (simp add: upt_conv_Cons del: upt_Suc)
    show ?case
    proof (cases "find (\<lambda>x. runnable (procs s x)) (qs l)")
      case None
      then have n: "\<forall>x\<in>set (qs l). \<not> runnable (procs s x)"
        by (simp add: find_None_iff)
      obtain i us vs where i: "i < Suc l + n" "Suc l \<le> i" "qs i = us @ p # vs" "\<forall>x\<in>set us. \<not> runnable (procs s x)"
        "\<forall>j. Suc l \<le> j \<and> j < i \<longrightarrow> (\<forall>x\<in>set (qs j). \<not> runnable (procs s x))"
        using Suc.IH [of "Suc l"] Suc.prems None unfolding c find_append by auto
      have "\<forall>j. l \<le> j \<and> j < i \<longrightarrow> (\<forall>x\<in>set (qs j). \<not> runnable (procs s x))"
        using i(5) n by (metis Suc_leI le_neq_implies_less)
      with i show ?thesis by (intro exI [of _ i]) auto
    next
      case (Some q)
      then have "q = p"
        using Suc.prems unfolding c find_append by simp
      then obtain k where k: "k < length (qs l)" "qs l ! k = p" "\<forall>j<k. \<not> runnable (procs s (qs l ! j))"
        using Some by (auto simp: find_Some_iff)
      then have "qs l = take k (qs l) @ p # drop (Suc k) (qs l)" "\<forall>x\<in>set (take k (qs l)). \<not> runnable (procs s x)"
        using id_take_nth_drop [of k "qs l"] by (auto simp: in_set_conv_nth)
      then show ?thesis
        by (intro exI [of _ l]) auto
    qed
  qed simp
  obtain i us vs where i: "i < 5" "qs i = us @ p # vs" "\<forall>x\<in>set us. \<not> runnable (procs s x)"
    "\<forall>j<i. \<forall>x\<in>set (qs j). \<not> runnable (procs s x)"
    using pi [of 0 5] Some by auto
  have "p \<noteq> 0"
    using i(1,2) mlfqq.queued_once [OF assms i(1)] by auto
  moreover have "runnable (procs s p)"
    using Some by (auto simp: find_Some_iff)
  ultimately show ?thesis
    using pk i by auto
qed

theorem mlfq_picks_highest_witness: "\<exists>p. mlfq_pick_next demo_mlfq = Some p \<and> (p \<noteq> NULL \<longrightarrow> runnable (procs demo_mlfq p))"
  using mlfq_picks_highest [OF demo_mlfq_rep] by (auto split: if_splits)

section \<open>Time slices\<close>

lemma mlfq_tick_running:
  assumes "p \<noteq> 0" "p_state (procs s p) = PROCESS_STATE_RUNNING" "1 < time_slice_remaining (procs s p)"
  shows "procs (mlfq_tick p s) = upd_proc p (\<lambda>x. x\<lparr>time_used := time_used x + 1,
      time_slice_remaining := time_slice_remaining x - 1\<rparr>) (procs s)"
proof -
  have "0 < time_slice_remaining (procs s p)" "time_slice_remaining (procs s p) - 1 \<noteq> 0"
    using assms(3) by (auto simp: word_less_nat_alt)
  then show ?thesis
    using assms(1,2) by (simp add: mlfq_tick_def Let_def upd_proc_apply fun_eq_iff)
qed

lemma mlfq_tick_last:
  assumes "p \<noteq> 0" "p_state (procs s p) = PROCESS_STATE_RUNNING" "time_slice_remaining (procs s p) \<le> 1"
    "0 \<le> mlfq_level (procs s p)" "mlfq_level (procs s p) < 5"
  shows "mlfq_level (procs (mlfq_tick p s) p) = min 4 (mlfq_level (procs s p) + 1)"
    "time_slice_remaining (procs (mlfq_tick p s) p) = 0"
proof -
  have "time_slice_remaining (procs s p) = 0 \<or> time_slice_remaining (procs s p) = 1"
    using assms(3) by (auto simp: word_le_nat_alt unat_inj le_Suc_eq)
  moreover have "mlfq_level (procs s p) = 4 \<or> mlfq_level (procs s p) + 1 < 5"
    using assms(5) by linarith
  ultimately show "mlfq_level (procs (mlfq_tick p s) p) = min 4 (mlfq_level (procs s p) + 1)"
    "time_slice_remaining (procs (mlfq_tick p s) p) = 0"
    using assms(1,2,4)
    by (elim disjE; simp add: mlfq_tick_def Let_def upd_proc_apply MLFQ_LEVELS_def)+
qed

lemma mlfq_tick_frame:
  "q \<noteq> p \<Longrightarrow> procs (mlfq_tick p s) q = procs s q" "p_next (procs (mlfq_tick p s) q) = p_next (procs s q)"
  "p_prev (procs (mlfq_tick p s) q) = p_prev (procs s q)" "p_state (procs (mlfq_tick p s) q) = p_state (procs s q)"
  "preempt_count (procs (mlfq_tick p s) q) = preempt_count (procs s q)"
  "levels (mlfq_tick p s) = levels s" "mlfq.more (mlfq_tick p s) = mlfq.more s"
  by (simp_all add: mlfq_tick_def Let_def upd_proc_apply)

lemma mlfq_ticks_running:
  assumes "p \<noteq> 0" "p_state (procs s p) = PROCESS_STATE_RUNNING" "0 \<le> mlfq_level (procs s p)" "mlfq_level (procs s p) < 5"
  shows "k < unat (time_slice_remaining (procs s p)) \<Longrightarrow>
    p_state (procs ((mlfq_tick p ^^ k) s) p) = PROCESS_STATE_RUNNING \<and>
    mlfq_level (procs ((mlfq_tick p ^^ k) s) p) = mlfq_level (procs s p) \<and>
    unat (time_slice_remaining (procs ((mlfq_tick p ^^ k) s) p)) = unat (time_slice_remaining (procs s p)) - k"
proof (induction k)
  case 0
  then show ?case using assms(2) by simp
next
  case (Suc k)
  define t where "t = (mlfq_tick p ^^ k) s"
  have t: "p_state (procs t p) = PROCESS_STATE_RUNNING" "mlfq_level (procs t p) = mlfq_level (procs s p)"
    "unat (time_slice_remaining (procs t p)) = unat (time_slice_remaining (procs s p)) - k"
    using Suc by (simp_all add: t_def)
  then have "1 < time_slice_remaining (procs t p)"
    using Suc.prems by (simp add: word_less_nat_alt)
  then show ?case
    using mlfq_tick_running [OF assms(1) t(1)] t Suc.prems
    by (simp add: t_def [symmetric] upd_proc_apply unat_diff_le word_le_nat_alt)
qed

text \<open>
  Time slices.  A process that enters level \<open>l\<close> after \<open>mlfq_init\<close> gets \<open>100 * 2 ^ l\<close> ticks: while it
  runs, its level does not change before the last of them, and with that one it drops to the next
  level, or stays at the lowest.
\<close>

theorem mlfq_time_slices:
  assumes "p \<noteq> NULL" "l < 5" "mlfq_level (procs s p) = int l" "levels s = levels (mlfq_init s0)"
    and "t = upd p (\<lambda>x. x\<lparr>p_state := PROCESS_STATE_RUNNING\<rparr>) (mlfq_enqueue p s)"
  shows "(k < 100 * 2 ^ l \<longrightarrow> mlfq_level (procs ((mlfq_tick p ^^ k) t) p) = int l
      \<and> 0 < time_slice_remaining (procs ((mlfq_tick p ^^ k) t) p))
    \<and> mlfq_level (procs ((mlfq_tick p ^^ (100 * 2 ^ l)) t) p) = int (min 4 (l + 1))
    \<and> time_slice_remaining (procs ((mlfq_tick p ^^ (100 * 2 ^ l)) t) p) = 0"
proof -
  have cl: "clamp_level (int l) = int l"
    using assms(2) by (simp add: clamp_level_range)
  have "time_quantum (levels s l) = 100 * 2 ^ l"
    using assms(2) by (simp add: assms(4) mlfq_init_def MLFQ_LEVELS_def MLFQ_BASE_QUANTUM_def push_bit_eq_mult)
  then have "p_state (procs t p) = PROCESS_STATE_RUNNING" "mlfq_level (procs t p) = int l"
    "time_slice_remaining (procs t p) = 100 * 2 ^ l"
    using assms(1,3,5) cl
    by (auto simp: mlfq_enqueue_def queue_append_def upd_proc_apply Let_def split: if_splits)
  moreover have "unat (100 * 2 ^ l :: u32) = 100 * 2 ^ l"
  proof -
    have "l \<in> {0, 1, 2, 3, 4}"
      using assms(2) by auto
    then show ?thesis by auto
  qed
  ultimately have t: "p_state (procs t p) = PROCESS_STATE_RUNNING" "mlfq_level (procs t p) = int l"
    "unat (time_slice_remaining (procs t p)) = 100 * 2 ^ l"
    by simp_all
  define n where "n = (100 * 2 ^ l :: nat)"
  have n: "0 < n"
    by (simp add: n_def)
  have r: "p_state (procs ((mlfq_tick p ^^ k) t) p) = PROCESS_STATE_RUNNING \<and>
      mlfq_level (procs ((mlfq_tick p ^^ k) t) p) = int l \<and>
      unat (time_slice_remaining (procs ((mlfq_tick p ^^ k) t) p)) = n - k" if "k < n" for k
    using mlfq_ticks_running [OF assms(1) t(1), of k] t(2,3) assms(2) that by (simp add: n_def)
  define u where "u = (mlfq_tick p ^^ (n - 1)) t"
  have "(mlfq_tick p ^^ n) t = mlfq_tick p u"
    using n by (cases n) (simp_all add: u_def)
  moreover have "p_state (procs u p) = PROCESS_STATE_RUNNING" "mlfq_level (procs u p) = int l"
    "time_slice_remaining (procs u p) \<le> 1"
    using r [of "n - 1"] n by (simp_all add: u_def word_le_nat_alt)
  ultimately have "mlfq_level (procs ((mlfq_tick p ^^ n) t) p) = int (min 4 (l + 1))"
    "time_slice_remaining (procs ((mlfq_tick p ^^ n) t) p) = 0"
    using mlfq_tick_last [OF assms(1), of u] assms(2) by simp_all
  then show ?thesis
    using r [of k] by (auto simp: n_def [symmetric] word_less_nat_alt)
qed

theorem mlfq_time_slices_witness:
  "\<exists>s t :: mlfq. t = upd 16 (\<lambda>x. x\<lparr>p_state := PROCESS_STATE_RUNNING\<rparr>) (mlfq_enqueue 16 s) \<and>
     mlfq_level (procs ((mlfq_tick 16 ^^ 200) t) 16) = 2"
proof -
  define s :: mlfq where "s = upd 16 (\<lambda>x. x\<lparr>mlfq_level := 1\<rparr>) (mlfq_init demo_mlfq)"
  have "mlfq_level (procs ((mlfq_tick 16 ^^ (100 * 2 ^ 1)) (upd 16 (\<lambda>x. x\<lparr>p_state := PROCESS_STATE_RUNNING\<rparr>) (mlfq_enqueue 16 s))) 16)
      = int (min 4 (1 + 1))"
    using mlfq_time_slices [of 16 1 s demo_mlfq _ 0] by (simp add: s_def upd_proc_apply)
  then show ?thesis
    by auto
qed

end
