(* ===== verification/Scheduler.thy ===== *)
theory Scheduler
  imports Mlfq
begin

text \<open>
  The scheduler, \<^verbatim>\<open>process/scheduler.c\<close>, and the timer interrupt that drives it, \<^verbatim>\<open>timer_handler\<close> of
  \<^verbatim>\<open>drivers/timer.c\<close>.  A call of \<open>scheduler_schedule\<close> is modelled up to the moment at which the next process
  is on the processor (\<open>on_cpu\<close>); \<open>None\<close> is a panic, the access to a process at address 0, or a loop
  that does not end.  \<open>pd_phys\<close> gives the physical address of a page directory.
\<close>

section \<open>State\<close>

definition SCHED_POLICY_RR :: int where "SCHED_POLICY_RR = 0"
definition SCHED_POLICY_MLFQ :: int where "SCHED_POLICY_MLFQ = 1"

record sched = mlfq +
  current :: addr
  idle_process :: addr
  ready_head :: addr
  ready_tail :: addr
  ready_count :: u32
  total_switches :: u64
  enabled :: bool
  current_policy :: int
  scheduler_locked :: int
  g_next_cr3 :: u32
  tss_esp0 :: u32
  on_cpu :: addr
  pd_phys :: "addr \<Rightarrow> u32"
  irqs :: bool

section \<open>Preemption control\<close>

definition preempt_disable :: "sched \<Rightarrow> sched" where
  "preempt_disable s =
     (let s = (if current s \<noteq> NULL then upd (current s) (\<lambda>x. x\<lparr>preempt_count := preempt_count x + 1\<rparr>) s else s)
      in s\<lparr>scheduler_locked := 1\<rparr>)"

definition preempt_enable :: "sched \<Rightarrow> sched" where
  "preempt_enable s =
     (let s = (if current s \<noteq> NULL \<and> preempt_count (procs s (current s)) > 0
               then upd (current s) (\<lambda>x. x\<lparr>preempt_count := preempt_count x - 1\<rparr>) s else s)
      in if current s = NULL \<or> preempt_count (procs s (current s)) = 0 then s\<lparr>scheduler_locked := 0\<rparr> else s)"

definition preemptible :: "sched \<Rightarrow> bool" where
  "preemptible s \<longleftrightarrow> current s = NULL \<or> preempt_count (procs s (current s)) = 0 \<and> scheduler_locked s = 0"

definition scheduler_disable :: "sched \<Rightarrow> sched" where "scheduler_disable s = preempt_disable s"

definition scheduler_enable_noschedule :: "sched \<Rightarrow> sched" where "scheduler_enable_noschedule s = preempt_enable s"

section \<open>The ready queue\<close>

definition process_set_state :: "addr \<Rightarrow> process_state \<Rightarrow> sched \<Rightarrow> sched" where
  "process_set_state p st s = (if p = NULL then s else upd p (\<lambda>x. x\<lparr>p_state := st\<rparr>) s)"

definition rr_append :: "addr \<Rightarrow> sched \<Rightarrow> sched" where
  "rr_append p s =
     (let s = upd p (\<lambda>x. x\<lparr>p_next := NULL, p_prev := NULL\<rparr>) s;
          s = (if ready_tail s \<noteq> NULL
               then (upd p (\<lambda>x. x\<lparr>p_prev := ready_tail s\<rparr>) (upd (ready_tail s) (\<lambda>x. x\<lparr>p_next := p\<rparr>) s))\<lparr>ready_tail := p\<rparr>
               else s\<lparr>ready_head := p, ready_tail := p\<rparr>)
      in s\<lparr>ready_count := ready_count s + 1\<rparr>)"

definition scheduler_add_process :: "addr \<Rightarrow> sched \<Rightarrow> sched" where
  "scheduler_add_process p s =
     (if p = NULL then s
      else let s = upd p (\<lambda>x. x\<lparr>p_state := PROCESS_STATE_READY\<rparr>) s in
        if current_policy s = SCHED_POLICY_MLFQ then mlfq_enqueue p (upd p (\<lambda>x. x\<lparr>mlfq_level := 0\<rparr>) s)
        else rr_append p s)"

definition scheduler_remove_process :: "addr \<Rightarrow> sched \<Rightarrow> sched" where
  "scheduler_remove_process p s =
     (if p = NULL then s
      else let (P, h, t) = queue_remove p (ready_head s, ready_tail s) (procs s);
               s = s\<lparr>procs := P, ready_head := h, ready_tail := t\<rparr>
           in if ready_count s > 0 then s\<lparr>ready_count := ready_count s - 1\<rparr> else s)"

definition scheduler_pick_next :: "sched \<Rightarrow> sched \<times> addr" where
  "scheduler_pick_next s =
     (if ready_head s = NULL then (s, idle_process s)
      else let nxt = ready_head s in (scheduler_remove_process nxt s, nxt))"

section \<open>Switching\<close>

text \<open>
  The Boolean tells whether the switch was made; it is refused while the scheduler is locked.  What
  \<^verbatim>\<open>context_switch_asm\<close> does with the registers is abstracted to \<open>on_cpu\<close>, the process whose registers the
  processor holds.
\<close>

definition context_switch :: "addr \<Rightarrow> addr \<Rightarrow> sched \<Rightarrow> (sched \<times> bool) option" where
  "context_switch prev nxt s =
     (if nxt = NULL then None
      else if scheduler_locked s \<noteq> 0 then Some (s, False)
      else let x = procs s nxt;
               next_cr3 = (if page_dir x \<noteq> NULL then pd_phys s (page_dir x) else 0);
               s = (if page_dir x \<noteq> NULL then s\<lparr>tss_esp0 := kernel_stack x + 4\<rparr> else s);
               s = s\<lparr>g_next_cr3 := next_cr3\<rparr>
           in if next_cr3 = 0 \<and> pid x \<noteq> 1 then None
              else Some (s\<lparr>on_cpu := nxt\<rparr>, True))"

text \<open>The process to run next, before the old one is put back into its queue.\<close>

definition choose_next :: "sched \<Rightarrow> (sched \<times> addr) option" where
  "choose_next s =
     (if current_policy s = SCHED_POLICY_MLFQ then
        Option.bind (mlfq_boost_all s) (\<lambda>s. map_option (\<lambda>p. (s, if p = NULL then idle_process s else p)) (mlfq_pick_next s))
      else case scheduler_pick_next s of (s, p) \<Rightarrow> Some (s, if p = NULL then idle_process s else p))"

definition put_back :: "addr \<Rightarrow> sched \<Rightarrow> sched" where
  "put_back prev s =
     (if p_state (procs s prev) = PROCESS_STATE_RUNNING then
        let s = upd prev (\<lambda>x. x\<lparr>time_used := 0\<rparr>) (process_set_state prev PROCESS_STATE_READY s) in
        if prev \<noteq> idle_process s then
          (if current_policy s = SCHED_POLICY_MLFQ then mlfq_enqueue prev s else scheduler_add_process prev s)
        else s
      else s)"

definition start_running :: "addr \<Rightarrow> sched \<Rightarrow> sched" where
  "start_running nxt s =
     (upd nxt (\<lambda>x. x\<lparr>time_used := 0\<rparr>) (process_set_state nxt PROCESS_STATE_RUNNING s))\<lparr>current := nxt\<rparr>"

definition scheduler_schedule :: "sched \<Rightarrow> sched option" where
  "scheduler_schedule s =
     (if \<not> enabled s then Some s
      else if \<not> preemptible s then Some s
      else do {
        let s = s\<lparr>irqs := False\<rparr>;
        let prev = current s;
        (s, nxt) \<leftarrow> choose_next s;
        if nxt = NULL then None
        else if prev = NULL then do {
          let s = start_running nxt s;
          (s, switched) \<leftarrow> context_switch NULL nxt (s\<lparr>total_switches := total_switches s + 1\<rparr>);
          if switched then Some s else None
        }
        else do {
          let s = put_back prev s;
          let s = (if current_policy s = SCHED_POLICY_MLFQ \<and> nxt \<noteq> idle_process s then mlfq_dequeue nxt s else s);
          let s = start_running nxt s;
          if prev \<noteq> nxt then map_option fst (context_switch prev nxt (s\<lparr>total_switches := total_switches s + 1\<rparr>))
          else Some s
        }
      })"

definition scheduler_enable :: "sched \<Rightarrow> sched option" where
  "scheduler_enable s = scheduler_schedule (s\<lparr>enabled := True, current := NULL\<rparr>)"

definition scheduler_yield :: "sched \<Rightarrow> sched option" where "scheduler_yield s = scheduler_schedule s"

definition scheduler_tick :: "sched \<Rightarrow> sched option" where
  "scheduler_tick s =
     (if \<not> enabled s \<or> current s = NULL then Some s
      else if \<not> preemptible s then Some s
      else let cur = current s in
        if current_policy s = SCHED_POLICY_MLFQ then
          let s = mlfq_tick cur s in
          if time_slice_remaining (procs s cur) = 0 then scheduler_schedule s else Some s
        else
          let s = upd cur (\<lambda>x. x\<lparr>time_used := time_used x + 1\<rparr>) s in
          if time_used (procs s cur) \<ge> time_slice (procs s cur) then scheduler_schedule s else Some s)"

definition scheduler_get_current :: "sched \<Rightarrow> addr" where "scheduler_get_current s = current s"

text \<open>The timer interrupt.\<close>

definition timer_handler :: "sched \<Rightarrow> sched option" where
  "timer_handler s = scheduler_tick (s\<lparr>ticks := ticks s + 1\<rparr>)"

primrec timer_run :: "nat \<Rightarrow> sched \<Rightarrow> sched option" where
  "timer_run 0 s = Some s"
| "timer_run (Suc n) s = Option.bind (timer_run n s) timer_handler"


section \<open>One scheduling decision\<close>

lemma sched_more:
  assumes "mlfq.more s' = mlfq.more (s :: sched)"
  shows "current s' = current s" "idle_process s' = idle_process s" "enabled s' = enabled s"
    "current_policy s' = current_policy s" "scheduler_locked s' = scheduler_locked s" "pd_phys s' = pd_phys s"
    "on_cpu s' = on_cpu s"
  using assms by (cases s; cases s'; simp)+

lemma mlfq_rep_eq: "levels s' = levels s \<Longrightarrow> procs s' = procs s \<Longrightarrow> mlfq_rep s' qs = mlfq_rep s qs"
  by (simp add: mlfq_rep_def)

lemma mlfq_rep_levels: "(\<And>i. i < 5 \<Longrightarrow> qs' i = qs i) \<Longrightarrow> mlfq_rep s qs' = mlfq_rep s qs"
  by (simp add: mlfq_rep_def)

text \<open>Queues and running process are apart, and every process that may be chosen has an address space.\<close>

definition switchable :: "sched \<Rightarrow> addr \<Rightarrow> bool" where
  "switchable s p \<longleftrightarrow> page_dir (procs s p) \<noteq> NULL \<and> pd_phys s (page_dir (procs s p)) \<noteq> 0 \<or> pid (procs s p) = 1"

definition requeues :: "sched \<Rightarrow> bool" where
  "requeues s \<longleftrightarrow> p_state (procs s (current s)) = PROCESS_STATE_RUNNING \<and> current s \<noteq> idle_process s"

definition sched_ok :: "sched \<Rightarrow> (nat \<Rightarrow> addr list) \<Rightarrow> bool" where
  "sched_ok s qs \<longleftrightarrow> enabled s \<and> current_policy s = SCHED_POLICY_MLFQ \<and> mlfq_rep s qs \<and>
     current s \<noteq> NULL \<and> current s \<notin> (\<Union>i<5. set (qs i)) \<and>
     idle_process s \<noteq> NULL \<and> idle_process s \<notin> (\<Union>i<5. set (qs i)) \<and>
     (\<forall>p \<in> insert (idle_process s) (\<Union>i<5. set (qs i)). switchable s p) \<and> (requeues s \<longrightarrow> switchable s (current s))"

definition due_boost :: "sched \<Rightarrow> (nat \<Rightarrow> addr list) \<Rightarrow> nat \<Rightarrow> addr list" where
  "due_boost s qs = (if ticks s - boost_time s < boost_interval s then qs else boosted qs)"

definition next_process :: "sched \<Rightarrow> (nat \<Rightarrow> addr list) \<Rightarrow> addr" where
  "next_process s qs =
     (case find (\<lambda>p. runnable (procs s p)) (concat (map (due_boost s qs) [0..<5])) of
        None \<Rightarrow> idle_process s | Some p \<Rightarrow> p)"

definition next_queues :: "sched \<Rightarrow> (nat \<Rightarrow> addr list) \<Rightarrow> nat \<Rightarrow> addr list" where
  "next_queues s qs i =
     remove1 (next_process s qs)
       (due_boost s qs i @ (if requeues s \<and> i = mlfq_target s (current s) then [current s] else []))"

lemma due_boost_set: "(\<Union>i<5. set (due_boost s qs i)) = (\<Union>i<5. set (qs i))"
proof -
  have "{..<5 :: nat} = {0, 1, 2, 3, 4}" by auto
  then show ?thesis by (auto simp: due_boost_def boosted_def)
qed

lemma choose_next_spec:
  assumes "sched_ok s qs"
  obtains s1 where "choose_next s = Some (s1, next_process s qs)" "mlfq_rep s1 (due_boost s qs)"
    "boost_frame s s1 (\<Union>i<5. set (qs i))"
proof -
  have rep: "mlfq_rep s qs"
    using assms by (simp add: sched_ok_def)
  obtain s1 where b: "mlfq_boost_all s = Some s1" and r: "mlfq_rep s1 (due_boost s qs)"
    and f: "boost_frame s s1 (\<Union>i<5. set (qs i))"
    unfolding due_boost_def by (rule mlfq_boost_all_rep [OF rep])
  note m = sched_more [of s1 s]
  have st: "runnable (procs s1 p) = runnable (procs s p)" "mlfq.more s1 = mlfq.more s" for p
    using f unscheduled_field(1) [of "procs s1 p" "procs s p"] by (simp_all add: boost_frame_def runnable_def)
  have nz: "p \<noteq> 0" if "find (\<lambda>p. runnable (procs s p)) (concat (map (due_boost s qs) [0..<5])) = Some p" for p
  proof -
    have "p \<in> set (concat (map (due_boost s qs) [0..<5]))"
      using that by (metis find_Some_iff nth_mem)
    then obtain i where "i < 5" "p \<in> set (due_boost s qs i)" by auto
    then show ?thesis using mlfqq.queued_once [OF r] by metis
  qed
  have "choose_next s = Some (s1, next_process s qs)"
    using assms b mlfq_pick_next_find [OF r] nz m(2) st
    by (auto simp: choose_next_def sched_ok_def next_process_def or_null_def split: option.splits)
  then show thesis
    using r f by (rule that)
qed


lemma put_back_spec:
  assumes "mlfq_rep s qs" "c \<noteq> NULL" "c \<notin> (\<Union>i<5. set (qs i))" "current_policy s = SCHED_POLICY_MLFQ"
  shows "mlfq_rep (put_back c s) (\<lambda>i. qs i @ (if p_state (procs s c) = PROCESS_STATE_RUNNING \<and> c \<noteq> idle_process s \<and> i = mlfq_target s c
      then [c] else []))"
    "p_state (procs (put_back c s) x) = (if x = c \<and> p_state (procs s c) = PROCESS_STATE_RUNNING then PROCESS_STATE_READY
       else p_state (procs s x))"
    "x \<noteq> c \<Longrightarrow> unscheduled (procs (put_back c s) x) = unscheduled (procs s x)"
    "page_dir (procs (put_back c s) x) = page_dir (procs s x)" "pid (procs (put_back c s) x) = pid (procs s x)"
    "mlfq.more (put_back c s) = mlfq.more s"
proof -
  define s1 where "s1 = upd c (\<lambda>x. x\<lparr>time_used := 0\<rparr>) (process_set_state c PROCESS_STATE_READY s)"
  have s1: "mlfq_rep s1 qs" "mlfq_target s1 c = mlfq_target s c" "mlfq.more s1 = mlfq.more s"
    "procs s1 x = (if x = c then (procs s x)\<lparr>p_state := PROCESS_STATE_READY, time_used := 0\<rparr> else procs s x)" for x
    using assms(1-3)
    by (simp_all add: s1_def process_set_state_def mlfq_rep_upd_other mlfq_target_def upd_proc_apply)
  have e: "put_back c s = (if p_state (procs s c) = PROCESS_STATE_RUNNING then if c \<noteq> idle_process s then mlfq_enqueue c s1 else s1 else s)"
    using assms(4) sched_more(2,4) [OF s1(3)] by (simp add: put_back_def s1_def)
  have q: "mlfq_rep (mlfq_enqueue c s1) (\<lambda>i. qs i @ (if i = mlfq_target s c then [c] else []))"
  proof -
    have "qs(mlfq_target s1 c := qs (mlfq_target s1 c) @ [c]) = (\<lambda>i. qs i @ (if i = mlfq_target s c then [c] else []))"
      by (auto simp: fun_eq_iff s1(2))
    then show ?thesis
      using mlfq_enqueue_rep [OF s1(1) assms(2,3)] by (simp only:)
  qed
  show "mlfq_rep (put_back c s) (\<lambda>i. qs i @ (if p_state (procs s c) = PROCESS_STATE_RUNNING \<and> c \<noteq> idle_process s \<and> i = mlfq_target s c
      then [c] else []))"
    using q s1(1) assms(1) by (simp add: e)
  have u: "unscheduled (procs (mlfq_enqueue c s1) x) = unscheduled (procs s1 x)" for x
    by (rule enqueue_fields)
  note f = unscheduled_field [OF u]
  show "p_state (procs (put_back c s) x) = (if x = c \<and> p_state (procs s c) = PROCESS_STATE_RUNNING then PROCESS_STATE_READY
       else p_state (procs s x))"
    "x \<noteq> c \<Longrightarrow> unscheduled (procs (put_back c s) x) = unscheduled (procs s x)"
    "page_dir (procs (put_back c s) x) = page_dir (procs s x)" "pid (procs (put_back c s) x) = pid (procs s x)"
    by (simp_all add: e f u s1(4))
  show "mlfq.more (put_back c s) = mlfq.more s"
    by (simp add: e enqueue_fields s1(3))
qed

lemma start_running_spec:
  assumes "n \<noteq> NULL"
  shows "mlfq_rep (start_running n s) qs = mlfq_rep s qs"
    "p_state (procs (start_running n s) x) = (if x = n then PROCESS_STATE_RUNNING else p_state (procs s x))"
    "page_dir (procs (start_running n s) x) = page_dir (procs s x)" "pid (procs (start_running n s) x) = pid (procs s x)"
    "current (start_running n s) = n" "on_cpu (start_running n s) = on_cpu s" "pd_phys (start_running n s) = pd_phys s"
    "scheduler_locked (start_running n s) = scheduler_locked s" "enabled (start_running n s) = enabled s"
    "current_policy (start_running n s) = current_policy s" "idle_process (start_running n s) = idle_process s"
proof -
  show "mlfq_rep (start_running n s) qs = mlfq_rep s qs"
    using assms by (intro mlfq_rep_cong) (simp_all add: start_running_def process_set_state_def upd_proc_apply)
qed (use assms in \<open>simp_all add: start_running_def process_set_state_def upd_proc_apply upd_def\<close>)


lemma context_switch_spec:
  assumes "n \<noteq> NULL" "scheduler_locked s = 0" "switchable s n"
  obtains s' where "context_switch prev n s = Some (s', True)" "procs s' = procs s" "levels s' = levels s"
    "current s' = current s" "on_cpu s' = n" "enabled s' = enabled s" "current_policy s' = current_policy s"
    "idle_process s' = idle_process s" "pd_phys s' = pd_phys s"
  using assms
  by (intro that [of "fst (the (context_switch prev n s))"]) (auto simp: context_switch_def switchable_def Let_def)

lemma next_process_cases:
  assumes "sched_ok s qs"
  shows "next_process s qs = idle_process s \<or> (\<exists>i<5. next_process s qs \<in> set (due_boost s qs i))"
    "next_process s qs \<noteq> NULL" "switchable s (next_process s qs)"
proof -
  show c: "next_process s qs = idle_process s \<or> (\<exists>i<5. next_process s qs \<in> set (due_boost s qs i))"
  proof (cases "find (\<lambda>p. runnable (procs s p)) (concat (map (due_boost s qs) [0..<5]))")
    case (Some p)
    then have "p \<in> set (concat (map (due_boost s qs) [0..<5]))"
      by (metis find_Some_iff nth_mem)
    with Some show ?thesis by (auto simp: next_process_def)
  qed (simp add: next_process_def)
  then have m: "next_process s qs \<in> insert (idle_process s) (\<Union>i<5. set (qs i))"
    using due_boost_set [of s qs] by auto
  have ok: "mlfq_rep s qs" "idle_process s \<noteq> 0" "\<forall>p \<in> insert (idle_process s) (\<Union>i<5. set (qs i)). switchable s p"
    using assms unfolding sched_ok_def by simp_all
  have "x \<noteq> 0" if "x \<in> (\<Union>i<5. set (qs i))" for x
    using mlfqq.queued_once [OF ok(1)] that by force
  then show "next_process s qs \<noteq> NULL"
    using m ok(2) by (elim insertE) simp_all
  show "switchable s (next_process s qs)"
    using ok(3) m by (rule bspec)
qed

lemma dequeue_next:
  assumes "sched_ok s qs" "mlfq_rep s2 (\<lambda>i. due_boost s qs i @ (if requeues s \<and> i = mlfq_target s (current s) then [current s] else []))"
  shows "mlfq_rep (if next_process s qs \<noteq> idle_process s then mlfq_dequeue (next_process s qs) s2 else s2) (next_queues s qs)"
proof -
  let ?q = "\<lambda>i. due_boost s qs i @ (if requeues s \<and> i = mlfq_target s (current s) then [current s] else [])"
  let ?n = "next_process s qs"
  have d: "idle_process s \<notin> set (?q i)" if "i < 5" for i
    using assms(1) due_boost_set [of s qs] that by (auto simp: sched_ok_def requeues_def)
  show ?thesis
  proof (cases "?n = idle_process s")
    case True
    have "next_queues s qs i = ?q i" if "i < 5" for i
      unfolding next_queues_def True using d [OF that] by (rule remove1_idem)
    then show ?thesis
      using True assms(2) mlfq_rep_levels [of "next_queues s qs" ?q s2] by simp
  next
    case False
    then obtain j where j: "j < 5" "?n \<in> set (?q j)"
      using next_process_cases(1) [OF assms(1)] by auto
    have "next_queues s qs i = (?q(j := remove1 ?n (?q j))) i" if "i < 5" for i
    proof (cases "i = j")
      case False
      then have "?n \<notin> set (?q i)"
        using mlfqq.queued_disjoint [OF assms(2) that j(1)] j(2) by blast
      with False show ?thesis
        unfolding next_queues_def fun_upd_apply by (simp only: if_False) (rule remove1_idem)
    qed (simp add: next_queues_def)
    then have "mlfq_rep (mlfq_dequeue ?n s2) (next_queues s qs) = mlfq_rep (mlfq_dequeue ?n s2) (?q(j := remove1 ?n (?q j)))"
      by (rule mlfq_rep_levels)
    then have "mlfq_rep (mlfq_dequeue ?n s2) (next_queues s qs)"
      using mlfq_dequeue_rep(1) [OF assms(2) j] by (simp only:)
    with False show ?thesis by simp
  qed
qed

text \<open>The fields that a decision does not change.\<close>

definition sched_frame :: "sched \<Rightarrow> sched \<Rightarrow> bool" where
  "sched_frame s s' \<longleftrightarrow> enabled s' = enabled s \<and> current_policy s' = current_policy s \<and> idle_process s' = idle_process s \<and>
     pd_phys s' = pd_phys s \<and> (\<forall>p. page_dir (procs s' p) = page_dir (procs s p) \<and> pid (procs s' p) = pid (procs s p))"

lemma scheduler_schedule_spec:
  assumes "sched_ok s qs" "preemptible s"
  obtains s' where "scheduler_schedule s = Some s'" "current s' = next_process s qs" "mlfq_rep s' (next_queues s qs)"
    "on_cpu s' = (if next_process s qs = current s then on_cpu s else next_process s qs)"
    "\<And>p. p_state (procs s' p) = (if p = next_process s qs then PROCESS_STATE_RUNNING
       else if p = current s \<and> p_state (procs s p) = PROCESS_STATE_RUNNING then PROCESS_STATE_READY else p_state (procs s p))"
    "sched_frame s s'"
proof -
  define n where "n = next_process s qs"
  define c where "c = current s"
  let ?s = "s\<lparr>irqs := False\<rparr>"
  have n': "next_process ?s qs = n" "due_boost ?s qs = due_boost s qs"
    by (simp_all add: next_process_def due_boost_def n_def cong: option.case_cong)
  have ok': "sched_ok ?s qs"
    using assms(1) by (simp add: sched_ok_def switchable_def mlfq_rep_def requeues_def)
  obtain s1 where s1: "choose_next ?s = Some (s1, n)" "mlfq_rep s1 (due_boost s qs)" "boost_frame ?s s1 (\<Union>i<5. set (qs i))"
    using choose_next_spec [OF ok'] unfolding n' by blast
  have c: "c \<noteq> 0" "c \<notin> (\<Union>i<5. set (due_boost s qs i))" "c \<notin> (\<Union>i<5. set (qs i))"
    using assms(1) due_boost_set [of s qs] by (simp_all add: sched_ok_def c_def)
  have m1: "mlfq.more s1 = mlfq.more ?s" "unscheduled (procs s1 x) = unscheduled (procs s x)" "mlfq_target s1 c = mlfq_target s c" for x
    using s1(3) c(3) by (auto simp: boost_frame_def mlfq_target_def)
  note f1 = unscheduled_field [OF m1(2)] and g1 = sched_more [OF m1(1)]
  have pol: "current_policy s1 = SCHED_POLICY_MLFQ"
    using assms(1) g1 by (simp add: sched_ok_def)
  define s2 where "s2 = put_back c s1"
  note pb = put_back_spec [OF s1(2) c(1,2) pol, folded s2_def]
  note g2 = sched_more [OF pb(6)]
  have r2: "mlfq_rep s2 (\<lambda>i. due_boost s qs i @ (if requeues s \<and> i = mlfq_target s (current s) then [current s] else []))"
    using pb(1) unfolding c_def [symmetric] requeues_def by (simp add: g1 f1 m1(3) conj_assoc c_def [symmetric])
  define s3 where "s3 = (if n \<noteq> idle_process s then mlfq_dequeue n s2 else s2)"
  have r3: "mlfq_rep s3 (next_queues s qs)"
    unfolding s3_def n_def by (rule dequeue_next [OF assms(1) r2])
  have m3: "mlfq.more s3 = mlfq.more s2" "unscheduled (procs s3 x) = unscheduled (procs s2 x)" for x
    by (simp_all add: s3_def dequeue_fields)
  note f3 = unscheduled_field [OF m3(2)] and g3 = sched_more [OF m3(1)]
  define s4 where "s4 = start_running n s3"
  have nz: "n \<noteq> 0" "switchable s n"
    using next_process_cases [OF assms(1)] by (simp_all add: n_def)
  note sr = start_running_spec [OF nz(1), of s3, folded s4_def]
  have st: "p_state (procs s4 p) = (if p = n then PROCESS_STATE_RUNNING
       else if p = c \<and> p_state (procs s p) = PROCESS_STATE_RUNNING then PROCESS_STATE_READY else p_state (procs s p))" for p
    by (auto simp: sr(2) f3(1) pb(2) f1(1))
  have sw: "switchable (s4\<lparr>total_switches := k\<rparr>) n" for k
    using nz(2) by (simp add: switchable_def sr(3,4,7) f3 g3 pb(4,5) g2 f1 g1)
  have lk: "scheduler_locked s4 = 0"
    using assms(2) c(1) by (simp add: sr(8) g3 g2 g1 preemptible_def c_def)
  have sch: "scheduler_schedule s =
      (if c \<noteq> n then map_option fst (context_switch c n (s4\<lparr>total_switches := total_switches s4 + 1\<rparr>)) else Some s4)"
    using assms s1(1) nz(1) c(1) pol g1 g2
    by (simp add: scheduler_schedule_def sched_ok_def c_def [symmetric] s2_def [symmetric] s3_def [symmetric] s4_def [symmetric])
  have on: "on_cpu s4 = on_cpu s" and fr: "sched_frame s s4"
    by (simp_all add: sched_frame_def sr f3 g3 pb(4,5) g2 f1 g1)
  show thesis
  proof (cases "c = n")
    case True
    then show thesis
      using sch r3 st on fr by (intro that [of s4]) (simp_all add: sr n_def c_def)
  next
    case False
    obtain s' where s': "context_switch c n (s4\<lparr>total_switches := total_switches s4 + 1\<rparr>) = Some (s', True)" "procs s' = procs s4"
      "levels s' = levels s4" "current s' = n" "on_cpu s' = n" "sched_frame s4 s'"
      by (rule context_switch_spec [OF nz(1) _ sw, of "total_switches s4 + 1" c]) (use lk sr(5) in \<open>simp_all add: sched_frame_def\<close>)
    have "sched_frame s s'"
      using fr s'(6) by (simp add: sched_frame_def)
    then show thesis
      using False sch r3 st s' mlfq_rep_eq [OF s'(3,2)] by (intro that [of s']) (simp_all add: sr n_def c_def)
  qed
qed


lemma next_queues_mem:
  assumes "sched_ok s qs" "i < 5" "p \<in> set (next_queues s qs i)"
  shows "p \<noteq> next_process s qs" "p \<in> (\<Union>i<5. set (qs i)) \<or> p = current s \<and> requeues s"
proof -
  let ?q = "due_boost s qs i @ (if requeues s \<and> i = mlfq_target s (current s) then [current s] else [])"
  obtain s1 :: sched where "mlfq_rep s1 (due_boost s qs)"
    by (rule choose_next_spec [OF assms(1)]) blast
  then have "distinct (due_boost s qs i)"
    using mlfqq.queued_once assms(2) by blast
  moreover have d: "set (due_boost s qs i) \<subseteq> (\<Union>i<5. set (qs i))"
    using due_boost_set [of s qs] assms(2) by blast
  moreover have "current s \<notin> (\<Union>i<5. set (qs i))"
    using assms(1) by (simp add: sched_ok_def)
  ultimately have "distinct ?q"
    by auto
  then have q: "set (next_queues s qs i) = set ?q - {next_process s qs}"
    unfolding next_queues_def by (rule set_remove1_eq)
  show "p \<noteq> next_process s qs"
    using assms(3) q by blast
  have "p \<in> set ?q"
    using assms(3) q by blast
  then show "p \<in> (\<Union>i<5. set (qs i)) \<or> p = current s \<and> requeues s"
    using d by (auto split: if_splits)
qed

lemma next_queues_sets:
  assumes "sched_ok s qs"
  shows "(\<Union>i<5. set (next_queues s qs i)) \<subseteq> insert (current s) (\<Union>i<5. set (qs i))"
    "next_process s qs \<notin> (\<Union>i<5. set (next_queues s qs i))" "idle_process s \<notin> (\<Union>i<5. set (next_queues s qs i))"
proof -
  show "(\<Union>i<5. set (next_queues s qs i)) \<subseteq> insert (current s) (\<Union>i<5. set (qs i))"
    "next_process s qs \<notin> (\<Union>i<5. set (next_queues s qs i))"
    using next_queues_mem [OF assms] by blast+
  show "idle_process s \<notin> (\<Union>i<5. set (next_queues s qs i))"
  proof
    assume "idle_process s \<in> (\<Union>i<5. set (next_queues s qs i))"
    then obtain i where "i < 5" "idle_process s \<in> set (next_queues s qs i)" by auto
    then have "idle_process s \<in> (\<Union>i<5. set (qs i)) \<or> idle_process s = current s \<and> requeues s"
      by (rule next_queues_mem(2) [OF assms])
    then show False
      using assms by (auto simp: sched_ok_def requeues_def)
  qed
qed

lemma sched_ok_step:
  assumes "sched_ok s qs" "current s' = next_process s qs" "mlfq_rep s' (next_queues s qs)" "sched_frame s s'"
  shows "sched_ok s' (next_queues s qs)"
proof -
  note f = assms(4) [unfolded sched_frame_def]
  have sw: "switchable s' p = switchable s p" for p
    using f by (simp add: switchable_def)
  have ok: "\<forall>p \<in> insert (idle_process s) (\<Union>i<5. set (qs i)). switchable s p" "requeues s \<longrightarrow> switchable s (current s)"
    using assms(1) by (simp_all add: sched_ok_def)
  have "switchable s p" if "i < 5" "p \<in> set (next_queues s qs i)" for p i
    using next_queues_mem(2) [OF assms(1) that] ok by blast
  then have "\<forall>p \<in> insert (idle_process s) (\<Union>i<5. set (next_queues s qs i)). switchable s p"
    using ok(1) by blast
  then show ?thesis
    using assms next_queues_sets [OF assms(1)] next_process_cases(2,3) [OF assms(1)]
    unfolding sched_ok_def [of s'] sw by (simp add: f sched_ok_def)
qed

text \<open>The processes that a state can still bring onto the processor.\<close>

definition active :: "sched \<Rightarrow> (nat \<Rightarrow> addr list) \<Rightarrow> addr set" where
  "active s qs = {current s, idle_process s} \<union> (\<Union>i<5. set (qs i))"

lemma active_schedule:
  assumes "sched_ok s qs"
  obtains s' qs' where "scheduler_schedule s = Some s'" "sched_ok s' qs'" "active s' qs' \<subseteq> active s qs"
proof (cases "preemptible s")
  case True
  obtain s' where s': "scheduler_schedule s = Some s'" "current s' = next_process s qs" "mlfq_rep s' (next_queues s qs)"
    "sched_frame s s'"
    by (rule scheduler_schedule_spec [OF assms True]) (rule that)
  moreover have "active s' (next_queues s qs) \<subseteq> active s qs"
    using next_queues_sets(1) [OF assms] next_process_cases(1) [OF assms] due_boost_set [of s qs] s'(2,4)
    unfolding active_def sched_frame_def by auto
  ultimately show thesis
    using that sched_ok_step [OF assms s'(2-4)] by blast
next
  case False
  then have "scheduler_schedule s = Some s"
    using assms by (simp add: scheduler_schedule_def sched_ok_def)
  then show thesis
    using that assms by blast
qed

lemma sched_ok_same:
  assumes "sched_ok s qs" "levels s' = levels s" "mlfq.more s' = mlfq.more s" "\<And>p. p \<noteq> current s \<Longrightarrow> p_next (procs s' p) = p_next (procs s p)
      \<and> p_prev (procs s' p) = p_prev (procs s p) \<and> mlfq_level (procs s' p) = mlfq_level (procs s p)"
    "\<And>p. page_dir (procs s' p) = page_dir (procs s p) \<and> pid (procs s' p) = pid (procs s p)"
    "p_state (procs s' (current s)) = p_state (procs s (current s))"
  shows "sched_ok s' qs"
proof -
  note g = sched_more [OF assms(3)]
  have sw: "switchable s' p = switchable s p" for p
    using assms(5) g by (simp add: switchable_def)
  have "p \<noteq> current s" if "i < 5" "p \<in> set (qs i)" for i p
    using assms(1) that by (auto simp: sched_ok_def)
  then have "mlfq_rep s' qs = mlfq_rep s qs"
    by (intro mlfq_rep_cong assms(2)) (rule assms(4))
  then show ?thesis
    using assms(1,6) unfolding sched_ok_def [of s'] requeues_def sw g by (simp add: sched_ok_def requeues_def)
qed

lemma mlfq_tick_unscheduled: "unscheduled (procs (mlfq_tick p s) x) = unscheduled (procs s x)"
proof -
  have u: "unscheduled (upd_proc p f P x) = unscheduled (P x)" if "\<And>y. unscheduled (f y) = unscheduled y" for f P
    using that by (simp add: upd_proc_apply)
  define s1 where "s1 = upd p (\<lambda>x. x\<lparr>time_used := time_used x + 1\<rparr>) s"
  define s2 where "s2 = (if time_slice_remaining (procs s1 p) > 0
      then upd p (\<lambda>x. x\<lparr>time_slice_remaining := time_slice_remaining x - 1\<rparr>) s1 else s1)"
  have s2: "unscheduled (procs s2 x) = unscheduled (procs s x)"
    unfolding s2_def s1_def by (cases "time_slice_remaining (procs s1 p) > 0") (simp_all add: u s1_def)
  then show ?thesis
    unfolding mlfq_tick_def s1_def [symmetric] s2_def [symmetric] Let_def by (simp add: u)
qed

lemma active_tick:
  assumes "sched_ok s qs"
  obtains s' qs' where "timer_handler s = Some s'" "sched_ok s' qs'" "active s' qs' \<subseteq> active s qs"
proof -
  let ?s = "s\<lparr>ticks := ticks s + 1\<rparr>"
  have ok: "sched_ok ?s qs" "active ?s qs = active s qs"
    by (rule sched_ok_same [OF assms]) (simp_all add: active_def)
  define t where "t = mlfq_tick (current s) ?s"
  note fr = mlfq_tick_frame [where p = "current s" and s = ?s, folded t_def]
  have u: "unscheduled (procs t p) = unscheduled (procs s p)" for p
    by (simp add: t_def mlfq_tick_unscheduled)
  have t: "sched_ok t qs"
    by (rule sched_ok_same [OF ok(1) fr(6,7)]) (simp_all add: fr(1,4) unscheduled_field [OF u])
  have a: "active t qs = active s qs"
    using sched_more(1,2) [OF fr(7)] by (simp add: active_def)
  show thesis
  proof (cases "preemptible ?s \<and> time_slice_remaining (procs t (current s)) = 0")
    case True
    then have "timer_handler s = scheduler_schedule t"
      using assms by (simp add: timer_handler_def scheduler_tick_def t_def sched_ok_def)
    then show thesis
      using active_schedule [OF t] that unfolding a by metis
  next
    case False
    then have "timer_handler s = Some ?s \<or> timer_handler s = Some t"
      using assms by (auto simp: timer_handler_def scheduler_tick_def t_def sched_ok_def)
    then show thesis
      using that ok t a by blast
  qed
qed

text \<open>
  \<^bold>\<open>C7.\<close> A scheduling decision.  While the running process is in no queue, \<open>scheduler_schedule\<close> succeeds:
  after the boost, if it is due, the processor goes to the first runnable process of the lowest level,
  or to the idle process if there is none; that process is taken out of its queue and is running; the
  process that had the processor, if it was still running, is ready and goes to the tail of its level; no
  other process changes its state, and the running process is again in no queue.
\<close>

theorem scheduler_schedule_refines:
  assumes "sched_ok s qs" "preemptible s"
  shows "\<exists>s'. scheduler_schedule s = Some s' \<and> sched_ok s' (next_queues s qs) \<and> current s' = next_process s qs
    \<and> (on_cpu s = current s \<longrightarrow> on_cpu s' = current s')
    \<and> (\<forall>p. p_state (procs s' p) = (if p = next_process s qs then PROCESS_STATE_RUNNING
         else if p = current s \<and> p_state (procs s p) = PROCESS_STATE_RUNNING then PROCESS_STATE_READY
         else p_state (procs s p)))"
proof -
  obtain s' where s': "scheduler_schedule s = Some s'" "current s' = next_process s qs" "mlfq_rep s' (next_queues s qs)"
    "on_cpu s' = (if next_process s qs = current s then on_cpu s else next_process s qs)"
    "\<And>p. p_state (procs s' p) = (if p = next_process s qs then PROCESS_STATE_RUNNING
       else if p = current s \<and> p_state (procs s p) = PROCESS_STATE_RUNNING then PROCESS_STATE_READY else p_state (procs s p))"
    "sched_frame s s'"
    by (rule scheduler_schedule_spec [OF assms]) (rule that)
  show ?thesis
    using s' sched_ok_step [OF assms(1) s'(2,3,6)] by (intro exI [of _ s']) simp
qed

text \<open>Process 48 runs, 16 and 32 wait at levels 0 and 3, and 64 is the idle process.\<close>

definition demo_sched :: sched where
  "demo_sched = mlfq.extend
     (demo_mlfq\<lparr>procs := (procs demo_mlfq)
        (48 := zero_process\<lparr>pid := 4, page_dir := 4096, p_state := PROCESS_STATE_RUNNING, mlfq_level := 1\<rparr>,
         64 := zero_process\<lparr>pid := 1\<rparr>,
         16 := (procs demo_mlfq 16)\<lparr>pid := 2, page_dir := 8192\<rparr>,
         32 := (procs demo_mlfq 32)\<lparr>pid := 3, page_dir := 12288\<rparr>)\<rparr>)
     (sched.fields 48 64 NULL NULL 0 0 True SCHED_POLICY_MLFQ 0 0 0 48 (\<lambda>d. d) False)"

lemma demo_sched_ok: "sched_ok demo_sched demo_qs" "preemptible demo_sched"
proof -
  have l: "levels demo_sched = levels demo_mlfq"
    by (simp add: demo_sched_def mlfq.defs)
  have p: "procs demo_sched p = (if p = 16 then (procs demo_mlfq 16)\<lparr>pid := 2, page_dir := 8192\<rparr>
      else if p = 32 then (procs demo_mlfq 32)\<lparr>pid := 3, page_dir := 12288\<rparr>
      else if p = 48 then zero_process\<lparr>pid := 4, page_dir := 4096, p_state := PROCESS_STATE_RUNNING, mlfq_level := 1\<rparr>
      else if p = 64 then zero_process\<lparr>pid := 1\<rparr> else procs demo_mlfq p)" for p
    by (simp add: demo_sched_def mlfq.defs)
  have q: "set (demo_qs i) \<subseteq> {16, 32}" for i
    by (auto simp: demo_qs_def)
  have x: "x = 16 \<or> x = 32" if "x \<in> set (demo_qs i)" for x i
    using q [of i] that by blast
  have lk: "p_next (procs demo_sched x) = p_next (procs demo_mlfq x) \<and> p_prev (procs demo_sched x) = p_prev (procs demo_mlfq x)"
    "mlfq_level (procs demo_sched x) = mlfq_level (procs demo_mlfq x)" if "x \<in> set (demo_qs i)" for x i
    using x [OF that] by (elim disjE; simp add: p)+
  have "queue_rep (procs demo_sched) r (demo_qs i) = queue_rep (procs demo_mlfq) r (demo_qs i)" for r i
    by (rule queue_rep_cong) (rule lk)
  then have rep: "mlfq_rep demo_sched demo_qs"
    using demo_mlfq_rep lk(2) by (simp add: mlfq_rep_def l)
  have f: "enabled demo_sched" "current_policy demo_sched = SCHED_POLICY_MLFQ" "current demo_sched = 48" "idle_process demo_sched = 64"
    "pd_phys demo_sched = (\<lambda>d. d)" "scheduler_locked demo_sched = 0"
    by (simp_all add: demo_sched_def mlfq.defs sched.defs)
  have u: "(\<Union>i<5. set (demo_qs i)) \<subseteq> {16, 32}"
    using q by blast
  then have "switchable demo_sched p" if "p \<in> {48, 64} \<union> (\<Union>i<5. set (demo_qs i))" for p
    using that by (auto simp: switchable_def f p)
  moreover have "48 \<notin> (\<Union>i<5. set (demo_qs i))" "64 \<notin> (\<Union>i<5. set (demo_qs i))"
    using u by auto
  ultimately show "sched_ok demo_sched demo_qs"
    using rep by (simp add: sched_ok_def f)
  show "preemptible demo_sched"
    by (simp add: preemptible_def f p) (simp add: zero_process_def)
qed

theorem scheduler_schedule_refines_witness:
  "\<exists>s'. scheduler_schedule demo_sched = Some s' \<and> p_state (procs s' 48) = PROCESS_STATE_READY \<and> current s' \<noteq> 48"
proof -
  obtain s' where s': "scheduler_schedule demo_sched = Some s'" "sched_ok s' (next_queues demo_sched demo_qs)"
    "\<forall>p. p_state (procs s' p) = (if p = next_process demo_sched demo_qs then PROCESS_STATE_RUNNING
         else if p = current demo_sched \<and> p_state (procs demo_sched p) = PROCESS_STATE_RUNNING then PROCESS_STATE_READY
         else p_state (procs demo_sched p))" "current s' = next_process demo_sched demo_qs"
    using scheduler_schedule_refines [OF demo_sched_ok] by blast
  have "next_process demo_sched demo_qs \<noteq> 48"
    using next_process_cases(1) [OF demo_sched_ok(1)]
    by (auto simp: due_boost_def demo_qs_def boosted_def demo_sched_def mlfq.defs sched.defs split: if_splits)
  moreover have "current demo_sched = 48" "p_state (procs demo_sched 48) = PROCESS_STATE_RUNNING"
    by (simp_all add: demo_sched_def mlfq.defs sched.defs)
  ultimately show ?thesis
    using s' by (intro exI [of _ s']) simp
qed


section \<open>The first process\<close>

text \<open>
  The first call of \<open>scheduler_schedule\<close> starts a process without taking it out of its queue.  \<open>captive s a\<close>: the
  process \<open>a\<close> runs and is still the head of level 0.
\<close>

definition captive :: "sched \<Rightarrow> addr \<Rightarrow> bool" where
  "captive s a \<longleftrightarrow> enabled s \<and> current_policy s = SCHED_POLICY_MLFQ \<and> current s = a \<and> on_cpu s = a \<and> scheduler_locked s = 0 \<and>
     a \<noteq> NULL \<and> a \<noteq> idle_process s \<and> p_state (procs s a) = PROCESS_STATE_RUNNING \<and> preempt_count (procs s a) = 0 \<and>
     0 \<le> mlfq_level (procs s a) \<and> mlfq_level (procs s a) < 5 \<and>
     q_head (levels s 0) = a \<and> 0 < q_count (levels s 0) \<and>
     (\<forall>i\<in>{1..4}. q_head (levels s i) = NULL \<and> q_tail (levels s i) = NULL \<and> q_count (levels s i) = 0)"

lemma boost_nothing:
  assumes "\<forall>i\<in>{1..4}. q_count (levels s i) = 0"
  shows "\<exists>b k. mlfq_boost_all s = Some (s\<lparr>boost_time := b, mlfq_boosts := k\<rparr>)"
proof (cases "ticks s - boost_time s < boost_interval s")
  case True
  then have "mlfq_boost_all s = Some (s\<lparr>boost_time := boost_time s, mlfq_boosts := mlfq_boosts s\<rparr>)"
    by (simp add: mlfq_boost_all_def)
  then show ?thesis by blast
next
  case False
  have e: "boost_level i t = Some t" if "i \<in> {1..4}" "levels t = levels s" for i and t :: "'a mlfq_scheme"
    using assms that by (subst boost_level.simps) simp
  have "boost_levels 4 t = Some t" if "levels t = levels s" for t :: "'a mlfq_scheme"
    using e [OF _ that] by (simp add: numeral_eq_Suc)
  with False show ?thesis
    by (auto simp: mlfq_boost_all_def MLFQ_LEVELS_def)
qed

lemma requeue_empty_level:
  assumes "a \<noteq> NULL" "mlfq_level (procs s a) = int l" "l \<in> {1..4}" "queue_of s l = (NULL, NULL)" "q_count (levels s l) = 0"
  shows "levels (mlfq_dequeue a (mlfq_enqueue a s)) = levels s"
    "p_next (procs (mlfq_dequeue a (mlfq_enqueue a s)) a) = NULL"
proof -
  have c: "clamp_level (int l) = int l" "l < 5"
    using assms(3) by (simp_all add: clamp_level_range)
  define e where "e = mlfq_enqueue a s"
  have e: "levels e = (levels s)(l := (levels s l)\<lparr>q_head := a, q_tail := a, q_count := 1\<rparr>)"
    "p_next (procs e a) = 0" "p_prev (procs e a) = 0" "mlfq_level (procs e a) = int l"
    using assms c unfolding e_def
    by (simp_all add: mlfq_enqueue_def queue_append_def upd_proc_apply Let_def)
  have "mlfq_dequeue a e = (let s = set_queue l (NULL, NULL) 0 (e\<lparr>procs := upd_proc a (\<lambda>x. x\<lparr>p_next := NULL, p_prev := NULL\<rparr>) (procs e)\<rparr>)
      in if mlfq_total s > 0 then s\<lparr>mlfq_total := mlfq_total s - 1\<rparr> else s)"
    using assms(1) c(2) e by (simp add: mlfq_dequeue_def queue_remove_def MLFQ_LEVELS_def)
  then have d: "levels (mlfq_dequeue a e) = (levels e)(l := (levels e l)\<lparr>q_head := 0, q_tail := 0, q_count := 0\<rparr>)"
    "procs (mlfq_dequeue a e) = upd_proc a (\<lambda>x. x\<lparr>p_next := NULL, p_prev := NULL\<rparr>) (procs e)"
    by (simp_all add: Let_def)
  have "(levels s l)\<lparr>q_head := 0, q_tail := 0, q_count := 0\<rparr> = levels s l"
    using assms(4,5) by (cases "levels s l") simp
  then show "levels (mlfq_dequeue a (mlfq_enqueue a s)) = levels s"
    unfolding e_def [symmetric] d(1) e(1) by (simp add: fun_eq_iff)
  show "p_next (procs (mlfq_dequeue a (mlfq_enqueue a s)) a) = NULL"
    unfolding e_def [symmetric] d(2) by (simp add: upd_proc_apply)
qed

lemma captive_schedule:
  assumes "captive s a" "1 \<le> mlfq_level (procs s a)"
  shows "\<exists>s'. scheduler_schedule s = Some s' \<and> captive s' a \<and> p_next (procs s' a) = NULL"
proof -
  define l where "l = nat (mlfq_level (procs s a))"
  note c = assms(1) [unfolded captive_def]
  have l: "mlfq_level (procs s a) = int l" "l \<in> {1..4}"
    using assms(2) c by (auto simp: l_def)
  let ?s = "s\<lparr>irqs := False\<rparr>"
  obtain b k where b: "mlfq_boost_all ?s = Some (?s\<lparr>boost_time := b, mlfq_boosts := k\<rparr>)"
    using boost_nothing [of ?s] c by auto
  define s1 where "s1 = ?s\<lparr>boost_time := b, mlfq_boosts := k\<rparr>"
  have s1: "procs s1 = procs s" "levels s1 = levels s" "idle_process s1 = idle_process s" "current_policy s1 = SCHED_POLICY_MLFQ"
    "enabled s1" "on_cpu s1 = a" "scheduler_locked s1 = 0"
    using c by (simp_all add: s1_def)
  have "nat MLFQ_LEVELS = Suc 4"
    by (simp add: MLFQ_LEVELS_def)
  moreover have "pick_queue (procs s) a = Some a"
    using c by (subst pick_queue.simps) (simp add: runnable_def)
  then have "pick_levels (Suc 4) 0 s1 = Some a"
    using c s1(1,2) by (subst pick_levels.simps) simp
  ultimately have "mlfq_pick_next s1 = Some a"
    by (simp only: mlfq_pick_next_def)
  then have ch: "choose_next ?s = Some (s1, a)"
    using b c by (simp add: choose_next_def s1_def)
  define s2 where "s2 = upd a (\<lambda>x. x\<lparr>time_used := 0\<rparr>) (process_set_state a PROCESS_STATE_READY s1)"
  have s2: "levels s2 = levels s" "mlfq_level (procs s2 a) = int l" "preempt_count (procs s2 a) = 0" "mlfq.more s2 = mlfq.more s1"
    using c l(1) s1 by (simp_all add: s2_def process_set_state_def upd_proc_apply)
  have pb: "put_back a s1 = mlfq_enqueue a s2"
    using c s1 by (simp add: put_back_def s2_def process_set_state_def upd_def)
  define s3 where "s3 = mlfq_dequeue a (mlfq_enqueue a s2)"
  have ne: "a \<noteq> 0" and em: "queue_of s2 l = (0, 0)" "q_count (levels s2 l) = 0"
    using c l(2) s2(1) by simp_all
  have s3: "levels s3 = levels s" "p_next (procs s3 a) = 0"
    using requeue_empty_level [OF ne s2(2) l(2) em] s2(1) by (simp_all add: s3_def)
  have u: "unscheduled (procs s3 a) = unscheduled (procs s2 a)"
    by (simp add: s3_def enqueue_fields dequeue_fields)
  have lv: "mlfq_level (procs s3 a) = int l"
    using s2(2) c l by (simp add: s3_def dequeue_fields mlfq_enqueue_def queue_append_def upd_proc_apply Let_def clamp_level_range)
  have "mlfq.more s3 = mlfq.more s1"
    by (simp add: s3_def enqueue_fields dequeue_fields s2(4))
  note g = sched_more [OF this]
  define s4 where "s4 = start_running a s3"
  have "preemptible s"
    using c by (simp add: preemptible_def)
  then have "scheduler_schedule s = Some s4"
    using c ch pb g s1 sched_more(2,4) [OF s2(4)] sched_more(2,4) [OF enqueue_fields(3), of a s2]
    by (simp add: scheduler_schedule_def s4_def s3_def)
  moreover have "captive s4 a" "p_next (procs s4 a) = 0"
    using c g s1 s3 lv l(2) unscheduled_field(5) [OF u] s2(3) unfolding s4_def
    by (simp_all add: captive_def start_running_def process_set_state_def upd_proc_apply upd_def)
  ultimately show ?thesis by blast
qed


lemma captive_tick:
  assumes "captive s a"
  obtains s' where "timer_handler s = Some s'" "captive s' a" "p_next (procs s a) = NULL \<Longrightarrow> p_next (procs s' a) = NULL"
    "time_slice_remaining (procs s a) \<le> 1 \<Longrightarrow> p_next (procs s' a) = NULL"
    "1 < time_slice_remaining (procs s a) \<Longrightarrow> time_slice_remaining (procs s' a) = time_slice_remaining (procs s a) - 1"
proof -
  note c = assms [unfolded captive_def]
  let ?s = "s\<lparr>ticks := ticks s + 1\<rparr>"
  define t where "t = mlfq_tick a ?s"
  note fr = mlfq_tick_frame [where p = a and s = ?s, folded t_def]
  note g = sched_more [OF fr(7)]
  have h: "timer_handler s = (if time_slice_remaining (procs t a) = 0 then scheduler_schedule t else Some t)"
    using c by (simp add: timer_handler_def scheduler_tick_def preemptible_def t_def Let_def)
  have run: "p_state (procs ?s a) = PROCESS_STATE_RUNNING" "a \<noteq> 0" "0 \<le> mlfq_level (procs ?s a)" "mlfq_level (procs ?s a) < 5"
    using c by simp_all
  show thesis
  proof (cases "1 < time_slice_remaining (procs s a)")
    case True
    then have t: "procs t = upd_proc a (\<lambda>x. x\<lparr>time_used := time_used x + 1, time_slice_remaining := time_slice_remaining x - 1\<rparr>) (procs s)"
      using mlfq_tick_running [OF run(2,1)] by (simp add: t_def)
    have "captive t a"
      using c g by (simp add: captive_def fr(6) t upd_proc_apply)
    moreover have "time_slice_remaining (procs s a) - 1 \<noteq> 0"
      using True by auto
    then have "timer_handler s = Some t"
      by (simp add: h t upd_proc_apply)
    ultimately show thesis
      using True by (intro that [of t]) (simp_all add: t upd_proc_apply)
  next
    case False
    then have "time_slice_remaining (procs ?s a) \<le> 1"
      by simp
    note l = mlfq_tick_last [OF run(2,1) this run(3,4), folded t_def]
    have "captive t a" "1 \<le> mlfq_level (procs t a)"
      using c g l(1) by (simp_all add: captive_def fr(4,5,6))
    from captive_schedule [OF this] obtain s' where "scheduler_schedule t = Some s'" "captive s' a" "p_next (procs s' a) = 0"
      by blast
    with False show thesis
      using l(2) h by (intro that [of s']) simp_all
  qed
qed

lemma captive_run:
  assumes "captive s a"
  shows "\<exists>t. timer_run n s = Some t \<and> captive t a \<and>
    (if n < max 1 (unat (time_slice_remaining (procs s a)))
     then unat (time_slice_remaining (procs t a)) = unat (time_slice_remaining (procs s a)) - n
     else p_next (procs t a) = NULL)"
proof (induction n)
  case 0
  with assms show ?case by auto
next
  case (Suc n)
  define r where "r = unat (time_slice_remaining (procs s a))"
  obtain t where t: "timer_run n s = Some t" "captive t a"
    "if n < max 1 r then unat (time_slice_remaining (procs t a)) = r - n else p_next (procs t a) = NULL"
    using Suc by (auto simp: r_def)
  obtain s' where s': "timer_handler t = Some s'" "captive s' a" "p_next (procs t a) = NULL \<Longrightarrow> p_next (procs s' a) = NULL"
    "time_slice_remaining (procs t a) \<le> 1 \<Longrightarrow> p_next (procs s' a) = NULL"
    "1 < time_slice_remaining (procs t a) \<Longrightarrow> time_slice_remaining (procs s' a) = time_slice_remaining (procs t a) - 1"
    by (rule captive_tick [OF t(2)]) (rule that)
  have "if Suc n < max 1 r then unat (time_slice_remaining (procs s' a)) = r - Suc n else p_next (procs s' a) = NULL"
  proof (cases "Suc n < max 1 r")
    case True
    then have rt: "unat (time_slice_remaining (procs t a)) = r - n" "1 < time_slice_remaining (procs t a)"
      using t(3) by (auto simp: word_less_nat_alt split: if_splits)
    have "unat (time_slice_remaining (procs t a) - 1) = r - Suc n"
      using rt unat_diff_le [of 1 "time_slice_remaining (procs t a)"] by (simp add: word_less_nat_alt word_le_nat_alt)
    with True show ?thesis
      using s'(5) [OF rt(2)] by (simp add: less_max_iff_disj)
  next
    case False
    then have "p_next (procs t a) = NULL \<or> time_slice_remaining (procs t a) \<le> 1"
      using t(3) by (auto simp: word_le_nat_alt split: if_splits)
    with False show ?thesis
      using s'(3,4) by auto
  qed
  then show ?case
    using t(1) s'(1,2) by (simp add: r_def)
qed

lemma captive_enable:
  assumes "mlfq_rep s qs" "qs 0 = a # rest" "\<forall>i\<in>{1..4}. qs i = []" "runnable (procs s a)" "preempt_count (procs s a) = 0"
    "current_policy s = SCHED_POLICY_MLFQ" "scheduler_locked s = 0" "a \<noteq> idle_process s" "switchable s a"
  obtains s' where "scheduler_enable s = Some s'" "captive s' a" "time_slice_remaining (procs s' a) = time_slice_remaining (procs s a)"
proof -
  have r: "queue_rep (procs s) (queue_of s i) (qs i)" "q_count (levels s i) = of_nat (length (qs i))"
    "\<forall>p\<in>set (qs i). mlfq_level (procs s p) = int i" if "i < 5" for i
    using assms(1) that by (auto simp: mlfq_rep_def)
  have z: "a \<noteq> 0" "q_head (levels s 0) = a" "mlfq_level (procs s a) = 0" "0 < q_count (levels s 0)"
    using r [of 0] q_count_pos [OF r(1), of 0] assms(2) by (simp_all add: queue_rep_def)
  have e: "q_head (levels s i) = 0 \<and> q_tail (levels s i) = 0 \<and> q_count (levels s i) = 0" if "i \<in> {1..4}" for i
    using r [of i] assms(3) that by simp
  let ?s = "s\<lparr>enabled := True, current := NULL, irqs := False\<rparr>"
  obtain b k where b: "mlfq_boost_all ?s = Some (?s\<lparr>boost_time := b, mlfq_boosts := k\<rparr>)"
    using boost_nothing [of ?s] e by auto
  define s1 where "s1 = ?s\<lparr>boost_time := b, mlfq_boosts := k\<rparr>"
  have "mlfq_rep s1 qs"
    using assms(1) by (simp add: mlfq_rep_def s1_def)
  moreover have "find (\<lambda>x. runnable (procs s1 x)) (concat (map qs [0..<5])) = Some a"
    using assms(2,4) by (simp add: upt_conv_Cons s1_def)
  ultimately have "mlfq_pick_next s1 = Some a"
    by (simp add: mlfq_pick_next_find or_null_def)
  then have ch: "choose_next ?s = Some (s1, a)"
    using b assms(6) z(1) by (simp add: choose_next_def s1_def)
  define s2 where "s2 = start_running a s1"
  have s2: "switchable (s2\<lparr>total_switches := total_switches s2 + 1\<rparr>) a" "scheduler_locked s2 = 0"
    using assms(7,9) start_running_spec(3,4,7,8) [OF z(1), of s1] by (simp_all add: switchable_def s2_def s1_def)
  obtain s' where s': "context_switch NULL a (s2\<lparr>total_switches := total_switches s2 + 1\<rparr>) = Some (s', True)" "procs s' = procs s2"
    "levels s' = levels s2" "current s' = current s2" "on_cpu s' = a" "enabled s' = enabled s2" "current_policy s' = current_policy s2"
    "idle_process s' = idle_process s2" "scheduler_locked s' = scheduler_locked s2"
    using s2 z(1) by (auto simp: context_switch_def switchable_def Let_def)
  have "scheduler_enable s = Some s'"
    using ch z(1) s'(1) by (simp add: scheduler_enable_def scheduler_schedule_def preemptible_def s2_def)
  moreover have "captive s' a" "time_slice_remaining (procs s' a) = time_slice_remaining (procs s a)"
    using s' z e assms(5-8) unfolding s2_def s1_def
    by (simp_all add: captive_def start_running_def process_set_state_def upd_proc_apply upd_def)
  ultimately show thesis
    by (rule that)
qed


lemma captive_lost:
  assumes "captive s a" "p_next (procs s a) = NULL"
  shows "mlfq_pick_next (upd a (\<lambda>x. x\<lparr>p_state := PROCESS_STATE_TERMINATED\<rparr>) s) = Some NULL"
proof -
  let ?s = "upd a (\<lambda>x. x\<lparr>p_state := PROCESS_STATE_TERMINATED\<rparr>) s"
  note c = assms(1) [unfolded captive_def]
  have "pick_queue (procs ?s) a = Some 0"
    using assms(2) c by (simp add: pick_queue.simps [of _ a] pick_queue.simps [of _ 0] runnable_def upd_proc_apply)
  moreover have "pick_levels 4 1 ?s = Some 0"
    using c by (simp add: numeral_eq_Suc)
  ultimately have "pick_levels (Suc 4) 0 ?s = Some 0"
    using c by (subst pick_levels.simps) simp
  moreover have "nat MLFQ_LEVELS = Suc 4"
    by (simp add: MLFQ_LEVELS_def)
  ultimately show ?thesis
    by (simp only: mlfq_pick_next_def)
qed

lemma scheduler_add_process_rep:
  assumes "mlfq_rep s qs" "p \<noteq> NULL" "p \<notin> (\<Union>i<5. set (qs i))" "current_policy s = SCHED_POLICY_MLFQ"
  shows "mlfq_rep (scheduler_add_process p s) (qs(0 := qs 0 @ [p]))"
    "current_policy (scheduler_add_process p s) = SCHED_POLICY_MLFQ"
proof -
  let ?s = "upd p (\<lambda>x. x\<lparr>mlfq_level := 0\<rparr>) (upd p (\<lambda>x. x\<lparr>p_state := PROCESS_STATE_READY\<rparr>) s)"
  have e: "scheduler_add_process p s = mlfq_enqueue p ?s"
    using assms(2,4) by (simp add: scheduler_add_process_def upd_def)
  have r: "mlfq_rep ?s qs"
    using assms(1,3) by (simp add: mlfq_rep_upd_other)
  have t: "mlfq_target ?s p = 0"
    by (simp add: mlfq_target_def upd_proc_apply clamp_level_range)
  show "mlfq_rep (scheduler_add_process p s) (qs(0 := qs 0 @ [p]))"
    using mlfq_enqueue_rep [OF r assms(2,3)] unfolding t e .
  show "current_policy (scheduler_add_process p s) = SCHED_POLICY_MLFQ"
    using assms(4) sched_more(4) [OF enqueue_fields(3), of p ?s] by (simp add: e upd_def)
qed

text \<open>
  \<^bold>\<open>C31.\<close> The first process keeps the processor.  If level 0 holds several processes when \<open>scheduler_enable\<close> is
  called and the other levels are empty, then after any number of timer interrupts the first of them
  is still running, also at the end of each of its time slices; and once its first slice is over, no
  process of level 0 would be found even if it ended, since its link to them is gone.
\<close>

theorem first_process_keeps_processor:
  assumes "mlfq_rep s qs" "qs 0 = a # rest" "\<forall>i\<in>{1..4}. qs i = []" "runnable (procs s a)" "preempt_count (procs s a) = 0"
    "current_policy s = SCHED_POLICY_MLFQ" "scheduler_locked s = 0" "a \<noteq> idle_process s" "switchable s a"
  shows "\<exists>s' t. scheduler_enable s = Some s' \<and> timer_run n s' = Some t \<and> current t = a \<and> on_cpu t = a \<and>
    (max 1 (unat (time_slice_remaining (procs s a))) \<le> n \<longrightarrow>
       mlfq_pick_next (upd a (\<lambda>x. x\<lparr>p_state := PROCESS_STATE_TERMINATED\<rparr>) t) = Some NULL)"
proof -
  obtain s' where s': "scheduler_enable s = Some s'" "captive s' a" "time_slice_remaining (procs s' a) = time_slice_remaining (procs s a)"
    by (rule captive_enable [OF assms]) (rule that)
  obtain t where t: "timer_run n s' = Some t" "captive t a" "\<not> n < max 1 (unat (time_slice_remaining (procs s a))) \<Longrightarrow> p_next (procs t a) = NULL"
    using captive_run [OF s'(2), of n] s'(3) by (auto split: if_splits)
  show ?thesis
    using s'(1) t captive_lost [OF t(2)] by (intro exI [of _ s'] exI [of _ t]) (simp add: captive_def not_less)
qed

definition demo_boot :: sched where
  "demo_boot = scheduler_add_process 32 (scheduler_add_process 16 (mlfq_init
     (demo_sched\<lparr>procs := \<lambda>p. zero_process\<lparr>page_dir := 4096, pid := 2\<rparr>, current := NULL, enabled := False\<rparr>)))"

theorem first_process_keeps_processor_witness:
  "\<exists>s' t. scheduler_enable demo_boot = Some s' \<and> timer_run 5000 s' = Some t \<and> current t = 16 \<and>
     mlfq_pick_next (upd 16 (\<lambda>x. x\<lparr>p_state := PROCESS_STATE_TERMINATED\<rparr>) t) = Some NULL"
proof -
  let ?q = "\<lambda>_::nat. [] :: addr list"
  define s0 where "s0 = mlfq_init (demo_sched\<lparr>procs := \<lambda>p. zero_process\<lparr>page_dir := 4096, pid := 2\<rparr>, current := NULL, enabled := False\<rparr>)"
  have r0: "mlfq_rep s0 ?q" "current_policy s0 = SCHED_POLICY_MLFQ" "16 \<notin> (\<Union>i<5. set (?q i))"
    by (simp_all add: s0_def mlfq_init_rep) (simp add: mlfq_init_def demo_sched_def mlfq.defs sched.defs)
  note r1 = scheduler_add_process_rep [OF r0(1) _ r0(3,2)]
  have "32 \<notin> (\<Union>i<5. set ((?q(0 := ?q 0 @ [16])) i))"
    by (auto split: if_splits)
  note r2 = scheduler_add_process_rep [OF r1(1) _ this r1(2)]
  have q: "(?q(0 := ?q 0 @ [16]))(0 := (?q(0 := ?q 0 @ [16])) 0 @ [32]) = ?q(0 := [16, 32])"
    by (simp add: fun_eq_iff)
  have "16 \<noteq> (NULL :: addr)" "32 \<noteq> (NULL :: addr)" by simp_all
  then have rep: "mlfq_rep demo_boot (?q(0 := [16, 32]))"
    using r2(1) unfolding q demo_boot_def s0_def by blast
  define e1 where "e1 = scheduler_add_process 16 s0"
  have p0: "procs s0 x = zero_process\<lparr>page_dir := 4096, pid := 2\<rparr>" "pd_phys s0 = (\<lambda>d. d)" "scheduler_locked s0 = 0" "idle_process s0 = 64"
    "time_quantum (levels s0 0) = 100" "queue_of s0 0 = (0, 0)" for x
    by (simp_all add: s0_def mlfq_init_def demo_sched_def mlfq.defs sched.defs MLFQ_LEVELS_def MLFQ_BASE_QUANTUM_def)
  have add: "scheduler_add_process q s = mlfq_enqueue q (upd q (\<lambda>x. x\<lparr>mlfq_level := 0\<rparr>) (upd q (\<lambda>x. x\<lparr>p_state := PROCESS_STATE_READY\<rparr>) s))"
    if "q \<noteq> 0" "current_policy s = SCHED_POLICY_MLFQ" for q s
    using that by (simp add: scheduler_add_process_def upd_def)
  have e1: "e1 = mlfq_enqueue 16 (upd 16 (\<lambda>x. x\<lparr>mlfq_level := 0\<rparr>) (upd 16 (\<lambda>x. x\<lparr>p_state := PROCESS_STATE_READY\<rparr>) s0))"
    by (simp add: e1_def add r0(2))
  have b: "demo_boot = mlfq_enqueue 32 (upd 32 (\<lambda>x. x\<lparr>mlfq_level := 0\<rparr>) (upd 32 (\<lambda>x. x\<lparr>p_state := PROCESS_STATE_READY\<rparr>) e1))"
    using r1(2) by (simp add: demo_boot_def s0_def [symmetric] e1_def [symmetric] add)
  have m: "mlfq.more demo_boot = mlfq.more s0"
    by (simp add: b e1 enqueue_fields)
  have u: "unscheduled (procs demo_boot 16) = unscheduled ((procs s0 16)\<lparr>p_state := PROCESS_STATE_READY\<rparr>)"
    by (simp add: b e1 enqueue_fields upd_proc_apply)
  note f = unscheduled_field [OF u] and g = sched_more [OF m]
  have ts: "time_slice_remaining (procs demo_boot 16) = 100"
    using p0(5,6) by (simp add: b e1 mlfq_enqueue_def queue_append_def upd_proc_apply Let_def clamp_level_range)
  show ?thesis
    using first_process_keeps_processor [OF rep, of 16 "[32]" 5000] r0(2)
    by (auto simp: runnable_def f g p0 ts switchable_def zero_process_def)
qed

end
