(* ===== verification/Process.thy ===== *)
theory Process
  imports Scheduler Vma Boot
begin

text \<open>
  Process management, \<^verbatim>\<open>process/process.c\<close>, \<^verbatim>\<open>syscall/sys_process.c\<close> and \<^verbatim>\<open>syscall/errno.c\<close>: the list of processes, kernel
  threads, exit and wait.  A system call that gives the processor away is modelled up to that moment
  and has the outcome \<open>Switched\<close>; \<open>None\<close> is a panic, a fault or a loop that does not end.
\<close>

abbreviation (input) ESRCH :: int where "ESRCH \<equiv> 3"
abbreviation (input) EINTR :: int where "EINTR \<equiv> 4"
abbreviation (input) ECHILD :: int where "ECHILD \<equiv> 10"

section \<open>State\<close>

record kernel =
  sc :: sched
  mm :: mm_state
  next_pid :: u32
  process_count :: u32
  process_list_head :: addr
  process_list_tail :: addr

abbreviation proc :: "kernel \<Rightarrow> addr \<Rightarrow> process" where
  "proc k p \<equiv> procs (sc k) p"

abbreviation curr :: "kernel \<Rightarrow> addr" where
  "curr k \<equiv> sched.current (sc k)"

definition upd_p :: "addr \<Rightarrow> (process \<Rightarrow> process) \<Rightarrow> kernel \<Rightarrow> kernel" where
  "upd_p p f k = k\<lparr>sc := upd p f (sc k)\<rparr>"

definition lift_mm :: "'a mop \<Rightarrow> kernel \<Rightarrow> (kernel \<times> 'a) option" where
  "lift_mm f k = map_option (\<lambda>(m, x). (k\<lparr>mm := m\<rparr>, x)) (f (mm k))"

definition with_sched :: "(sched \<Rightarrow> sched option) \<Rightarrow> kernel \<Rightarrow> kernel option" where
  "with_sched f k = map_option (\<lambda>s. k\<lparr>sc := s\<rparr>) (f (sc k))"

datatype outcome = Returns int | Switched

section \<open>The list of processes\<close>

definition process_init :: "kernel \<Rightarrow> kernel" where
  "process_init k = k\<lparr>next_pid := 1, process_count := 0, process_list_head := NULL, process_list_tail := NULL\<rparr>"

definition add_process_to_list :: "addr \<Rightarrow> kernel \<Rightarrow> kernel" where
  "add_process_to_list p k =
     (if p = NULL then k
      else let k = upd_p p (\<lambda>x. x\<lparr>p_next := NULL, p_prev := NULL\<rparr>) k;
               k = (if process_list_head k = NULL then k\<lparr>process_list_head := p, process_list_tail := p\<rparr>
                    else (upd_p p (\<lambda>x. x\<lparr>p_prev := process_list_tail k\<rparr>)
                            (upd_p (process_list_tail k) (\<lambda>x. x\<lparr>p_next := p\<rparr>) k))\<lparr>process_list_tail := p\<rparr>)
           in k\<lparr>process_count := process_count k + 1\<rparr>)"

definition remove_process_from_list :: "addr \<Rightarrow> kernel \<Rightarrow> kernel" where
  "remove_process_from_list p k =
     (if p = NULL then k
      else let (P, h, t) = queue_remove p (process_list_head k, process_list_tail k) (procs (sc k))
           in k\<lparr>sc := (sc k)\<lparr>procs := P\<rparr>, process_list_head := h, process_list_tail := t, process_count := process_count k - 1\<rparr>)"

definition process_allocate_pid :: "kernel \<Rightarrow> kernel \<times> u32" where
  "process_allocate_pid k = (k\<lparr>next_pid := next_pid k + 1\<rparr>, next_pid k)"

partial_function (option) find_pid :: "pstore \<Rightarrow> u32 \<Rightarrow> addr \<Rightarrow> addr option" where
  "find_pid P n p = (if p = NULL then Some NULL else if pid (P p) = n then Some p else find_pid P n (p_next (P p)))"

definition process_find_by_pid :: "u32 \<Rightarrow> kernel \<Rightarrow> addr option" where
  "process_find_by_pid n k = find_pid (procs (sc k)) n (process_list_head k)"

section \<open>Creation and destruction\<close>

definition sizeof_process :: u32 where "sizeof_process = 520"

definition init_process_signals :: "addr \<Rightarrow> kernel \<Rightarrow> kernel" where
  "init_process_signals p k =
     (if p = NULL then k
      else upd_p p (\<lambda>x. x\<lparr>pending_signals := 0, blocked_signals := 0, signal_handlers := replicate 32 0, signal_flags := replicate 32 0\<rparr>) k)"

text \<open>The magic number at the bottom of a kernel stack.\<close>

definition mark_stack :: "u32 \<Rightarrow> vst \<Rightarrow> vst" where
  "mark_stack a v = v\<lparr>kh := (kh v)\<lparr>payload := (payload (kh v))(a := 0xEF, a + 1 := 0xBE, a + 2 := 0xAD, a + 3 := 0xDE)\<rparr>\<rparr>"

definition fill_pcb :: "addr \<Rightarrow> u8 list \<Rightarrow> u32 \<Rightarrow> kernel \<Rightarrow> kernel" where
  "fill_pcb p nm prio k =
     (let (k, n) = process_allocate_pid k;
          k = upd_p p (\<lambda>_. zero_process\<lparr>pid := n, p_name := take 31 nm, p_state := PROCESS_STATE_NEW, p_priority := prio,
                     time_slice := 10, time_slice_remaining := 10, start_time := ticks (sc k), p_errno := 0\<rparr>) k;
          k = init_process_signals p k
      in upd_p p (\<lambda>x. x\<lparr>mlfq_level := 0, kernel_stack_size := 4096\<rparr>) k)"

text \<open>\<open>thread_entry\<close> is the address of \<^verbatim>\<open>kernel_thread_entry\<close>.\<close>

definition start_thread :: "addr \<Rightarrow> addr \<Rightarrow> addr \<Rightarrow> u32 \<Rightarrow> kernel \<Rightarrow> kernel" where
  "start_thread thread_entry entry p stack k =
     (let k = k\<lparr>mm := (mm k)\<lparr>vs := mark_stack stack (vs (mm k))\<rparr>\<rparr>;
          k = upd_p p (\<lambda>x. x\<lparr>p_context := zero_context\<lparr>c_esp := stack + 4096 - 64, c_eip := thread_entry,
                       c_eflags := 0x202, c_cs := 0x08, c_ss := 0x10, c_user_esp := 0, c_ebx := entry\<rparr>,
                       page_dir := NULL, p_next := process_list_head k\<rparr>) k;
          k = (if process_list_head k \<noteq> NULL then upd_p (process_list_head k) (\<lambda>x. x\<lparr>p_prev := p\<rparr>) k else k);
          k = k\<lparr>process_list_head := p, process_count := process_count k + 1\<rparr>
      in k\<lparr>sc := scheduler_add_process p (process_set_state p PROCESS_STATE_READY (sc k))\<rparr>)"

definition process_create_kernel_thread :: "addr \<Rightarrow> u8 list \<Rightarrow> addr \<Rightarrow> u32 \<Rightarrow> kernel \<Rightarrow> (kernel \<times> addr) option" where
  "process_create_kernel_thread thread_entry nm entry prio k =
     (if entry = NULL then Some (k, NULL)
      else do {
        (k, p) \<leftarrow> lift_mm (lift_v (kalloc sizeof_process)) k;
        if p = NULL then Some (k, NULL)
        else do {
          let k = fill_pcb p nm prio k;
          (k, stack) \<leftarrow> lift_mm (lift_v (kalloc 4096)) k;
          let k = upd_p p (\<lambda>x. x\<lparr>kernel_stack := stack\<rparr>) k;
          if stack = NULL then map_option (\<lambda>(k, _). (k, NULL)) (lift_mm (lift_v (krelease p)) k)
          else Some (start_thread thread_entry entry p stack k, p)
        }
      })"

text \<open>The release of the areas and of the page directory, as \<^verbatim>\<open>process_destroy\<close> and \<^verbatim>\<open>sys_exit\<close> do it.\<close>

definition release_areas :: "addr \<Rightarrow> kernel \<Rightarrow> kernel option" where
  "release_areas p k =
     (if p_vmas (proc k p) \<noteq> NULL then
        map_option (\<lambda>m. upd_p p (\<lambda>x. x\<lparr>p_vmas := NULL\<rparr>) (k\<lparr>mm := m\<rparr>)) (vma_destroy_all (p_vmas (proc k p)) (mm k))
      else Some k)"

definition release_directory :: "addr \<Rightarrow> kernel \<Rightarrow> kernel option" where
  "release_directory p k =
     (if page_dir (proc k p) \<noteq> NULL then
        map_option (\<lambda>h. upd_p p (\<lambda>x. x\<lparr>page_dir := NULL\<rparr>) (k\<lparr>mm := (mm k)\<lparr>vs := (vs (mm k))\<lparr>kh := h\<rparr>\<rparr>\<rparr>))
          (vmm_destroy_page_directory (PD_HEAP (page_dir (proc k p))) (pds (mm k)) (kh (vs (mm k))))
      else Some k)"

definition process_destroy :: "addr \<Rightarrow> kernel \<Rightarrow> kernel option" where
  "process_destroy p k =
     (if p = NULL then Some k
      else do {
        let k = (if p_prev (proc k p) \<noteq> NULL then upd_p (p_prev (proc k p)) (\<lambda>x. x\<lparr>p_next := p_next (proc k p)\<rparr>) k
                 else k\<lparr>process_list_head := p_next (proc k p)\<rparr>);
        let k = (if p_next (proc k p) \<noteq> NULL then upd_p (p_next (proc k p)) (\<lambda>x. x\<lparr>p_prev := p_prev (proc k p)\<rparr>) k else k);
        k \<leftarrow> (if kernel_stack (proc k p) \<noteq> 0 then map_option fst (lift_mm (lift_v (krelease (kernel_stack (proc k p)))) k) else Some k);
        k \<leftarrow> release_areas p k;
        k \<leftarrow> release_directory p k;
        k \<leftarrow> map_option fst (lift_mm (lift_v (krelease p)) k);
        Some (k\<lparr>process_count := process_count k - 1\<rparr>)
      })"

text \<open>Giving the processor away for good: if \<^verbatim>\<open>scheduler_schedule\<close> returns, the caller panics.\<close>

definition leave :: "kernel \<Rightarrow> kernel option" where
  "leave k = do {
     s \<leftarrow> scheduler_schedule (sc k);
     if on_cpu s = curr k then None else Some (k\<lparr>sc := s\<rparr>)
   }"

definition process_exit :: "u32 \<Rightarrow> kernel \<Rightarrow> kernel option" where
  "process_exit code k =
     (let c = curr k in
      if c = NULL then None
      else let k = upd_p c (\<lambda>x. x\<lparr>exit_code := code, p_state := PROCESS_STATE_TERMINATED\<rparr>) k
           in leave (k\<lparr>sc := scheduler_remove_process c (sc k)\<rparr>))"

text \<open>
  \<^verbatim>\<open>scheduler_init\<close>: the scheduler's own state is cleared, and the idle process is created and taken out of
  the ready queue.  \<open>idle_thread\<close> is the address of that function.
\<close>

definition scheduler_init :: "addr \<Rightarrow> addr \<Rightarrow> u8 list \<Rightarrow> kernel \<Rightarrow> kernel option" where
  "scheduler_init thread_entry idle_thread nm k = do {
     let k = k\<lparr>sc := (sc k)\<lparr>sched.current := NULL, idle_process := NULL, ready_head := NULL, ready_tail := NULL,
                ready_count := 0, total_switches := 0, enabled := False\<rparr>\<rparr>;
     (k, p) \<leftarrow> process_create_kernel_thread thread_entry nm idle_thread 0 k;
     if p = NULL then None
     else Some (k\<lparr>sc := scheduler_remove_process p ((sc k)\<lparr>idle_process := p\<rparr>)\<rparr>)
   }"

section \<open>System calls\<close>

definition set_errno_of :: "int \<Rightarrow> kernel \<Rightarrow> kernel \<times> int" where
  "set_errno_of e k = (if curr k \<noteq> NULL then upd_p (curr k) (\<lambda>x. x\<lparr>p_errno := e\<rparr>) k else k, - 1)"

definition sys_getpid :: "kernel \<Rightarrow> u32" where
  "sys_getpid k = (if curr k = NULL then - 1 else pid (proc k (curr k)))"

definition sys_getppid :: "kernel \<Rightarrow> u32" where
  "sys_getppid k =
     (if curr k = NULL \<or> p_parent (proc k (curr k)) = NULL then - 1 else pid (proc k (p_parent (proc k (curr k)))))"

partial_function (option) orphan_children :: "addr \<Rightarrow> addr \<Rightarrow> kernel \<Rightarrow> kernel option" where
  "orphan_children c p k =
     (if p = NULL then Some k
      else orphan_children c (p_next (proc k p))
             (if p_parent (proc k p) = c then upd_p p (\<lambda>x. x\<lparr>p_parent := NULL\<rparr>) k else k))"

definition wake_parent :: "addr \<Rightarrow> kernel \<Rightarrow> kernel" where
  "wake_parent c k =
     (let par = p_parent (proc k c) in
      if par \<noteq> NULL \<and> p_state (proc k par) = PROCESS_STATE_BLOCKED
      then upd_p par (\<lambda>x. x\<lparr>p_state := PROCESS_STATE_READY\<rparr>) k else k)"

definition sys_exit :: "int \<Rightarrow> kernel \<Rightarrow> kernel option" where
  "sys_exit status k =
     (let c = curr k in
      if c = NULL then None
      else do {
        let k = upd_p c (\<lambda>x. x\<lparr>exit_code := word_of_int status, p_state := PROCESS_STATE_TERMINATED\<rparr>) k;
        k \<leftarrow> release_areas c k;
        k \<leftarrow> release_directory c k;
        let k = wake_parent c k;
        k \<leftarrow> orphan_children c (process_list_head k) k;
        leave k
      })"

partial_function (option) find_zombie_child :: "pstore \<Rightarrow> addr \<Rightarrow> addr \<Rightarrow> addr option" where
  "find_zombie_child P par p =
     (if p = NULL then Some NULL
      else if p_parent (P p) = par \<and> p_state (P p) = PROCESS_STATE_TERMINATED then Some p
      else find_zombie_child P par (p_next (P p)))"

text \<open>Blocking: the call returns only if the processor was not given away.\<close>

definition block_current :: "int \<Rightarrow> kernel \<Rightarrow> (kernel \<times> outcome) option" where
  "block_current r k =
     (let c = curr k; k = upd_p c (\<lambda>x. x\<lparr>p_state := PROCESS_STATE_BLOCKED\<rparr>) k in
      map_option (\<lambda>s. (k\<lparr>sc := s\<rparr>, if on_cpu s = c then Returns r else Switched)) (scheduler_schedule (sc k)))"

text \<open>The last component is what is stored in \<^verbatim>\<open>*status\<close>.\<close>

definition sys_wait :: "addr \<Rightarrow> kernel \<Rightarrow> (kernel \<times> outcome \<times> u32 option) option" where
  "sys_wait status k =
     (let c = curr k in
      if c = NULL then Some (k, Returns (- ESRCH), None)
      else do {
        child \<leftarrow> find_zombie_child (procs (sc k)) c c;
        if child \<noteq> NULL then do {
          let st = (if status \<noteq> NULL then Some (exit_code (proc k child)) else None);
          let child_pid = pid (proc k child);
          k \<leftarrow> process_destroy child k;
          Some (k, Returns (sint child_pid), st)
        }
        else map_option (\<lambda>(k, r). (k, r, None)) (block_current (- EINTR) k)
      })"

definition sys_waitpid :: "u32 \<Rightarrow> addr \<Rightarrow> u32 \<Rightarrow> kernel \<Rightarrow> (kernel \<times> outcome \<times> u32 option) option" where
  "sys_waitpid n status options k =
     (let c = curr k in
      if c = NULL then Some (k, Returns (- ESRCH), None)
      else do {
        child \<leftarrow> process_find_by_pid n k;
        if child = NULL \<or> p_parent (proc k child) \<noteq> c then Some (k, Returns (- ECHILD), None)
        else if p_state (proc k child) = PROCESS_STATE_TERMINATED then do {
          let st = (if status \<noteq> NULL then Some (exit_code (proc k child)) else None);
          k \<leftarrow> process_destroy child k;
          Some (k, Returns (sint n), st)
        }
        else if options AND 1 \<noteq> 0 then Some (k, Returns 0, None)
        else map_option (\<lambda>(k, r). (k, r, None)) (block_current (sint n) k)
      })"


section \<open>The list of processes and the queues\<close>

lemma lift_mm_fields:
  assumes "lift_mm f k = Some (k', x)"
  shows "sc k' = sc k" "next_pid k' = next_pid k" "process_list_head k' = process_list_head k" "process_count k' = process_count k"
  using assms by (auto simp: lift_mm_def)

lemma upd_p_simps:
  "sc (upd_p p f k) = upd p f (sc k)" "next_pid (upd_p p f k) = next_pid k" "process_list_head (upd_p p f k) = process_list_head k"
  "process_count (upd_p p f k) = process_count k" "mm (upd_p p f k) = mm k"
  by (simp_all add: upd_p_def)

lemma fill_pcb_fields:
  assumes "p \<noteq> NULL"
  shows "pid (proc (fill_pcb p nm prio k) x) = (if x = p then next_pid k else pid (proc k x))"
    "next_pid (fill_pcb p nm prio k) = next_pid k + 1" "process_list_head (fill_pcb p nm prio k) = process_list_head k"
    "process_count (fill_pcb p nm prio k) = process_count k"
    "levels (sc (fill_pcb p nm prio k)) = levels (sc k)" "mlfq.more (sc (fill_pcb p nm prio k)) = mlfq.more (sc k)"
  using assms
  by (simp_all add: fill_pcb_def process_allocate_pid_def init_process_signals_def upd_p_simps upd_proc_apply)

lemma enqueue_tail:
  assumes "p \<noteq> NULL" "mlfq_level (procs s p) = 0"
  shows "q_tail (levels (mlfq_enqueue p s) 0) = p" "q_tail (levels s 0) \<noteq> p \<Longrightarrow> p_next (procs (mlfq_enqueue p s) p) = NULL"
  using assms by (simp_all add: mlfq_enqueue_def queue_append_def Let_def clamp_level_range upd_proc_apply)

lemma start_thread_fields:
  assumes "p \<noteq> NULL" "current_policy (sc k) = SCHED_POLICY_MLFQ"
  shows "pid (proc (start_thread te e p st k) x) = pid (proc k x)" "next_pid (start_thread te e p st k) = next_pid k"
    "process_list_head (start_thread te e p st k) = p" "process_count (start_thread te e p st k) = process_count k + 1"
    "q_tail (levels (sc (start_thread te e p st k)) 0) = p"
    "q_tail (levels (sc k) 0) \<noteq> p \<Longrightarrow> p_next (proc (start_thread te e p st k) p) = NULL"
    "mlfq.more (sc (start_thread te e p st k)) = mlfq.more (sc k)"
proof -
  obtain k' where k': "start_thread te e p st k = k'\<lparr>sc := scheduler_add_process p (sc k')\<rparr>"
    "next_pid k' = next_pid k" "process_list_head k' = p" "process_count k' = process_count k + 1"
    "levels (sc k') = levels (sc k)" "mlfq.more (sc k') = mlfq.more (sc k)" "\<And>x. pid (proc k' x) = pid (proc k x)"
  proof -
    define k1 where "k1 = upd_p p (\<lambda>x. x\<lparr>p_context := zero_context\<lparr>c_esp := st + 4096 - 64, c_eip := te,
                       c_eflags := 0x202, c_cs := 0x08, c_ss := 0x10, c_user_esp := 0, c_ebx := e\<rparr>,
                       page_dir := NULL, p_next := process_list_head k\<rparr>) (k\<lparr>mm := (mm k)\<lparr>vs := mark_stack st (vs (mm k))\<rparr>\<rparr>)"
    define k2 where "k2 = (if process_list_head k1 \<noteq> NULL then upd_p (process_list_head k1) (\<lambda>x. x\<lparr>p_prev := p\<rparr>) k1 else k1)"
    define k3 where "k3 = k2\<lparr>process_list_head := p, process_count := process_count k2 + 1, sc := process_set_state p PROCESS_STATE_READY (sc k2)\<rparr>"
    have "start_thread te e p st k = k3\<lparr>sc := scheduler_add_process p (sc k3)\<rparr>"
      by (simp add: start_thread_def Let_def k3_def k2_def k1_def)
    then show thesis
      by (rule that) (simp_all add: k3_def k2_def k1_def upd_p_simps process_set_state_def upd_proc_apply)
  qed
  note g = sched_more [OF k'(6)]
  let ?s = "upd p (\<lambda>x. x\<lparr>mlfq_level := 0\<rparr>) (upd p (\<lambda>x. x\<lparr>p_state := PROCESS_STATE_READY\<rparr>) (sc k'))"
  have a: "scheduler_add_process p (sc k') = mlfq_enqueue p ?s"
    using assms g by (simp add: scheduler_add_process_def upd_def)
  have u: "unscheduled (procs (mlfq_enqueue p ?s) x) = unscheduled (procs ?s x)" for x
    by (rule enqueue_fields)
  show "pid (proc (start_thread te e p st k) x) = pid (proc k x)"
    using unscheduled_field(2) [OF u [of x]] k'(7) by (simp add: k'(1) a upd_proc_apply)
  show "q_tail (levels (sc (start_thread te e p st k)) 0) = p"
    "q_tail (levels (sc k) 0) \<noteq> p \<Longrightarrow> p_next (proc (start_thread te e p st k) p) = NULL"
    using enqueue_tail [OF assms(1), of ?s] k'(5) by (simp_all add: k'(1) a upd_proc_apply)
  show "next_pid (start_thread te e p st k) = next_pid k" "process_list_head (start_thread te e p st k) = p"
    "process_count (start_thread te e p st k) = process_count k + 1"
    "mlfq.more (sc (start_thread te e p st k)) = mlfq.more (sc k)"
    using k'(2-4,6) by (simp_all add: k'(1) a enqueue_fields)
qed


lemma create_thread_fields:
  assumes "process_create_kernel_thread te nm e prio k = Some (k', p)" "p \<noteq> NULL" "current_policy (sc k) = SCHED_POLICY_MLFQ"
  shows "pid (proc k' x) = (if x = p then next_pid k else pid (proc k x))" "next_pid k' = next_pid k + 1"
    "process_list_head k' = p" "process_count k' = process_count k + 1" "q_tail (levels (sc k') 0) = p"
    "q_tail (levels (sc k) 0) \<noteq> p \<Longrightarrow> p_next (proc k' p) = NULL" "current_policy (sc k') = SCHED_POLICY_MLFQ"
proof -
  obtain k1 k2 st where k1: "lift_mm (lift_v (kalloc sizeof_process)) k = Some (k1, p)"
    and k2: "lift_mm (lift_v (kalloc 4096)) (fill_pcb p nm prio k1) = Some (k2, st)"
    and k': "k' = start_thread te e p st (upd_p p (\<lambda>x. x\<lparr>kernel_stack := st\<rparr>) k2)"
    using assms(1,2)
    by (auto simp: process_create_kernel_thread_def bind_eq_Some_conv Let_def split: if_splits)
  note f1 = lift_mm_fields [OF k1] and f2 = lift_mm_fields [OF k2] and fp = fill_pcb_fields [OF assms(2), of nm prio k1]
  let ?k = "upd_p p (\<lambda>x. x\<lparr>kernel_stack := st\<rparr>) k2"
  have m: "mlfq.more (sc ?k) = mlfq.more (sc k)" "levels (sc ?k) = levels (sc k)" "next_pid ?k = next_pid k + 1"
    "process_count ?k = process_count k" "pid (proc ?k x) = (if x = p then next_pid k else pid (proc k x))" for x
    by (simp_all add: upd_p_simps f1 f2 fp upd_proc_apply)
  have pol: "current_policy (sc ?k) = SCHED_POLICY_MLFQ"
    using sched_more(4) [OF m(1)] assms(3) by simp
  note st = start_thread_fields [OF assms(2) pol, of te e st]
  show "pid (proc k' x) = (if x = p then next_pid k else pid (proc k x))" "next_pid k' = next_pid k + 1"
    "process_list_head k' = p" "process_count k' = process_count k + 1" "q_tail (levels (sc k') 0) = p"
    "q_tail (levels (sc k) 0) \<noteq> p \<Longrightarrow> p_next (proc k' p) = NULL"
    by (simp_all add: k' st m)
  show "current_policy (sc k') = SCHED_POLICY_MLFQ"
    using sched_more(4) [OF st(7)] pol by (simp add: k')
qed

text \<open>
  The list of processes does not survive scheduling.  A process is put into the list and then, with the
  same two links, into a queue.  So when a second kernel thread has been created, \<open>process_find_by_pid\<close> no longer
  finds the first one, although \<open>process_count\<close> counts both.
\<close>

theorem second_thread_hides_first:
  assumes "process_create_kernel_thread te nm e prio k = Some (k1, a)" "a \<noteq> NULL" "current_policy (sc k) = SCHED_POLICY_MLFQ"
    and "process_create_kernel_thread te nm' e' prio' k1 = Some (k2, b)" "b \<noteq> NULL" "b \<noteq> a"
  shows "process_find_by_pid (pid (proc k2 a)) k2 = Some NULL \<and> process_find_by_pid (pid (proc k2 b)) k2 = Some b
    \<and> process_count k2 = process_count k + 2"
proof -
  note 1 = create_thread_fields [OF assms(1-3)]
  note 2 = create_thread_fields [OF assms(4,5) 1(7)]
  have n: "p_next (proc k2 b) = 0"
    using 1(5) assms(6) by (intro 2(6)) simp
  have "pid (proc k2 a) = next_pid k" "pid (proc k2 b) = next_pid k + 1"
    using 1(1,2) 2(1) assms(6) by simp_all
  then show ?thesis
    using n assms(5) 1(4) 2(3,4)
    by (simp add: process_find_by_pid_def find_pid.simps [of _ _ b] find_pid.simps [of _ _ 0])
qed


lemma lift_kalloc:
  assumes "kmalloc n (kh (vs (mm k))) = Some (h, p)"
  shows "lift_mm (lift_v (kalloc n)) k = Some (k\<lparr>mm := (mm k)\<lparr>vs := (vs (mm k))\<lparr>kh := h\<rparr>\<rparr>\<rparr>, p)"
  using assms by (simp add: lift_mm_def lift_v_def kalloc_def)

lemma create_thread_succeeds:
  assumes "heap_rel (kh (vs (mm k))) bs" "e \<noteq> NULL" "alloc_list 540 bs = Some (p, bs1)" "alloc_list 4116 bs1 = Some (st, bs2)"
    "p \<noteq> NULL" "st \<noteq> NULL"
  obtains k' where "process_create_kernel_thread te nm e prio k = Some (k', p)" "heap_rel (kh (vs (mm k'))) bs2"
proof -
  have r: "request (unat (520 :: u32)) = 540" "request (unat (4096 :: u32)) = 4116"
    by (simp_all add: request_def)
  obtain h1 where h1: "kmalloc 520 (kh (vs (mm k))) = Some (h1, p)" "heap_rel h1 bs1"
    using kmalloc_fit [OF assms(1), of 520 p bs1] r(1) assms(3) by auto
  obtain h2 where h2: "kmalloc 4096 h1 = Some (h2, st)" "heap_rel h2 bs2"
    using kmalloc_fit [OF h1(2), of 4096 st bs2] r(2) assms(4) by auto
  define k1 where "k1 = fill_pcb p nm prio (k\<lparr>mm := (mm k)\<lparr>vs := (vs (mm k))\<lparr>kh := h1\<rparr>\<rparr>\<rparr>)"
  have k1: "kh (vs (mm k1)) = h1"
    by (simp add: k1_def fill_pcb_def process_allocate_pid_def init_process_signals_def upd_p_simps Let_def)
  define k2 where "k2 = upd_p p (\<lambda>x. x\<lparr>kernel_stack := st\<rparr>) (k1\<lparr>mm := (mm k1)\<lparr>vs := (vs (mm k1))\<lparr>kh := h2\<rparr>\<rparr>\<rparr>)"
  have "kh (vs (mm k2)) = h2"
    by (simp add: k2_def upd_p_simps)
  then have "heap_rel (kh (vs (mm (start_thread te e p st k2)))) bs2"
    using h2(2) by (simp add: start_thread_def Let_def upd_p_simps mark_stack_def heap_rel_payload)
  moreover have "process_create_kernel_thread te nm e prio k = Some (start_thread te e p st k2, p)"
    using assms(2,5,6) lift_kalloc [of 520 k h1 p] lift_kalloc [of 4096 k1 h2 st] h1(1) h2(1) k1
    by (simp add: process_create_kernel_thread_def sizeof_process_def k1_def [symmetric] k2_def [symmetric])
  ultimately show thesis
    by (intro that)
qed

theorem second_thread_hides_first_witness:
  "\<exists>k k1 k2. process_create_kernel_thread 0xC0100000 [97] 0xC0200000 0 k = Some (k1, 0xD0000014) \<and>
     process_create_kernel_thread 0xC0100000 [98] 0xC0300000 0 k1 = Some (k2, 0xD0001244) \<and>
     process_find_by_pid (pid (proc k2 0xD0000014)) k2 = Some NULL"
proof -
  fix m :: mm_state
  obtain h where h: "heap_rel h [(0xD0000000, 69632, False)]"
    by (rule boot_heap)
  define k where "k = \<lparr>sc = demo_sched, mm = m\<lparr>vs := (vs m)\<lparr>kh := h\<rparr>\<rparr>, next_pid = 1, process_count = 0, process_list_head = NULL,
    process_list_tail = NULL\<rparr>"
  have r: "heap_rel (kh (vs (mm k))) [(0xD0000000, 69632, False)]"
    using h by (simp add: k_def)
  have nz: "0xC0200000 \<noteq> (NULL :: u32)" "0xC0300000 \<noteq> (NULL :: u32)" "0xD0000014 \<noteq> (NULL :: u32)" "0xD0000230 \<noteq> (NULL :: u32)"
    "0xD0001244 \<noteq> (NULL :: u32)" "0xD0001460 \<noteq> (NULL :: u32)"
    by simp_all
  have a1: "alloc_list 540 [(0xD0000000, 69632, False)] = Some (0xD0000014, [(0xD0000000, 540, True), (0xD000021C, 69092, False)])"
    by (simp add: fits_def carve_def)
  have a2: "alloc_list 4116 [(0xD0000000, 540, True), (0xD000021C, 69092, False)]
      = Some (0xD0000230, [(0xD0000000, 540, True), (0xD000021C, 4116, True), (0xD0001230, 64976, False)])"
    by (simp add: fits_def carve_def)
  have a3: "alloc_list 540 [(0xD0000000, 540, True), (0xD000021C, 4116, True), (0xD0001230, 64976, False)]
      = Some (0xD0001244, [(0xD0000000, 540, True), (0xD000021C, 4116, True), (0xD0001230, 540, True), (0xD000144C, 64436, False)])"
    by (simp add: fits_def carve_def)
  have a4: "alloc_list 4116 [(0xD0000000, 540, True), (0xD000021C, 4116, True), (0xD0001230, 540, True), (0xD000144C, 64436, False)]
      = Some (0xD0001460, [(0xD0000000, 540, True), (0xD000021C, 4116, True), (0xD0001230, 540, True), (0xD000144C, 4116, True), (0xD0002460, 60320, False)])"
    by (simp add: fits_def carve_def)
  obtain k1 where k1: "process_create_kernel_thread 0xC0100000 [97] 0xC0200000 0 k = Some (k1, 0xD0000014)"
    "heap_rel (kh (vs (mm k1))) [(0xD0000000, 540, True), (0xD000021C, 4116, True), (0xD0001230, 64976, False)]"
    by (rule create_thread_succeeds [OF r nz(1) a1 a2 nz(3,4)])
  obtain k2 where k2: "process_create_kernel_thread 0xC0100000 [98] 0xC0300000 0 k1 = Some (k2, 0xD0001244)"
    by (rule create_thread_succeeds [OF k1(2) nz(2) a3 a4 nz(5,6)])
  have "current_policy (sc k) = SCHED_POLICY_MLFQ"
    by (simp add: k_def demo_sched_def mlfq.defs sched.defs)
  then have "process_find_by_pid (pid (proc k2 0xD0000014)) k2 = Some NULL"
    using second_thread_hides_first [OF k1(1) _ _ k2] by simp
  then show ?thesis
    using k1(1) k2 by blast
qed

end
