(* ===== verification/Signal.thy ===== *)
theory Signal
  imports Process
begin

text \<open>
  Signals, \<^verbatim>\<open>process/signal.c\<close>, and what becomes of a process that waits: in \<^verbatim>\<open>sys_wait\<close>, for a child, or in
  \<^verbatim>\<open>sys_pause\<close>, for a signal.
\<close>

section \<open>Operations\<close>

definition NSIG :: int where "NSIG = 32"
definition SIGKILL :: int where "SIGKILL = 9"
definition SIGSTOP :: int where "SIGSTOP = 19"
definition SIG_DFL :: u32 where "SIG_DFL = 0"
definition SIG_IGN :: u32 where "SIG_IGN = 1"
definition SIG_ERR :: u32 where "SIG_ERR = - 1"
definition SA_RESTART :: u32 where "SA_RESTART = 0x10000000"
definition SIG_BLOCK :: int where "SIG_BLOCK = 0"
definition SIG_UNBLOCK :: int where "SIG_UNBLOCK = 1"
definition SIG_SETMASK :: int where "SIG_SETMASK = 2"

datatype sig_default_action = SIG_ACT_TERM | SIG_ACT_IGN | SIG_ACT_CORE | SIG_ACT_STOP | SIG_ACT_CONT

definition default_actions :: "sig_default_action list" where
  "default_actions =
     [SIG_ACT_IGN, SIG_ACT_TERM, SIG_ACT_TERM, SIG_ACT_CORE, SIG_ACT_CORE, SIG_ACT_CORE, SIG_ACT_CORE, SIG_ACT_CORE,
      SIG_ACT_CORE, SIG_ACT_TERM, SIG_ACT_TERM, SIG_ACT_CORE, SIG_ACT_TERM, SIG_ACT_TERM, SIG_ACT_TERM, SIG_ACT_TERM,
      SIG_ACT_TERM, SIG_ACT_IGN, SIG_ACT_CONT, SIG_ACT_STOP, SIG_ACT_STOP, SIG_ACT_STOP, SIG_ACT_STOP, SIG_ACT_IGN,
      SIG_ACT_CORE, SIG_ACT_CORE, SIG_ACT_TERM, SIG_ACT_TERM, SIG_ACT_IGN, SIG_ACT_TERM, SIG_ACT_TERM, SIG_ACT_CORE]"

definition sig_bit :: "int \<Rightarrow> u32" where "sig_bit sig = push_bit (nat (sig - 1)) 1"

definition send_signal_to_process :: "addr \<Rightarrow> int \<Rightarrow> kernel \<Rightarrow> kernel \<times> int" where
  "send_signal_to_process p sig k =
     (if p = NULL \<or> sig < 1 \<or> sig \<ge> NSIG then (k, - 1)
      else let k = upd_p p (\<lambda>x. x\<lparr>pending_signals := pending_signals x OR sig_bit sig\<rparr>) k;
               k = (if p_state (proc k p) = PROCESS_STATE_BLOCKED \<and> blocked_signals (proc k p) AND sig_bit sig = 0
                    then upd_p p (\<lambda>x. x\<lparr>p_state := PROCESS_STATE_READY\<rparr>) k else k)
           in (k, 0))"

definition send_signal :: "u32 \<Rightarrow> int \<Rightarrow> kernel \<Rightarrow> (kernel \<times> int) option" where
  "send_signal n sig k =
     (if sig < 1 \<or> sig \<ge> NSIG then Some (k, - 1)
      else do {
        target \<leftarrow> process_find_by_pid n k;
        if target = NULL then Some (k, - 1) else Some (send_signal_to_process target sig k)
      })"

definition signal_pending :: "addr \<Rightarrow> kernel \<Rightarrow> bool" where
  "signal_pending p k \<longleftrightarrow> p \<noteq> NULL \<and> pending_signals (proc k p) AND NOT (blocked_signals (proc k p)) \<noteq> 0"

definition do_signal_action :: "addr \<Rightarrow> int \<Rightarrow> kernel \<Rightarrow> kernel" where
  "do_signal_action p sig k =
     (case default_actions ! nat sig of
        SIG_ACT_TERM \<Rightarrow> upd_p p (\<lambda>x. x\<lparr>p_state := PROCESS_STATE_TERMINATED, exit_code := word_of_int sig\<rparr>) k
      | SIG_ACT_CORE \<Rightarrow> upd_p p (\<lambda>x. x\<lparr>p_state := PROCESS_STATE_TERMINATED, exit_code := word_of_int sig\<rparr>) k
      | SIG_ACT_STOP \<Rightarrow> upd_p p (\<lambda>x. x\<lparr>p_state := PROCESS_STATE_BLOCKED\<rparr>) k
      | SIG_ACT_CONT \<Rightarrow> (if p_state (proc k p) = PROCESS_STATE_BLOCKED then upd_p p (\<lambda>x. x\<lparr>p_state := PROCESS_STATE_READY\<rparr>) k else k)
      | SIG_ACT_IGN \<Rightarrow> k)"

text \<open>The loop over the signals that were pending at its start, the rest of their numbers as its argument.\<close>

fun handle_loop :: "int list \<Rightarrow> u32 \<Rightarrow> addr \<Rightarrow> kernel \<Rightarrow> kernel" where
  "handle_loop [] pending p k = k"
| "handle_loop (sig # sigs) pending p k =
     (if pending AND sig_bit sig = 0 then handle_loop sigs pending p k
      else let k = upd_p p (\<lambda>x. x\<lparr>pending_signals := pending_signals x AND NOT (sig_bit sig)\<rparr>) k;
               handler = signal_handlers (proc k p) ! nat (sig - 1)
           in if handler = SIG_IGN then handle_loop sigs pending p k
              else if handler = SIG_DFL then
                let k = do_signal_action p sig k
                in if p_state (proc k p) = PROCESS_STATE_TERMINATED then k else handle_loop sigs pending p k
              else if sig = SIGKILL \<or> sig = SIGSTOP then handle_loop sigs pending p (do_signal_action p sig k)
              else handle_loop sigs pending p k)"

definition handle_signals :: "addr \<Rightarrow> kernel \<Rightarrow> kernel" where
  "handle_signals p k =
     (if p = NULL then k
      else let pending = pending_signals (proc k p) AND NOT (blocked_signals (proc k p)) in
        if pending = 0 then k else handle_loop [1..NSIG - 1] pending p k)"

definition sys_kill :: "u32 \<Rightarrow> int \<Rightarrow> kernel \<Rightarrow> (kernel \<times> int) option" where
  "sys_kill n sig k =
     (if sig < 0 \<or> sig \<ge> NSIG then Some (set_errno_of EINVAL k)
      else if sig = 0 then do {
        target \<leftarrow> process_find_by_pid n k;
        Some (if target \<noteq> NULL then (k, 0) else set_errno_of ESRCH k)
      }
      else do {
        (k, r) \<leftarrow> send_signal n sig k;
        Some (if r < 0 then set_errno_of ESRCH k else (k, 0))
      })"

text \<open>
  An action is a handler and flags; a null pointer is \<open>None\<close>.  The last component of the result is what
  is stored in \<^verbatim>\<open>*oldact\<close>, if that is wanted.
\<close>

definition sys_sigaction :: "int \<Rightarrow> (u32 \<times> u32) option \<Rightarrow> bool \<Rightarrow> kernel \<Rightarrow> kernel \<times> int \<times> (u32 \<times> u32) option" where
  "sys_sigaction signum act oldact k =
     (let c = curr k in
      if c = NULL then (case set_errno_of EFAULT k of (k, r) \<Rightarrow> (k, r, None))
      else if signum < 1 \<or> signum \<ge> NSIG \<or> signum = SIGKILL \<or> signum = SIGSTOP
      then (case set_errno_of EINVAL k of (k, r) \<Rightarrow> (k, r, None))
      else let i = nat (signum - 1);
               old = (if oldact then Some (signal_handlers (proc k c) ! i, signal_flags (proc k c) ! i) else None);
               k = (case act of None \<Rightarrow> k
                    | Some (h, fl) \<Rightarrow> upd_p c (\<lambda>x. x\<lparr>signal_handlers := (signal_handlers x)[i := h],
                                                  signal_flags := (signal_flags x)[i := fl]\<rparr>) k)
           in (k, 0, old))"

definition sys_signal :: "int \<Rightarrow> u32 \<Rightarrow> kernel \<Rightarrow> kernel \<times> u32" where
  "sys_signal signum handler k =
     (case sys_sigaction signum (Some (handler, SA_RESTART)) True k of
        (k, r, old) \<Rightarrow> (k, if r < 0 then SIG_ERR else case old of None \<Rightarrow> SIG_ERR | Some (h, _) \<Rightarrow> h))"

text \<open>A set is its first word, the only one used; the last component is what is stored in \<^verbatim>\<open>*oldset\<close>.\<close>

definition sys_sigprocmask :: "int \<Rightarrow> u32 option \<Rightarrow> bool \<Rightarrow> kernel \<Rightarrow> kernel \<times> int \<times> u32 option" where
  "sys_sigprocmask how newset oldset k =
     (let c = curr k in
      if c = NULL then (case set_errno_of EFAULT k of (k, r) \<Rightarrow> (k, r, None))
      else let old = (if oldset then Some (blocked_signals (proc k c)) else None) in
        case newset of None \<Rightarrow> (k, 0, old)
        | Some m \<Rightarrow>
            let new_mask = m AND NOT (sig_bit SIGKILL OR sig_bit SIGSTOP) in
            if how = SIG_BLOCK then (upd_p c (\<lambda>x. x\<lparr>blocked_signals := blocked_signals x OR new_mask\<rparr>) k, 0, old)
            else if how = SIG_UNBLOCK then (upd_p c (\<lambda>x. x\<lparr>blocked_signals := blocked_signals x AND NOT new_mask\<rparr>) k, 0, old)
            else if how = SIG_SETMASK then (upd_p c (\<lambda>x. x\<lparr>blocked_signals := new_mask\<rparr>) k, 0, old)
            else (case set_errno_of EINVAL k of (k, r) \<Rightarrow> (k, r, old)))"

text \<open>A \<^verbatim>\<open>sys_pause\<close> that returns has set the error code of the process that calls it.\<close>

definition sys_pause :: "kernel \<Rightarrow> (kernel \<times> outcome) option" where
  "sys_pause k =
     (if curr k = NULL then Some (case set_errno_of EFAULT k of (k, r) \<Rightarrow> (k, Returns r))
      else do {
        (k, r) \<leftarrow> block_current (- 1) k;
        Some (case r of Switched \<Rightarrow> (k, r) | Returns _ \<Rightarrow> (case set_errno_of EINTR k of (k, r) \<Rightarrow> (k, Returns r)))
      })"


section \<open>A signal that cannot be stopped\<close>

text \<open>A process has not caught, ignored or blocked SIGKILL.\<close>

definition killable :: "process \<Rightarrow> bool" where
  "killable x \<longleftrightarrow> signal_handlers x ! 8 = SIG_DFL \<and> \<not> bit (blocked_signals x) 8"

lemma proc_upd_p: "proc (upd_p q f k) p = (if p = q then f (proc k p) else proc k p)"
  by (simp add: upd_p_def upd_proc_apply)

lemma curr_upd_p [simp]: "curr (upd_p q f k) = curr k"
  by (simp add: upd_p_def upd_def)

lemma sig_bit_8: "sig_bit SIGKILL = push_bit 8 1" "sig_bit 9 = push_bit 8 1"
  by (simp_all add: sig_bit_def SIGKILL_def)

lemma do_signal_action_fields:
  "signal_handlers (proc (do_signal_action p sig k) q) = signal_handlers (proc k q)"
  "blocked_signals (proc (do_signal_action p sig k) q) = blocked_signals (proc k q)"
  by (cases "default_actions ! nat sig"; simp add: do_signal_action_def proc_upd_p)+

lemma handle_loop_fields:
  "signal_handlers (proc (handle_loop sigs pending p k) q) = signal_handlers (proc k q) \<and>
   blocked_signals (proc (handle_loop sigs pending p k) q) = blocked_signals (proc k q)"
  by (induction sigs arbitrary: k q) (simp_all add: Let_def do_signal_action_fields proc_upd_p)

lemma handle_loop_kills:
  "9 \<in> set sigs \<Longrightarrow> bit pending 8 \<Longrightarrow> signal_handlers (proc k p) ! 8 = SIG_DFL \<Longrightarrow>
   p_state (proc (handle_loop sigs pending p k) p) = PROCESS_STATE_TERMINATED"
proof (induction sigs arbitrary: k)
  case (Cons sig sigs)
  show ?case
  proof (cases "sig = 9")
    case True
    have "pending AND sig_bit sig \<noteq> 0"
      using Cons.prems(2) bit_and_iff [of pending "sig_bit sig" 8] by (auto simp: True sig_bit_8)
    with True show ?thesis
      using Cons.prems(3)
      by (simp add: Let_def proc_upd_p SIG_DFL_def SIG_IGN_def do_signal_action_def default_actions_def)
  next
    case False
    then have "9 \<in> set sigs"
      using Cons.prems(1) by simp
    then show ?thesis
      using Cons.prems(2,3) by (simp add: Let_def Cons.IH proc_upd_p do_signal_action_fields)
  qed
qed simp

lemma handle_signals_fields:
  "killable (proc (handle_signals p k) q) = killable (proc k q)"
  by (simp add: handle_signals_def killable_def Let_def handle_loop_fields)

lemma set_errno_of_fields: "killable (proc (fst (set_errno_of e k)) q) = killable (proc k q)"
  by (simp add: set_errno_of_def killable_def proc_upd_p)

lemma send_signal_fields: "killable (proc (fst (send_signal_to_process p sig k)) q) = killable (proc k q)"
  by (simp add: send_signal_to_process_def killable_def Let_def proc_upd_p)

lemma sys_sigaction_fields: "killable (proc k q) \<Longrightarrow> killable (proc (fst (sys_sigaction n act old k)) q)"
proof -
  assume a: "killable (proc k q)"
  have i: "nat (n - 1) \<noteq> 8" if "1 \<le> n" "n \<noteq> 9"
    using that by arith
  show ?thesis
    using a set_errno_of_fields [of EFAULT k q] set_errno_of_fields [of EINVAL k q] i
    by (auto simp: sys_sigaction_def Let_def SIGKILL_def killable_def proc_upd_p nth_list_update split: prod.splits option.splits)
qed

lemma sys_sigprocmask_fields: "killable (proc k q) \<Longrightarrow> killable (proc (fst (sys_sigprocmask how m old k)) q)"
  using set_errno_of_fields [of EFAULT k q] set_errno_of_fields [of EINVAL k q]
  by (auto simp: sys_sigprocmask_def Let_def killable_def proc_upd_p sig_bit_8 bit_simps split: prod.splits option.splits)

text \<open>The calls with which processes change their handling of signals, and the signals they send and receive.\<close>

inductive sig_step :: "kernel \<Rightarrow> kernel \<Rightarrow> bool" where
  action: "sig_step k (fst (sys_sigaction n act old k))"
| signal: "sig_step k (fst (sys_signal n h k))"
| mask: "sig_step k (fst (sys_sigprocmask how m oldset k))"
| send: "sig_step k (fst (send_signal_to_process q sig k))"
| handle: "sig_step k (handle_signals q k)"
| switch: "sig_step k (k\<lparr>sc := (sc k)\<lparr>sched.current := q\<rparr>\<rparr>)"

lemma sig_step_killable: "sig_step k k' \<Longrightarrow> killable (proc k p) \<Longrightarrow> killable (proc k' p)"
proof (induction rule: sig_step.induct)
  case (signal k n h)
  then show ?case
    using sys_sigaction_fields [of k p n "Some (h, SA_RESTART)" True] by (auto simp: sys_signal_def split: prod.splits)
qed (simp_all add: sys_sigaction_fields sys_sigprocmask_fields send_signal_fields handle_signals_fields)

lemma sigkill_terminates:
  assumes "p \<noteq> NULL" "killable (proc k p)"
  shows "p_state (proc (handle_signals p (fst (send_signal_to_process p SIGKILL k))) p) = PROCESS_STATE_TERMINATED"
proof -
  let ?k = "fst (send_signal_to_process p SIGKILL k)"
  have f: "bit (pending_signals (proc ?k p)) 8" "signal_handlers (proc ?k p) = signal_handlers (proc k p)"
    "blocked_signals (proc ?k p) = blocked_signals (proc k p)"
    using assms(1) by (simp_all add: send_signal_to_process_def SIGKILL_def NSIG_def Let_def proc_upd_p sig_bit_8 bit_simps)
  then have b: "bit (pending_signals (proc ?k p) AND NOT (blocked_signals (proc ?k p))) 8"
    using assms(2) by (simp add: killable_def bit_simps)
  then have "pending_signals (proc ?k p) AND NOT (blocked_signals (proc ?k p)) \<noteq> 0"
    by auto
  moreover have "9 \<in> set [1..NSIG - 1]"
    by (simp add: NSIG_def)
  ultimately show ?thesis
    using handle_loop_kills [OF _ b, of "[1..NSIG - 1]" ?k p] assms f(2)
    by (simp add: handle_signals_def Let_def killable_def)
qed

text \<open>
  \<^bold>\<open>C32.\<close> SIGKILL cannot be caught, ignored or blocked.  Whatever processes do with \<open>sys_sigaction\<close>, \<open>sys_signal\<close> and
  \<open>sys_sigprocmask\<close> after a process has been created, and whatever signals are sent and handled: when SIGKILL
  is sent to the process and its signals are handled, it is terminated.
\<close>

theorem sigkill_unstoppable:
  assumes "p \<noteq> NULL" "sig_step\<^sup>*\<^sup>* (init_process_signals p k0) k"
  shows "p_state (proc (handle_signals p (fst (send_signal_to_process p SIGKILL k))) p) = PROCESS_STATE_TERMINATED"
proof -
  have "killable (proc (init_process_signals p k0) p)"
    using assms(1) by (simp add: init_process_signals_def proc_upd_p killable_def SIG_DFL_def)
  with assms(2) have "killable (proc k p)"
    by (induction rule: rtranclp_induct) (auto intro: sig_step_killable)
  then show ?thesis
    by (rule sigkill_terminates [OF assms(1)])
qed

theorem sigkill_unstoppable_witness:
  "\<exists>k0 k. k = fst (sys_sigprocmask SIG_BLOCK (Some (- 1)) False (init_process_signals 16 k0)) \<and>
     p_state (proc (handle_signals 16 (fst (send_signal_to_process 16 SIGKILL k))) 16) = PROCESS_STATE_TERMINATED"
proof -
  fix k0
  let ?k = "fst (sys_sigprocmask SIG_BLOCK (Some (- 1)) False (init_process_signals 16 k0))"
  have "sig_step\<^sup>*\<^sup>* (init_process_signals 16 k0) ?k"
    by (rule r_into_rtranclp) (rule sig_step.mask)
  then have "p_state (proc (handle_signals 16 (fst (send_signal_to_process 16 SIGKILL ?k))) 16) = PROCESS_STATE_TERMINATED"
    by (intro sigkill_unstoppable) simp_all
  then show ?thesis by blast
qed


section \<open>Waiting for ever\<close>

text \<open>
  What goes on while process \<open>c\<close> is not running: the timer, calls that give the processor away, signals
  to any process, blocking calls and the two ways to exit, and other processes that are put into a queue,
  as new ones and those woken from a wait queue are.  A process is put into a queue only while it is in
  none.
\<close>

definition addable :: "sched \<Rightarrow> addr \<Rightarrow> bool" where
  "addable s p \<longleftrightarrow> p \<noteq> NULL \<and> p \<noteq> sched.current s \<and> p \<noteq> idle_process s \<and> switchable s p \<and>
     (\<forall>qs. mlfq_rep s qs \<longrightarrow> p \<notin> (\<Union>i<5. set (qs i)))"

inductive event :: "addr \<Rightarrow> kernel \<Rightarrow> kernel \<Rightarrow> bool" for c where
  tick: "timer_handler (sc k) = Some s \<Longrightarrow> event c k (k\<lparr>sc := s\<rparr>)"
| yield: "scheduler_yield (sc k) = Some s \<Longrightarrow> event c k (k\<lparr>sc := s\<rparr>)"
| signalled: "event c k (fst (send_signal_to_process p sig k))"
| exit: "curr k \<noteq> idle_process (sc k) \<Longrightarrow> sys_exit status k = Some k' \<Longrightarrow> event c k k'"
| block: "curr k \<noteq> idle_process (sc k) \<Longrightarrow> block_current r k = Some (k', out) \<Longrightarrow> event c k k'"
| thread_exit: "curr k \<noteq> idle_process (sc k) \<Longrightarrow> p_next (proc k (curr k)) = NULL \<Longrightarrow> p_prev (proc k (curr k)) = NULL \<Longrightarrow>
    process_exit code k = Some k' \<Longrightarrow> event c k k'"
| add: "p \<noteq> c \<Longrightarrow> addable (sc k) p \<Longrightarrow> event c k (k\<lparr>sc := scheduler_add_process p (sc k)\<rparr>)"

text \<open>The fields of a process on which the queues depend.\<close>

definition queue_view :: "process \<Rightarrow> addr \<times> addr \<times> int \<times> addr \<times> u32" where
  "queue_view x = (p_next x, p_prev x, mlfq_level x, page_dir x, pid x)"

definition unqueued_same :: "sched \<Rightarrow> sched \<Rightarrow> bool" where
  "unqueued_same s s' \<longleftrightarrow> levels s' = levels s \<and> mlfq.more s' = mlfq.more s \<and>
     (\<forall>p. p \<noteq> sched.current s \<or> sched.current s = idle_process s \<longrightarrow> queue_view (procs s' p) = queue_view (procs s p)) \<and>
     (requeues s' \<longrightarrow> requeues s \<and> queue_view (procs s' (sched.current s)) = queue_view (procs s (sched.current s)))"

lemma unqueued_same_ok:
  assumes "sched_ok s qs" "unqueued_same s s'"
  shows "sched_ok s' qs" "active s' qs = active s qs"
proof -
  note u = assms(2) [unfolded unqueued_same_def]
  have g: "mlfq.more s' = mlfq.more s" "levels s' = levels s"
    using u by simp_all
  note m = sched_more [OF g(1)]
  have v: "p_next (procs s' p) = p_next (procs s p) \<and> p_prev (procs s' p) = p_prev (procs s p) \<and> mlfq_level (procs s' p) = mlfq_level (procs s p)
      \<and> switchable s' p = switchable s p" if "queue_view (procs s' p) = queue_view (procs s p)" for p
    using that m by (simp add: queue_view_def switchable_def)
  have q: "p \<noteq> sched.current s" if "i < 5" "p \<in> set (qs i)" for i p
    using assms(1) that by (auto simp: sched_ok_def)
  have "mlfq_rep s' qs = mlfq_rep s qs"
    by (intro mlfq_rep_cong g(2)) (use u q v in blast)
  moreover have "switchable s' p = switchable s p" if "p \<in> insert (idle_process s) (\<Union>i<5. set (qs i))" for p
    using that u q v by (cases "p = sched.current s") auto
  moreover have "requeues s' \<longrightarrow> switchable s' (sched.current s)"
    using u v assms(1) unfolding sched_ok_def by blast
  ultimately show "sched_ok s' qs"
    using assms(1) unfolding sched_ok_def [of s'] m by (simp add: sched_ok_def)
  show "active s' qs = active s qs"
    by (simp add: active_def m)
qed

lemma sched_upd_simps [simp]:
  "sched.current (upd p f s) = sched.current s" "idle_process (upd p f (s :: sched)) = idle_process s"
  by (simp_all add: upd_def)

lemma unqueued_same_trans: "unqueued_same s t \<Longrightarrow> unqueued_same t u \<Longrightarrow> unqueued_same s u"
  unfolding unqueued_same_def using sched_more(1,2) [of t s] by metis

lemma unqueued_same_upd:
  assumes "\<And>x. queue_view (f x) = queue_view x" "p = sched.current s \<Longrightarrow> p_state (f (procs s p)) = PROCESS_STATE_RUNNING \<Longrightarrow> p_state (procs s p) = PROCESS_STATE_RUNNING"
  shows "unqueued_same s (upd p f s)"
  using assms unfolding unqueued_same_def requeues_def
  by (cases "p = sched.current s") (auto simp: upd_proc_apply)

lemma orphan_same:
  "orphan_children c p k = Some k' \<Longrightarrow> unqueued_same (sc k) (sc k')"
proof (induction rule: orphan_children.raw_induct [rotated, consumes 1])
  case (1 orphan c p k k')
  show ?case
  proof (cases "p = 0")
    case True
    with 1(2) show ?thesis by (simp add: unqueued_same_def)
  next
    case False
    let ?k = "if p_parent (proc k p) = c then upd_p p (\<lambda>x. x\<lparr>p_parent := NULL\<rparr>) k else k"
    have "unqueued_same (sc k) (sc ?k)"
      using unqueued_same_upd [of "\<lambda>x. x\<lparr>p_parent := NULL\<rparr>" p "sc k"] by (auto simp: upd_p_def queue_view_def unqueued_same_def)
    moreover have "unqueued_same (sc ?k) (sc k')"
      using 1(2) False by (intro 1(1)) simp
    ultimately show ?thesis
      by (rule unqueued_same_trans)
  qed
qed


lemma queue_view_upd:
  "queue_view (x\<lparr>p_state := a\<rparr>) = queue_view x" "queue_view (x\<lparr>exit_code := b\<rparr>) = queue_view x"
  "queue_view (x\<lparr>p_vmas := c\<rparr>) = queue_view x" "queue_view (x\<lparr>pending_signals := b\<rparr>) = queue_view x"
  by (simp_all add: queue_view_def)

lemma signal_same: "unqueued_same (sc k) (sc (fst (send_signal_to_process p sig k)))"
proof -
  have "unqueued_same s s" for s
    by (simp add: unqueued_same_def)
  then show ?thesis
    by (auto simp: send_signal_to_process_def Let_def upd_p_def queue_view_upd upd_proc_apply
        intro!: unqueued_same_upd unqueued_same_trans [OF unqueued_same_upd unqueued_same_upd])
qed

text \<open>Up to the scheduling decision, an exit only takes the running process out of the race.\<close>

lemma exit_same:
  assumes "sys_exit status k = Some k'" "curr k \<noteq> idle_process (sc k)"
  obtains k1 where "unqueued_same (sc k) (sc k1)" "leave k1 = Some k'"
proof -
  define c where "c = curr k"
  have nr: "unqueued_same s t" if "levels t = levels s" "mlfq.more t = mlfq.more s" "sched.current s = c" "idle_process s = idle_process (sc k)"
    "\<And>p. p \<noteq> c \<Longrightarrow> procs t p = procs s p" "p_state (procs t c) \<noteq> PROCESS_STATE_RUNNING" for s t
    using that assms(2) sched_more(1) [OF that(2)] by (auto simp: unqueued_same_def requeues_def c_def)
  define k0 where "k0 = upd_p c (\<lambda>x. x\<lparr>exit_code := word_of_int status, p_state := PROCESS_STATE_TERMINATED\<rparr>) k"
  obtain ka kb where ka: "release_areas c k0 = Some ka" and kb: "release_directory c ka = Some kb"
    and rest: "Option.bind (orphan_children c (process_list_head (wake_parent c kb)) (wake_parent c kb)) leave = Some k'"
    using assms(1) unfolding sys_exit_def Let_def c_def [symmetric] k0_def [symmetric]
    by (auto simp: bind_eq_Some_conv split: if_splits)
  have i: "sc k = upd c (\<lambda>x. x) (sc k)" for k
    by (simp add: upd_def upd_proc_def)
  have a: "\<exists>f. sc ka = upd c f (sc k0) \<and> (\<forall>x. p_state (f x) = p_state x)"
  proof (cases "p_vmas (proc k0 c) = 0")
    case True
    with ka i [of k0] show ?thesis by (intro exI [of _ "\<lambda>x. x"]) (simp add: release_areas_def)
  next
    case False
    with ka show ?thesis by (intro exI [of _ "\<lambda>x. x\<lparr>p_vmas := NULL\<rparr>"]) (auto simp: release_areas_def upd_p_def)
  qed
  have b: "\<exists>f. sc kb = upd c f (sc ka) \<and> (\<forall>x. p_state (f x) = p_state x)"
  proof (cases "page_dir (proc ka c) = 0")
    case True
    with kb i [of ka] show ?thesis by (intro exI [of _ "\<lambda>x. x"]) (simp add: release_directory_def)
  next
    case False
    with kb show ?thesis by (intro exI [of _ "\<lambda>x. x\<lparr>page_dir := NULL\<rparr>"]) (auto simp: release_directory_def upd_p_def)
  qed
  have ab: "levels (sc kb) = levels (sc k)" "mlfq.more (sc kb) = mlfq.more (sc k)" "p \<noteq> c \<Longrightarrow> proc kb p = proc k p"
    "p_state (proc kb c) = PROCESS_STATE_TERMINATED" for p
    using a b by (auto simp: k0_def upd_p_def upd_proc_apply)
  have s1: "unqueued_same (sc k) (sc kb)"
    using ab by (intro nr) (simp_all add: c_def)
  have s2: "unqueued_same (sc kb) (sc (wake_parent c kb))"
  proof (cases "wake_parent c kb = kb")
    case True
    then show ?thesis by (simp add: unqueued_same_def)
  next
    case False
    then have "sc (wake_parent c kb) = upd (p_parent (proc kb c)) (\<lambda>x. x\<lparr>p_state := PROCESS_STATE_READY\<rparr>) (sc kb)"
      by (auto simp: wake_parent_def Let_def upd_p_def split: if_splits)
    then show ?thesis
      using unqueued_same_upd [of "\<lambda>x. x\<lparr>p_state := PROCESS_STATE_READY\<rparr>" "p_parent (proc kb c)" "sc kb"] by (simp add: queue_view_upd)
  qed
  obtain k1 where k1: "orphan_children c (process_list_head (wake_parent c kb)) (wake_parent c kb) = Some k1" "leave k1 = Some k'"
    using rest by (auto simp: bind_eq_Some_conv)
  show thesis
    by (rule that [OF _ k1(2)]) (rule unqueued_same_trans [OF unqueued_same_trans [OF s1 s2] orphan_same [OF k1(1)]])
qed

text \<open>A process is out when no queue holds it and it is neither the running nor the idle process.\<close>

definition out :: "addr \<Rightarrow> kernel \<Rightarrow> bool" where
  "out c k \<longleftrightarrow> (\<exists>qs. sched_ok (sc k) qs \<and> c \<notin> active (sc k) qs)"

lemma out_schedule:
  assumes "out c k" "scheduler_schedule (sc k) = Some s"
  shows "out c (k\<lparr>sc := s\<rparr>)"
proof -
  obtain qs where qs: "sched_ok (sc k) qs" "c \<notin> active (sc k) qs"
    using assms(1) by (auto simp: out_def)
  obtain s' qs' where "scheduler_schedule (sc k) = Some s'" "sched_ok s' qs'" "active s' qs' \<subseteq> active (sc k) qs"
    by (rule active_schedule [OF qs(1)])
  with assms(2) qs(2) have "sched_ok s qs'" "c \<notin> active s qs'"
    by auto
  then show ?thesis
    unfolding out_def by (intro exI [of _ qs']) simp
qed

lemma out_tick:
  assumes "out c k" "timer_handler (sc k) = Some s"
  shows "out c (k\<lparr>sc := s\<rparr>)"
proof -
  obtain qs where qs: "sched_ok (sc k) qs" "c \<notin> active (sc k) qs"
    using assms(1) by (auto simp: out_def)
  obtain s' qs' where "timer_handler (sc k) = Some s'" "sched_ok s' qs'" "active s' qs' \<subseteq> active (sc k) qs"
    by (rule active_tick [OF qs(1)])
  with assms(2) qs(2) have "sched_ok s qs'" "c \<notin> active s qs'"
    by auto
  then show ?thesis
    unfolding out_def by (intro exI [of _ qs']) simp
qed

lemma out_same: "out c k \<Longrightarrow> unqueued_same (sc k) (sc k') \<Longrightarrow> out c k'"
  unfolding out_def using unqueued_same_ok by metis

lemma block_same: "unqueued_same s (upd (sched.current s) (\<lambda>x. x\<lparr>p_state := PROCESS_STATE_BLOCKED\<rparr>) s)"
  by (rule unqueued_same_upd) (simp_all add: queue_view_upd)

lemma out_add:
  assumes "out c k" "p \<noteq> c" "addable (sc k) p"
  shows "out c (k\<lparr>sc := scheduler_add_process p (sc k)\<rparr>)"
proof -
  let ?s = "sc k"
  obtain qs where qs: "sched_ok ?s qs" "c \<notin> active ?s qs"
    using assms(1) by (auto simp: out_def)
  have p: "p \<noteq> 0" "p \<noteq> sched.current ?s" "p \<noteq> idle_process ?s" "switchable ?s p" "p \<notin> (\<Union>i<5. set (qs i))"
    using assms(3) qs(1) by (auto simp: addable_def sched_ok_def)
  define s1 where "s1 = upd p (\<lambda>x. x\<lparr>mlfq_level := 0\<rparr>) (upd p (\<lambda>x. x\<lparr>p_state := PROCESS_STATE_READY\<rparr>) ?s)"
  define s' where "s' = mlfq_enqueue p s1"
  define qs' where "qs' = qs(mlfq_target s1 p := qs (mlfq_target s1 p) @ [p])"
  have s': "scheduler_add_process p ?s = s'"
    using p(1) qs(1) by (simp add: scheduler_add_process_def s'_def s1_def sched_ok_def Let_def upd_def)
  have "mlfq_rep s1 qs"
    using qs(1) p(5) by (simp add: s1_def mlfq_rep_upd_other sched_ok_def)
  then have rep: "mlfq_rep s' qs'"
    unfolding s'_def qs'_def by (rule mlfq_enqueue_rep [OF _ p(1,5)])
  have more: "mlfq.more s' = mlfq.more ?s"
    by (simp add: s'_def s1_def enqueue_fields(3))
  note m = sched_more [OF more]
  have f: "unscheduled (procs s' x) = unscheduled (procs s1 x)" for x
    by (simp add: s'_def enqueue_fields(1))
  have sw: "switchable s' x = switchable ?s x" for x
    using unscheduled_field(2,3) [OF f [of x]] m(6) by (simp add: switchable_def s1_def upd_proc_apply)
  have rq: "requeues s' = requeues ?s"
    using unscheduled_field(1) [OF f [of "sched.current ?s"]] p(2) m(1,2) by (simp add: requeues_def s1_def upd_proc_apply)
  have mem: "(\<Union>i<5. set (qs' i)) = insert p (\<Union>i<5. set (qs i))"
    using mlfqq.target_less [of s1 p] by (auto simp: qs'_def split: if_splits)
  have "sched_ok s' qs'"
    using qs(1) rep p unfolding sched_ok_def mem m sw rq by blast
  moreover have "c \<notin> active s' qs'"
    using qs(2) assms(2) by (simp add: active_def mem m)
  ultimately show ?thesis
    unfolding s' out_def by (intro exI [of _ qs']) simp
qed

lemma out_ready:
  "sched_ok (s\<lparr>ready_head := h, ready_tail := t\<rparr>) qs = sched_ok s qs"
  "sched_ok (s\<lparr>ready_head := h, ready_tail := t, ready_count := n\<rparr>) qs = sched_ok s qs"
  by (simp_all add: sched_ok_def mlfq_rep_def switchable_def requeues_def)

lemma out_thread_exit:
  assumes "out c k" "curr k \<noteq> idle_process (sc k)" "p_next (proc k (curr k)) = NULL" "p_prev (proc k (curr k)) = NULL"
    and "process_exit code k = Some k'"
  shows "out c k'"
proof -
  let ?c = "curr k"
  define s1 where "s1 = upd ?c (\<lambda>x. x\<lparr>exit_code := code, p_state := PROCESS_STATE_TERMINATED\<rparr>) (sc k)"
  obtain P h t where q: "queue_remove ?c (ready_head s1, ready_tail s1) (procs s1) = (P, h, t)"
    using prod_cases3 by blast
  have P: "P x = procs s1 x" if "x \<noteq> ?c" for x
    using q that assms(3,4) by (auto simp: queue_remove_def Let_def s1_def upd_proc_apply split: if_splits)
  have st: "p_state (P ?c) = PROCESS_STATE_TERMINATED"
    using q by (auto simp: queue_remove_def Let_def s1_def upd_proc_apply split: if_splits)
  have "unqueued_same (sc k) (s1\<lparr>procs := P\<rparr>)"
    using P st assms(2) by (auto simp: unqueued_same_def requeues_def s1_def upd_proc_apply)
  then have o: "out c (k\<lparr>sc := s1\<lparr>procs := P\<rparr>\<rparr>)"
    by (intro out_same [OF assms(1)]) simp
  have "?c \<noteq> NULL"
    using assms(5) by (auto simp: process_exit_def Let_def)
  then have o': "out c (k\<lparr>sc := scheduler_remove_process ?c s1\<rparr>)"
    using o q by (auto simp: scheduler_remove_process_def out_def active_def out_ready Let_def)
  obtain s where s: "scheduler_schedule (scheduler_remove_process ?c s1) = Some s" "k' = k\<lparr>sc := s\<rparr>"
    using assms(5) by (auto simp: process_exit_def leave_def bind_eq_Some_conv upd_p_def s1_def Let_def split: if_splits)
  show ?thesis
    using out_schedule [OF o', of s] s by simp
qed

lemma event_out: "event c k k' \<Longrightarrow> out c k \<Longrightarrow> out c k'"
proof (induction rule: event.induct)
  case (exit k status k')
  obtain k1 where k1: "unqueued_same (sc k) (sc k1)" "leave k1 = Some k'"
    using exit_same [OF exit(2,1)] by blast
  have "out c k1"
    by (rule out_same [OF exit(3) k1(1)])
  with k1(2) show ?case
    using out_schedule by (auto simp: leave_def bind_eq_Some_conv split: if_splits)
next
  case (block k r k' o')
  let ?k = "upd_p (curr k) (\<lambda>x. x\<lparr>p_state := PROCESS_STATE_BLOCKED\<rparr>) k"
  have "out c ?k"
    by (rule out_same [OF block(3)]) (simp add: upd_p_simps block_same)
  with block(2) show ?case
    using out_schedule by (auto simp: block_current_def Let_def)
next
  case (thread_exit k code k')
  then show ?case using out_thread_exit by blast
next
  case (add p k)
  then show ?case using out_add by blast
qed (auto simp: scheduler_yield_def intro: out_tick out_schedule out_same [OF _ signal_same])

lemma events_out: "(event c)\<^sup>*\<^sup>* k k' \<Longrightarrow> out c k \<Longrightarrow> out c k'"
  by (induction rule: rtranclp_induct) (auto intro: event_out)

lemma block_current_out:
  assumes "sched_ok (sc k) qs" "preemptible (sc k)" "curr k \<noteq> idle_process (sc k)"
  obtains k' where "block_current r k = Some (k', Switched)" "out (curr k) k'"
proof -
  define c where "c = curr k"
  let ?s = "upd c (\<lambda>x. x\<lparr>p_state := PROCESS_STATE_BLOCKED\<rparr>) (sc k)"
  have "unqueued_same (sc k) ?s"
    unfolding c_def by (rule block_same)
  note ok = unqueued_same_ok(1) [OF assms(1) this]
  have pre: "preemptible ?s" and nr: "\<not> requeues ?s"
    using assms(2) by (simp_all add: preemptible_def requeues_def upd_proc_apply c_def upd_def)
  obtain s' where s': "scheduler_schedule ?s = Some s'" "sched.current s' = next_process ?s qs" "mlfq_rep s' (next_queues ?s qs)"
    "on_cpu s' = (if next_process ?s qs = sched.current ?s then on_cpu ?s else next_process ?s qs)" "sched_frame ?s s'"
    by (rule scheduler_schedule_spec [OF ok pre]) (rule that)
  have cq: "c \<notin> (\<Union>i<5. set (qs i))" "c \<noteq> idle_process (sc k)"
    using assms(1,3) by (simp_all add: sched_ok_def c_def)
  have n: "next_process ?s qs \<noteq> c"
    using next_process_cases(1) [OF ok] due_boost_set [of ?s qs] cq by auto
  have "c \<notin> (\<Union>i<5. set (next_queues ?s qs i))"
    using next_queues_mem(2) [OF ok] nr cq(1) by blast
  then have "out c (k\<lparr>sc := s'\<rparr>)"
    using sched_ok_step [OF ok s'(2,3,5)] n cq(2) s'(2,5) unfolding out_def
    by (intro exI [of _ "next_queues ?s qs"]) (simp add: active_def sched_frame_def)
  moreover have "block_current r k = Some (k\<lparr>sc := s'\<rparr>, Switched)"
    using s'(1,4) n by (simp add: block_current_def Let_def c_def [symmetric] upd_p_def)
  ultimately show thesis
    using that by (simp add: c_def)
qed

text \<open>
  \<^bold>\<open>C33.\<close> A process that waits never runs again.  Let the running process be in no queue, as every process
  is that the scheduler took from its queue; the first process, which \<open>scheduler_enable\<close> starts and leaves in
  its queue, is excluded.  \<open>sys_wait\<close> searches the processes that follow the caller on its own link, and
  there are none; so the caller is blocked and another process runs.  Making it ready does not put it back
  into a queue: whatever sequence of timer interrupts, yields, signals (also to this process), blocking
  calls, exits (also of its children, which make it ready) and additions of other processes to the queues
  follows, it never gets the processor again.
\<close>

theorem wait_never_returns:
  assumes "sched_ok (sc k) qs" "preemptible (sc k)" "curr k \<noteq> idle_process (sc k)" "p_next (proc k (curr k)) = NULL"
    "p_parent (proc k (curr k)) \<noteq> curr k"
  shows "\<exists>k'. sys_wait status k = Some (k', Switched, None) \<and> (\<forall>k''. (event (curr k))\<^sup>*\<^sup>* k' k'' \<longrightarrow> curr k'' \<noteq> curr k)"
proof -
  have "find_zombie_child (procs (sc k)) (curr k) (curr k) = Some 0"
    using assms(1,4,5)
    by (simp add: find_zombie_child.simps [of _ _ "curr k"] find_zombie_child.simps [of _ _ 0])
  moreover obtain k' where k': "block_current (- EINTR) k = Some (k', Switched)" "out (curr k) k'"
    by (rule block_current_out [OF assms(1-3)])
  moreover have "curr k \<noteq> 0"
    using assms(1) by (simp add: sched_ok_def)
  ultimately have "sys_wait status k = Some (k', Switched, None)"
    by (simp add: sys_wait_def Let_def)
  moreover have "curr k'' \<noteq> curr k" if "(event (curr k))\<^sup>*\<^sup>* k' k''" for k''
    using events_out [OF that k'(2)] by (auto simp: out_def active_def)
  ultimately show ?thesis by blast
qed

theorem wait_never_returns_witness:
  "\<exists>k k'. sc k = demo_sched \<and> sys_wait NULL k = Some (k', Switched, None) \<and> (\<forall>k''. (event 48)\<^sup>*\<^sup>* k' k'' \<longrightarrow> curr k'' \<noteq> 48)"
proof -
  fix m :: mm_state
  define k where "k = \<lparr>sc = demo_sched, mm = m, next_pid = 5, process_count = 0, process_list_head = NULL, process_list_tail = NULL\<rparr>"
  have c: "curr k = 48" "proc k 48 = zero_process\<lparr>pid := 4, page_dir := 4096, p_state := PROCESS_STATE_RUNNING, mlfq_level := 1\<rparr>"
    "idle_process (sc k) = 64" "sc k = demo_sched"
    by (simp_all add: k_def demo_sched_def mlfq.defs sched.defs)
  have "\<exists>k'. sys_wait NULL k = Some (k', Switched, None) \<and> (\<forall>k''. (event (curr k))\<^sup>*\<^sup>* k' k'' \<longrightarrow> curr k'' \<noteq> curr k)"
    by (rule wait_never_returns [where qs = demo_qs])
      (use demo_sched_ok c in \<open>simp_all add: zero_process_def\<close>)
  with c show ?thesis by auto
qed

end
