(* ===== verification/Spec2Isabelle.thy ===== *)
theory Spec2Isabelle
  imports Boot Div64 Pipe Fd_Spec Devfs Syscall Vma Mutex Mqueue Signal
begin

text \<open>
  A verification library for the kernel of Edu-OS, a teaching operating system for the i386 with paging,
  processes, a virtual file system and POSIX-like calls.  File names are relative to \<^verbatim>\<open>src/kernel\<close> unless
  they start with \<^verbatim>\<open>boot\<close>, \<^verbatim>\<open>include\<close> or \<^verbatim>\<open>lib\<close>, which are directories of \<^verbatim>\<open>src\<close>.

  \<^bold>\<open>Conventions.\<close>  An unsigned C integer of \<open>n\<close> bits is an \<open>n word\<close>, so it wraps as in C; a C \<^verbatim>\<open>int\<close> is an
  \<open>int\<close>.  A pointer is a 32-bit address with \<open>NULL = 0\<close>, and the structures of one C type form a store
  indexed by address.  Static variables and stores are the fields of a record, and an operation is a
  function on that record.  \<open>None\<close> is a panic, a page fault, an undefined access or a loop that does not end;
  error codes are ordinary results.  Loops with a bound of their own are recursive functions; loops that
  follow pointers are partial functions, and the theorems about them show that they return, except where
  the claim is that they do not.  No definition uses fuel.  Console output is not modelled.

  \<^bold>\<open>Memory.\<close>  \<open>Pmm\<close> is the bitmap of page frames (\<^verbatim>\<open>mm/pmm.c\<close>): its invariant ties the bitmap to the
  counters, and allocation, release and initialisation are described on the set of used frames.  The
  locale \<open>frame_allocator\<close> is what the other memory theories use of it.  \<open>Vmm\<close> has physical memory, \<open>cr3\<close>
  and the two-level walk of the processor, and the operations of \<^verbatim>\<open>mm/vmm.c\<close> that go through the recursive
  entry; they change the translation of the pages they are called for and of no others.  The page tables
  of \<^verbatim>\<open>boot/stage2/loader_complete.asm\<close> and of \<^verbatim>\<open>arch/i386/entry.asm\<close> are there too.  \<open>Kmap\<close> (\<^verbatim>\<open>mm/kmap.c\<close>) and
  \<open>Addrspace\<close> (the page directories of \<^verbatim>\<open>mm/vmm.c\<close>) treat directories that are not the current one.
  \<open>Kheap\<close> is the allocator of \<^verbatim>\<open>mm/kmalloc.c\<close>, whose linked blocks refine a list of blocks, and \<open>Kheap_Spec\<close>
  states what its clients get: first fit, disjoint live areas with frames of their own, coalescing,
  double frees, resizing, the integrity check.  Its contract is the locale \<open>kernel_allocator\<close>.  \<open>Boot\<close> builds
  a machine on which all these invariants hold.  \<open>Vma\<close> has the areas of a process and the calls of
  \<^verbatim>\<open>mm/vma.c\<close>, \<^verbatim>\<open>mm/mmap.c\<close> and \<^verbatim>\<open>syscall/sys_mem.c\<close>.

  \<^bold>\<open>Libraries.\<close>  \<open>Cstring\<close> is \<^verbatim>\<open>lib/string.c\<close> against specifications on byte lists, \<open>Uaccess\<close> the checked copies of
  \<^verbatim>\<open>mm/uaccess.c\<close>, \<open>Div64\<close> the 64-bit division of \<^verbatim>\<open>lib/libgcc_compat.c\<close> and \<^verbatim>\<open>lib/divdi3.c\<close>, \<open>Klist\<close> the circular
  lists of \<^verbatim>\<open>include/list.h\<close> with the contract \<open>kernel_lists\<close>.  \<open>Prelude\<close> holds the types, error numbers and
  facts about words and lists that the others share; \<open>Fifo\<close> is the contract of a bounded queue.

  \<^bold>\<open>Files.\<close>  \<open>Vfs\<close> is \<^verbatim>\<open>fs/vfs_core.c\<close>; the function tables of the mounted file systems and the lookups of FAT32
  and procfs are its argument \<open>env\<close>.  \<open>Vfs_Refs\<close> shows path resolution equal to a reference definition, and
  what dropping the last reference frees; the release operations are those of the source, of which the
  one of \<^verbatim>\<open>fs/fat32_file.c\<close> is modelled and the others do not touch this state.  \<open>Fdtable\<close> has
  \<^verbatim>\<open>process/fd_table.c\<close>, \<^verbatim>\<open>syscall/sys_fd.c\<close> and \<^verbatim>\<open>syscall/sys_io.c\<close>, and \<open>Fd_Spec\<close> their invariant: exact reference
  counts.  \<open>Devfs\<close> is \<^verbatim>\<open>fs/devfs.c\<close> with the null and zero devices, \<open>Pipe\<close> is \<^verbatim>\<open>ipc/pipe.c\<close>, an instance of the
  queue contract, and \<open>Mqueue\<close> is \<^verbatim>\<open>ipc/mqueue.c\<close>, which refines a priority queue.

  \<^bold>\<open>Synchronisation.\<close>  \<open>Lock\<close> has the busy-wait loop, the interleaving of processes, and the contract of a
  resource with a number of units; \<open>Semaphore\<close> (\<^verbatim>\<open>sync/semaphore.c\<close>) and \<open>Mutex\<close> (\<^verbatim>\<open>sync/mutex.c\<close>,
  \<^verbatim>\<open>sync/spinlock.c\<close>) are instances of it.  The kernel runs on one processor, and code with interrupts off is
  one atomic step.

  \<^bold>\<open>Interrupts and calls.\<close>  \<open>Interrupts\<close> has the descriptor tables, the interrupt controllers and the dispatch of
  \<^verbatim>\<open>arch/i386\<close>: which vectors and ports user code can reach, and when an interrupt is acknowledged.  A handler
  is an argument, and may leave for another process instead of returning.  \<open>Syscall\<close> has the table and the
  dispatcher of system calls, with the calls as an argument.

  \<^bold>\<open>Processes.\<close>  \<open>Procq\<close> has the process control block and its queues, \<open>Mlfq\<close> is \<^verbatim>\<open>process/mlfq_sched.c\<close> with the
  contract \<open>level_queues\<close>, \<open>Scheduler\<close> is \<^verbatim>\<open>process/scheduler.c\<close> with \<^verbatim>\<open>timer_handler\<close> of \<^verbatim>\<open>drivers/timer.c\<close>, \<open>Process\<close> is
  \<^verbatim>\<open>process/process.c\<close> and \<^verbatim>\<open>syscall/sys_process.c\<close>, and \<open>Signal\<close> is \<^verbatim>\<open>process/signal.c\<close>.  A switch is modelled as the
  change of the process on the processor.  The scheduler refines a choice on five lists as long as the
  running process is in no queue; the process that \<^verbatim>\<open>scheduler_enable\<close> starts violates this, and the theorems
  show what follows from that, and what becomes of a process that waits.

  \<^bold>\<open>Assumptions to keep in mind.\<close>  The bitmap of frames is a map of its own, not memory behind page tables.  The
  invariant of the page tables is what \<^verbatim>\<open>vmm_init\<close> establishes; \<^verbatim>\<open>kernel_main\<close> does not call it, and the theorem
  below says what that leads to.  The translation lookaside buffer is not modelled.  The registers pushed
  at a system call are matched to the C structure by name.  \<^verbatim>\<open>F_DUPFD\<close> with a negative number, which accesses
  memory before the table, is \<open>None\<close>.

  \<^bold>\<open>Not modelled.\<close>  Device drivers apart from the interrupt controllers and the timer handler, FAT32 and procfs
  apart from the operation named above, networking, loading of programs, \<^verbatim>\<open>fork\<close> and \<^verbatim>\<open>exec\<close>, shared memory,
  swapping and the page cache, the schedulers that are not used by default, wait queues, the remaining
  system calls, the assembly stubs, and the programs and libraries of user mode.  Most are dialogues with
  hardware or large clients of the parts above; some files are not part of the build.  \<^verbatim>\<open>fork\<close>, new programs
  and wait queues enter the model as processes that are added to the queues.
\<close>

section \<open>The start of the kernel heap\<close>

text \<open>
  \<^bold>\<open>C38.\<close> \<^verbatim>\<open>kernel_main\<close> calls \<^verbatim>\<open>pmm_init\<close> and \<^verbatim>\<open>kmalloc_init\<close> but not \<^verbatim>\<open>vmm_init\<close>: with the page tables of
  \<^verbatim>\<open>entry.asm\<close> alone the recursive window is missing, and the first \<^verbatim>\<open>kmalloc_init\<close> ends in a page fault.
\<close>

theorem boot_without_vmm_init_faults:
  assumes "zero_reserved p" "frames_left p \<noteq> 0" "unat start + unat bytes < 2 ^ 32" "69632 \<le> unat bytes"
  shows "kmalloc_init start bytes (h\<lparr>kvm := (entry_pages m)\<lparr>vm_pmm := p\<rparr>\<rparr>) = None"
proof -
  obtain pm a where a: "pmm_alloc_frame p = (pm, a)" by force
  have nz: "a \<noteq> 0"
    using pmm.alloc_avail [OF assms(1) a] assms(2) by simp
  have sz: "ALIGN_UP (PAGE_SIZE * 16 + sizeof_heap_block) PAGE_SIZE = 0x11000"
    by (simp add: ALIGN_UP_def PAGE_SIZE_def sizeof_heap_block_def)
  have "\<not> start + bytes < start + 0x11000"
    using assms(3,4) by (simp add: word_less_nat_alt unat_add_bounded)
  moreover have none: "expand_pages (Suc n) 0 start ((entry_pages m)\<lparr>vm_pmm := p\<rparr>) = None" for n
    using a nz entry_map_page_faults [of _ a PAGE_FLAGS_KERNEL pm m] by simp
  have "expand_pages (unat ((0x11000 :: u32) div PAGE_SIZE)) 0 start ((entry_pages m)\<lparr>vm_pmm := p\<rparr>) = None"
    using none [of 16] by (simp add: PAGE_SIZE_def)
  ultimately show ?thesis
    by (simp add: kmalloc_init_def expand_heap_def sz Let_def)
qed

theorem boot_without_vmm_init_faults_witness:
  "kmalloc_init 0x300000 0x1000000 (demo_heap0\<lparr>kvm := (entry_pages demo_vm)\<lparr>vm_pmm := demo_pmm16\<rparr>\<rparr>) = None"
  using boot_without_vmm_init_faults [OF demo16_inv(1), of "0x300000" "0x1000000" demo_vm demo_heap0]
  by (simp add: demo16_inv)

end
